(* ===== verification/Prelude.thy ===== *)
theory Prelude
  imports Main "HOL-Library.Word"
begin

text \<open>
  Vocabulary shared by every component: the result type of code that can throw, decimal
  printing and reading of unsigned integers (\<open>std::to_string\<close>, \<open>std::from_chars\<close>), and the
  theorem collection \<open>frame\<close> (fields an operation leaves alone).
\<close>

named_theorems frame "fields that an operation does not write"

section \<open>Exceptions\<close>

text \<open>
  A C++ function that can throw returns \<open>Inl\<close> of the exception. \<open>Undefined_behaviour\<close>
  stands for an execution the C++ standard gives no meaning to, \<open>No_termination\<close> for a
  loop that does not end.
\<close>

datatype exn =
    Domain_error string
  | Runtime_error string
  | Bad_expected_access
  | Out_of_range
  | Undefined_behaviour
  | No_termination

type_synonym 'a result = "exn + 'a"

fun bind_result :: "'a result \<Rightarrow> ('a \<Rightarrow> 'b result) \<Rightarrow> 'b result" where
  "bind_result (Inl e) f = Inl e"
| "bind_result (Inr x) f = f x"

lemma bind_result_Inr_iff [simp]:
  "bind_result r f = Inr y \<longleftrightarrow> (\<exists>x. r = Inr x \<and> f x = Inr y)"
  by (cases r) auto

lemma bind_result_Inl_iff:
  "bind_result r f = Inl e \<longleftrightarrow> r = Inl e \<or> (\<exists>x. r = Inr x \<and> f x = Inl e)"
  by (cases r) auto

section \<open>Decimal numerals\<close>

definition is_digit :: "char \<Rightarrow> bool" where
  "is_digit c \<longleftrightarrow> 48 \<le> (of_char c :: nat) \<and> (of_char c :: nat) \<le> 57"

definition digit_char :: "nat \<Rightarrow> char" where
  "digit_char d = char_of (48 + d)"

definition digit_val :: "char \<Rightarrow> nat" where
  "digit_val c = of_char c - 48"

fun to_dec :: "nat \<Rightarrow> string" where
  "to_dec n = (if n < 10 then [digit_char n] else to_dec (n div 10) @ [digit_char (n mod 10)])"

declare to_dec.simps [simp del]

text \<open>The value of the leading digits of a string, as \<open>std::from_chars\<close> accumulates it.\<close>

fun dec_value :: "nat \<Rightarrow> string \<Rightarrow> nat" where
  "dec_value acc [] = acc"
| "dec_value acc (c # cs) =
     (if is_digit c then dec_value (10 * acc + digit_val c) cs else acc)"

lemma is_digit_digit_char [simp]: "d < 10 \<Longrightarrow> is_digit (digit_char d)"
  by (simp add: is_digit_def digit_char_def)

lemma digit_val_digit_char [simp]: "d < 10 \<Longrightarrow> digit_val (digit_char d) = d"
  by (simp add: digit_val_def digit_char_def)

lemma to_dec_digits: "c \<in> set (to_dec n) \<Longrightarrow> is_digit c"
proof (induction n rule: to_dec.induct)
  case (1 n)
  then show ?case by (subst (asm) (2) to_dec.simps) (auto split: if_splits)
qed

lemma to_dec_nonempty [simp]: "to_dec n \<noteq> []"
  by (subst to_dec.simps) simp

lemma dec_value_append_digits:
  "(\<And>c. c \<in> set xs \<Longrightarrow> is_digit c) \<Longrightarrow> dec_value acc (xs @ ys) = dec_value (dec_value acc xs) ys"
  by (induction xs arbitrary: acc) auto

lemma dec_value_to_dec [simp]: "dec_value 0 (to_dec n) = n"
proof (induction n rule: to_dec.induct)
  case (1 n)
  show ?case
  proof (cases "n < 10")
    case True
    then show ?thesis by (subst to_dec.simps) simp
  next
    case False
    have "dec_value 0 (to_dec (n div 10) @ [digit_char (n mod 10)]) = 10 * (n div 10) + n mod 10"
      using 1 [OF False] to_dec_digits by (simp add: dec_value_append_digits)
    with False show ?thesis by (subst to_dec.simps) simp
  qed
qed

lemma to_dec_inject [simp]: "to_dec m = to_dec n \<longleftrightarrow> m = n"
  by (metis dec_value_to_dec)

lemma dec_value_to_dec_rest:
  "rest = [] \<or> \<not> is_digit (hd rest) \<Longrightarrow> dec_value 0 (to_dec n @ rest) = n"
  using to_dec_digits by (cases rest) (simp_all add: dec_value_append_digits)

text \<open>Evaluation of the numeral of a machine word, on binary integers.\<close>

function dec_of_int :: "int \<Rightarrow> string" where
  "dec_of_int k = (if k < 10 then [digit_char (nat k)] else dec_of_int (k div 10) @ [digit_char (nat (k mod 10))])"
  by auto
termination by (relation "measure nat") auto

declare dec_of_int.simps [simp del]

lemma dec_of_int_nat: "dec_of_int (int n) = to_dec n"
proof (induction n rule: to_dec.induct)
  case (1 n)
  show ?case
  proof (cases "n < 10")
    case True
    then show ?thesis by (subst dec_of_int.simps, subst to_dec.simps) simp
  next
    case False
    with 1 have "dec_of_int (int n div 10) = to_dec (n div 10)" by (simp add: zdiv_int)
    with False show ?thesis
      by (subst dec_of_int.simps, subst to_dec.simps) (simp add: nat_mod_distrib)
  qed
qed

lemma to_dec_word [code_unfold]: "to_dec (Word.the_nat w) = dec_of_int (Word.the_int w)"
  by (simp flip: dec_of_int_nat)

section \<open>Lists\<close>

text \<open>A separator that occurs in neither tail determines where a string splits.\<close>

lemma append_sep_inject:
  assumes "c \<notin> set ys" "c \<notin> set vs"
  shows "xs @ c # ys = us @ c # vs \<longleftrightarrow> xs = us \<and> ys = vs"
proof
  assume eq: "xs @ c # ys = us @ c # vs"
  have "rev ys @ c # rev xs = rev vs @ c # rev us"
    using arg_cong [OF eq, of rev] by simp
  then have "takeWhile (\<lambda>x. x \<noteq> c) (rev ys @ c # rev xs) = takeWhile (\<lambda>x. x \<noteq> c) (rev vs @ c # rev us)"
    by simp
  moreover have "takeWhile (\<lambda>x. x \<noteq> c) (rev ys @ c # rev xs) = rev ys"
    using assms(1) by (subst takeWhile_append2) auto
  moreover have "takeWhile (\<lambda>x. x \<noteq> c) (rev vs @ c # rev us) = rev vs"
    using assms(2) by (subst takeWhile_append2) auto
  ultimately show "xs = us \<and> ys = vs" using eq by simp
qed simp

section \<open>Lists\<close>

text \<open>A sum over a list when one element is replaced or removed.\<close>

lemma sum_list_map_update:
  fixes f :: "'a \<Rightarrow> 'b :: comm_monoid_add"
  shows "n < length xs \<Longrightarrow> sum_list (map f (xs[n := x])) + f (xs ! n) = sum_list (map f xs) + f x"
proof (induction xs arbitrary: n)
  case (Cons y ys)
  show ?case
  proof (cases n)
    case 0
    then show ?thesis by (simp add: ac_simps)
  next
    case (Suc m)
    with Cons.IH [of m] Cons.prems show ?thesis by (simp add: ac_simps)
  qed
qed simp

lemma sum_list_map_remove:
  fixes f :: "'a \<Rightarrow> 'b :: comm_monoid_add"
  assumes "n < length xs"
  shows "sum_list (map f (take n xs @ drop (Suc n) xs)) + f (xs ! n) = sum_list (map f xs)"
proof -
  have "sum_list (map f xs) = sum_list (map f (take n xs @ xs ! n # drop (Suc n) xs))"
    by (simp add: id_take_nth_drop [OF assms, symmetric])
  then show ?thesis by (simp add: ac_simps)
qed

lemma set_take_drop: "n < length xs \<Longrightarrow> set xs = insert (xs ! n) (set (take n xs) \<union> set (drop (Suc n) xs))"
  by (metis Un_insert_right id_take_nth_drop list.set(2) set_append)

end
