(* ===== verification/Asio.thy ===== *)
theory Asio
  imports Prelude
begin

text \<open>
  The asynchronous machinery the library is written against. Boost.Asio and Boost.Beast are
  not part of the repository: an operation of theirs is an \<open>io_call\<close> that a step of a
  coroutine issues, and its outcome is an \<open>io\<close> record chosen by the environment.
  A composed operation (\<open>net::async_compose\<close> around a \<open>FETCHPP_REENTER\<close> body) is a step
  function: it is entered at a resume point with the outcome of the call it waited for and
  either waits for another call, completes with an error code, or lets an exception escape.
\<close>

section \<open>Error codes\<close>

text \<open>
  The codes the source names, the code made of \<open>ERR_get_error()\<close> (an \<open>unsigned long\<close> cast
  to \<open>int\<close>), and every other failing code, such as the one of an expired stream timer.
\<close>

datatype error_code =
    Success
  | Operation_aborted
  | Timed_out
  | Connection_refused
  | Eof
  | Stream_truncated
  | Unspecified_system_error
  | Ssl_error "32 word"
  | Other_error nat

text \<open>The conversion to \<open>bool\<close>: a code of value 0 is no error, whatever its category.\<close>

fun failed :: "error_code \<Rightarrow> bool" where
  "failed Success = False"
| "failed (Ssl_error v) = (v \<noteq> 0)"
| "failed _ = True"

lemma failed_not_Success: "failed ec \<Longrightarrow> ec \<noteq> Success"
  by auto

definition err_to_code :: "64 word \<Rightarrow> error_code" where
  "err_to_code e = Ssl_error (ucast e)"

datatype GracefulShutdown = Yes | No

section \<open>Calls into the I/O layer and their outcomes\<close>

datatype stream_layer = Next_layer | Next_next_layer

datatype verb = Get | Head | Post | Connect | Other_verb string

record parser =
  pa_body_limit :: "64 word"   \<comment> \<open>\<open>std::uint64_t\<close>\<close>
  pa_skip :: bool

text \<open>
  A request as the code builds it: the constructor's arguments and, in order, the header
  fields it sets.
\<close>

record request_head =
  rq_method :: verb
  rq_target :: string
  rq_version :: nat
  rq_set :: "(string \<times> string) list"

datatype io_call =
    Async_resolve string string          \<comment> \<open>\<open>resolver_.async_resolve(domain, port)\<close>\<close>
  | Lowest_connect                       \<comment> \<open>\<open>get_lowest_layer(..).async_connect(results)\<close>\<close>
  | Async_handshake
  | Async_shutdown
  | Async_write stream_layer request_head
  | Async_read stream_layer parser
  | Post_self                            \<comment> \<open>\<open>net::post\<close> of the coroutine itself\<close>

text \<open>The calls that move an HTTP message over the layer the transport is for.\<close>

fun moves_message :: "io_call \<Rightarrow> bool" where
  "moves_message (Async_write l rq) \<longleftrightarrow> l = Next_layer"
| "moves_message (Async_read l pa) \<longleftrightarrow> l = Next_layer"
| "moves_message _ \<longleftrightarrow> False"

datatype effect =
    Issue io_call
  | Socket_cancel
  | Resolver_cancel
  | Close_socket
  | New_stream
  | Set_no_delay
  | Set_sni string
  | Response_assigned stream_layer nat   \<comment> \<open>the response read from that layer, its status\<close>

text \<open>
  The outcome of a call: its error code, whether the socket is open once it has completed,
  what a read leaves in the dynamic buffer and the status of the response it parsed; and the
  answers of the synchronous calls made in the same step: \<open>set_option(no_delay)\<close>,
  \<open>SSL_set_tlsext_host_name\<close>, \<open>ERR_get_error\<close>, and whether a connection attempt begun in that
  step got a socket opened for it.
\<close>

record io =
  io_ec :: error_code
  io_open :: bool
  io_rest :: string
  io_status :: nat
  io_option :: error_code
  io_sni :: bool
  io_err :: "64 word"
  io_opened :: bool

section \<open>The state of a transport\<close>

text \<open>
  The members of \<open>basic_async_transport\<close> and of \<open>tunnel_async_transport\<close> that change:
  \<open>running_\<close>, the content of \<open>buffer_\<close>, and of the stream owned by \<open>stream_\<close> its identity
  (a new number for each \<open>make_unique\<close>), whether its socket is open, whether its timer
  is armed (\<open>expires_after\<close>) or not (\<open>expires_never\<close>), and whether a TLS handshake has been
  made over its present connection.
\<close>

record transport =
  tr_running :: bool
  tr_buffer :: string
  tr_stream :: nat
  tr_open :: bool
  tr_timer :: bool
  tr_secured :: bool

text \<open>What the completion of a call does to the socket and the buffer.\<close>

fun io_apply :: "io_call \<Rightarrow> io \<Rightarrow> transport \<Rightarrow> transport" where
  "io_apply Post_self i t = t"
| "io_apply (Async_resolve _ _) i t = t"
| "io_apply (Async_read _ _) i t = t\<lparr>tr_open := io_open i, tr_buffer := io_rest i\<rparr>"
| "io_apply Async_handshake i t = t\<lparr>tr_open := io_open i, tr_secured := \<not> failed (io_ec i)\<rparr>"
| "io_apply _ i t = t\<lparr>tr_open := io_open i\<rparr>"

text \<open>
  What the beginning of a connection attempt does: the socket is opened as needed, before the
  attempt has succeeded, and the connection it is for is a new one.
\<close>

definition begin_connect :: "io \<Rightarrow> transport \<Rightarrow> transport" where
  "begin_connect i t = t\<lparr>tr_open := io_opened i, tr_secured := False\<rparr>"

text \<open>
  Documented behaviour of the I/O layer: a posted function is called without an error, a
  connection attempt or a handshake that succeeds leaves the socket open, and a failing
  \<open>SSL_set_tlsext_host_name\<close> leaves its reason in the queue \<open>ERR_get_error\<close> reads.
\<close>

definition io_lawful :: "io_call \<Rightarrow> io \<Rightarrow> bool" where
  "io_lawful q i \<longleftrightarrow>
     (q = Post_self \<longrightarrow> io_ec i = Success)
     \<and> (q \<in> {Lowest_connect, Async_handshake} \<longrightarrow> \<not> failed (io_ec i) \<longrightarrow> io_open i)
     \<and> (\<not> io_sni i \<longrightarrow> failed (err_to_code (io_err i)))"

lemma io_apply_frame [frame]:
  "tr_running (io_apply q i t) = tr_running t"
  "tr_stream (io_apply q i t) = tr_stream t"
  "tr_timer (io_apply q i t) = tr_timer t"
  by (cases q; simp)+

lemma begin_connect_simps [frame, simp]:
  "tr_running (begin_connect i t) = tr_running t" "tr_buffer (begin_connect i t) = tr_buffer t"
  "tr_stream (begin_connect i t) = tr_stream t" "tr_timer (begin_connect i t) = tr_timer t"
  "tr_open (begin_connect i t) = io_opened i" "\<not> tr_secured (begin_connect i t)"
  by (simp_all add: begin_connect_def)

section \<open>Coroutines\<close>

datatype coro = Entry | Yield1 | Yield2 | Yield3

text \<open>\<open>Inert\<close>: a resume point the coroutine never yields at; entering it does nothing.\<close>

datatype 'c progress =
    Waiting 'c io_call
  | Completed error_code
  | Threw error_code
  | Inert

type_synonym 'c outcome = "transport \<times> effect list \<times> 'c progress"

type_synonym 'c step = "'c \<Rightarrow> io \<Rightarrow> transport \<Rightarrow> 'c outcome"

text \<open>The first entry of a composed operation: no call has completed yet, \<open>ec\<close> is empty.\<close>

definition entering :: "io \<Rightarrow> io" where
  "entering i = i\<lparr>io_ec := Success\<rparr>"

lemma entering_simps [simp]:
  "io_ec (entering i) = Success" "io_open (entering i) = io_open i"
  "io_rest (entering i) = io_rest i" "io_status (entering i) = io_status i"
  "io_option (entering i) = io_option i" "io_sni (entering i) = io_sni i"
  "io_err (entering i) = io_err i" "io_opened (entering i) = io_opened i"
  by (simp_all add: entering_def)

text \<open>
  A composed operation that waits for an inner composed operation: while the inner one
  waits, so does the outer one; when it completes, the outer one is resumed in the same step
  with the inner one's error code.
\<close>

fun resume_outer :: "('c \<Rightarrow> 'd) \<Rightarrow> (error_code \<Rightarrow> transport \<Rightarrow> 'd outcome) \<Rightarrow> 'c outcome \<Rightarrow> 'd outcome" where
  "resume_outer wrap k (t, ef, Waiting c q) = (t, ef, Waiting (wrap c) q)"
| "resume_outer wrap k (t, ef, Completed ec) =
     (case k ec t of (t', ef', p) \<Rightarrow> (t', ef @ ef', p))"
| "resume_outer wrap k (t, ef, Threw ec) = (t, ef, Threw ec)"
| "resume_outer wrap k (t, ef, Inert) = (t, ef, Inert)"

text \<open>Feeding a composed operation the outcomes of the calls it waits for.\<close>

fun run :: "'c step \<Rightarrow> 'c outcome \<Rightarrow> io list \<Rightarrow> 'c outcome" where
  "run f (t, ef, Waiting c q) (i # is) =
     (case f c i (io_apply q i t) of (t', ef', p) \<Rightarrow> run f (t', ef @ ef', p) is)"
| "run f r _ = r"

text \<open>Every outcome fed to the operation obeys \<open>io_lawful\<close>.\<close>

fun lawful_run :: "'c step \<Rightarrow> 'c outcome \<Rightarrow> io list \<Rightarrow> bool" where
  "lawful_run f (t, ef, Waiting c q) (i # is) \<longleftrightarrow>
     io_lawful q i \<and> lawful_run f (f c i (io_apply q i t)) is"
| "lawful_run f _ _ \<longleftrightarrow> True"

fun finished :: "'c outcome \<Rightarrow> bool" where
  "finished (t, ef, Completed ec) = True"
| "finished (t, ef, Threw ec) = True"
| "finished _ = False"

lemma run_not_waiting: "(\<And>c q. p \<noteq> Waiting c q) \<Longrightarrow> run f (t, ef, p) is = (t, ef, p)"
  by (cases p; cases "is") auto

lemma run_finished [simp]: "finished r \<Longrightarrow> run f r is = r"
  by (cases r rule: finished.cases; cases "is") auto

text \<open>What every step keeps true of the calls made so far and of the progress holds of a run.\<close>

lemma run_trace:
  assumes step: "\<And>ef c q i t t' ef' p. Q ef (Waiting c q) \<Longrightarrow> f c i t = (t', ef', p) \<Longrightarrow> Q (ef @ ef') p"
  shows "Q ef p \<Longrightarrow> run f (t, ef, p) is = (t', ef', p') \<Longrightarrow> Q ef' p'"
proof (induction "is" arbitrary: t ef p)
  case Nil
  then show ?case by (cases p) auto
next
  case (Cons i "is")
  show ?case
  proof (cases p)
    case (Waiting c q)
    obtain u ef1 p1 where f: "f c i (io_apply q i t) = (u, ef1, p1)" by (metis prod.exhaust)
    have "Q (ef @ ef1) p1" using step [OF _ f] Cons.prems(1) Waiting by blast
    with Cons.IH Cons.prems(2) Waiting f show ?thesis by simp
  qed (use Cons.prems in simp_all)
qed

section \<open>The contract of a composed operation\<close>

text \<open>
  Every composed operation goes through its resume points in a fixed order, so it issues a
  bounded number of calls: \<open>rank\<close> bounds how many are left, \<open>good\<close> are the resume points
  it can be at. Clients get that it finishes once that many outcomes have arrived.
\<close>

locale composed_op =
  fixes body :: "'c step" and rank :: "'c \<Rightarrow> nat" and good :: "'c \<Rightarrow> bool"
  assumes rank_pos: "good c \<Longrightarrow> 0 < rank c"
    and step_good: "good c \<Longrightarrow> body c i t = (t', ef, Waiting c' q) \<Longrightarrow> good c'"
    and step_rank: "good c \<Longrightarrow> body c i t = (t', ef, Waiting c' q) \<Longrightarrow> rank c' < rank c"
    and step_live: "good c \<Longrightarrow> body c i t \<noteq> (t', ef, Inert)"
begin

lemma run_finishes:
  "good c \<Longrightarrow> rank c \<le> length is \<Longrightarrow> finished (run body (t, ef, Waiting c q) is)"
proof (induction "is" arbitrary: c t ef q)
  case Nil
  with rank_pos show ?case by fastforce
next
  case (Cons i "is")
  obtain t' ef' p where b: "body c i (io_apply q i t) = (t', ef', p)" by (metis prod.exhaust)
  show ?case
  proof (cases p)
    case (Waiting c' q')
    with b step_good step_rank Cons.prems(1) have "good c'" "rank c' < rank c" by metis+
    with Cons.IH [of c'] Cons.prems(2) b Waiting show ?thesis by simp
  next
    case Inert
    with b step_live Cons.prems(1) show ?thesis by metis
  qed (use b in simp_all)
qed

lemma start_finishes:
  assumes "good c" "rank c \<le> Suc (length is)"
  shows "finished (run body (body c i t) is)"
proof (cases "body c i t")
  case (fields t' ef p)
  show ?thesis
  proof (cases p)
    case (Waiting c' q)
    with fields assms step_good step_rank have "good c'" "rank c' \<le> length is"
      by (metis, metis less_Suc_eq_le order.strict_trans2)
    then show ?thesis using fields Waiting run_finishes by simp
  next
    case Inert
    with fields step_live assms(1) show ?thesis by metis
  qed (use fields in simp_all)
qed

end

text \<open>
  An operation with a postcondition: \<open>inv\<close> holds whenever it waits at a resume point for a
  call, and \<open>post\<close> when it completes, as long as the I/O layer is lawful.
\<close>

locale contract_op = composed_op body rank good
  for body :: "'c step" and rank :: "'c \<Rightarrow> nat" and good :: "'c \<Rightarrow> bool" +
  fixes inv :: "'c \<Rightarrow> io_call \<Rightarrow> transport \<Rightarrow> bool"
    and post :: "error_code \<Rightarrow> transport \<Rightarrow> bool"
  assumes inv_step: "good c \<Longrightarrow> inv c q t \<Longrightarrow> io_lawful q i
      \<Longrightarrow> body c i (io_apply q i t) = (t', ef, Waiting c' q') \<Longrightarrow> inv c' q' t'"
    and post_step: "good c \<Longrightarrow> inv c q t \<Longrightarrow> io_lawful q i
      \<Longrightarrow> body c i (io_apply q i t) = (t', ef, Completed ec) \<Longrightarrow> post ec t'"
begin

lemma run_post:
  "good c \<Longrightarrow> inv c q t \<Longrightarrow> lawful_run body (t, ef, Waiting c q) is
   \<Longrightarrow> run body (t, ef, Waiting c q) is = (t', ef', Completed ec) \<Longrightarrow> post ec t'"
proof (induction "is" arbitrary: c t ef q)
  case Nil
  then show ?case by simp
next
  case (Cons i "is")
  obtain u ef1 p where b: "body c i (io_apply q i t) = (u, ef1, p)" by (metis prod.exhaust)
  from Cons.prems(3) b have law: "io_lawful q i" "lawful_run body (u, ef1, p) is" by simp_all
  from Cons.prems(4) b have r: "run body (u, ef @ ef1, p) is = (t', ef', Completed ec)" by simp
  show ?case
  proof (cases p)
    case (Waiting c' q')
    have "lawful_run body (u, ef @ ef1, Waiting c' q') is"
      using law(2) Waiting by (cases "is") simp_all
    with Waiting b law(1) r Cons.prems(1,2) Cons.IH inv_step step_good show ?thesis by metis
  next
    case (Completed ec')
    with r have "t' = u" "ec = ec'" by simp_all
    with Completed b law(1) Cons.prems(1,2) post_step show ?thesis by metis
  qed (use r in simp_all)
qed

end

end
