(* ===== verification/Session_Base.thy ===== *)
theory Session_Base
  imports Prelude Asio "HOL-Library.While_Combinator"
begin

text \<open>
  \<open>core/detail/session_base.hpp\<close> and \<open>core/session_base.cpp\<close>: the queue of tasks of a
  session, its running flag and the timer a stopping session waits on. A task is an abstract
  class, so its virtual methods \<open>run\<close> and \<open>cancel\<close> are arguments of the operations.
\<close>

text \<open>
  \<open>sb_waits\<close> are the handlers of the pending \<open>async_wait\<close> operations of \<open>timer_\<close>, and
  \<open>sb_fired\<close> those whose wait has ended, with its error code, but which have not run yet.
\<close>

record ('k, 'w) session_base =
  sb_tasks :: "'k list"
  sb_running :: bool
  sb_waits :: "'w list"
  sb_fired :: "('w \<times> error_code) list"

section \<open>Operations\<close>

definition pending_tasks :: "('k, 'w, 'z) session_base_scheme \<Rightarrow> nat" where
  "pending_tasks s = length (sb_tasks s)"

definition has_tasks :: "('k, 'w, 'z) session_base_scheme \<Rightarrow> bool" where
  "has_tasks s \<longleftrightarrow> pending_tasks s > 0"

definition running :: "('k, 'w, 'z) session_base_scheme \<Rightarrow> bool" where
  "running s = sb_running s"

definition set_running :: "bool \<Rightarrow> ('k, 'w, 'z) session_base_scheme \<Rightarrow> ('k, 'w, 'z) session_base_scheme" where
  "set_running r s = s\<lparr>sb_running := r\<rparr>"

definition push_task :: "'k \<Rightarrow> ('k, 'w, 'z) session_base_scheme \<Rightarrow> ('k, 'w, 'z) session_base_scheme" where
  "push_task k s = s\<lparr>sb_tasks := sb_tasks s @ [k]\<rparr>"

definition process_task ::
  "('k \<Rightarrow> ('k, 'w, 'z) session_base_scheme \<Rightarrow> ('k, 'w, 'z) session_base_scheme)
   \<Rightarrow> ('k, 'w, 'z) session_base_scheme \<Rightarrow> ('k, 'w, 'z) session_base_scheme" where
  "process_task run_method s = (if has_tasks s then run_method (hd (sb_tasks s)) s else s)"

text \<open>Popping an empty \<open>std::queue\<close> is undefined.\<close>

definition pop_task :: "('k, 'w, 'z) session_base_scheme \<Rightarrow> ('k, 'w, 'z) session_base_scheme result" where
  "pop_task s =
     (if has_tasks s then Inr (s\<lparr>sb_tasks := tl (sb_tasks s)\<rparr>) else Inl Undefined_behaviour)"

text \<open>\<open>timer_.cancel()\<close> ends every pending wait with \<open>operation_aborted\<close>.\<close>

definition timer_cancel :: "('k, 'w, 'z) session_base_scheme \<Rightarrow> ('k, 'w, 'z) session_base_scheme" where
  "timer_cancel s =
     s\<lparr>sb_waits := [], sb_fired := sb_fired s @ map (\<lambda>w. (w, Operation_aborted)) (sb_waits s)\<rparr>"

text \<open>When the 500 ms are over, every pending wait ends without an error.\<close>

definition timer_expires :: "('k, 'w, 'z) session_base_scheme \<Rightarrow> ('k, 'w, 'z) session_base_scheme" where
  "timer_expires s =
     s\<lparr>sb_waits := [], sb_fired := sb_fired s @ map (\<lambda>w. (w, Success)) (sb_waits s)\<rparr>"

text \<open>\<open>expires_after\<close> cancels the waits pending on the timer before a new one is added.\<close>

definition async_wait_for_tasks_cancellation ::
  "'w \<Rightarrow> ('k, 'w, 'z) session_base_scheme \<Rightarrow> ('k, 'w, 'z) session_base_scheme" where
  "async_wait_for_tasks_cancellation w s =
     (let s' = timer_cancel s in s'\<lparr>sb_waits := sb_waits s' @ [w]\<rparr>)"

text \<open>The loop \<open>while (has_tasks()) { front()->cancel(); pop_task(); }\<close>\<close>

definition cancel_loop ::
  "('k \<Rightarrow> ('k, 'w, 'z) session_base_scheme \<Rightarrow> ('k, 'w, 'z) session_base_scheme)
   \<Rightarrow> ('k, 'w, 'z) session_base_scheme \<Rightarrow> ('k, 'w, 'z) session_base_scheme result option" where
  "cancel_loop cancel_method s =
     while_option (\<lambda>r. case r of Inr s \<Rightarrow> has_tasks s | Inl _ \<Rightarrow> False)
       (\<lambda>r. bind_result r (\<lambda>s. pop_task (cancel_method (hd (sb_tasks s)) s))) (Inr s)"

definition cancel_all_tasks ::
  "('k \<Rightarrow> ('k, 'w, 'z) session_base_scheme \<Rightarrow> ('k, 'w, 'z) session_base_scheme)
   \<Rightarrow> ('k, 'w, 'z) session_base_scheme \<Rightarrow> ('k, 'w, 'z) session_base_scheme result" where
  "cancel_all_tasks cancel_method s =
     (case cancel_loop cancel_method s of
        None \<Rightarrow> Inl No_termination
      | Some r \<Rightarrow> bind_result r (\<lambda>s. Inr (timer_cancel s)))"

definition advance_task ::
  "('k \<Rightarrow> ('k, 'w, 'z) session_base_scheme \<Rightarrow> ('k, 'w, 'z) session_base_scheme)
   \<Rightarrow> ('k \<Rightarrow> ('k, 'w, 'z) session_base_scheme \<Rightarrow> ('k, 'w, 'z) session_base_scheme)
   \<Rightarrow> ('k, 'w, 'z) session_base_scheme \<Rightarrow> ('k, 'w, 'z) session_base_scheme result" where
  "advance_task run_method cancel_method s =
     bind_result (pop_task s) (\<lambda>s.
       if running s then Inr (process_task run_method s)
       else cancel_all_tasks cancel_method s)"

section \<open>The contract of a task\<close>

text \<open>
  A task that is cancelled notifies its own handler: it neither reads nor changes the queue
  it is in. The loop then ends, and has cancelled every task, the oldest first.
\<close>

locale cancellable_task =
  fixes cancel_method :: "'k \<Rightarrow> ('k, 'w, 'z) session_base_scheme \<Rightarrow> ('k, 'w, 'z) session_base_scheme"
  assumes cancel_keeps_queue: "sb_tasks (cancel_method k s) = sb_tasks s"
    and cancel_ignores_queue:
      "cancel_method k (s\<lparr>sb_tasks := ks\<rparr>) = (cancel_method k s)\<lparr>sb_tasks := ks\<rparr>"
begin

lemma fold_cancel_ignores_queue:
  "fold cancel_method ks (s\<lparr>sb_tasks := xs\<rparr>) = (fold cancel_method ks s)\<lparr>sb_tasks := xs\<rparr>"
  by (induction ks arbitrary: s) (simp_all add: cancel_ignores_queue)

lemma cancel_loop_eq:
  "sb_tasks s = ks \<Longrightarrow> cancel_loop cancel_method s = Some (Inr ((fold cancel_method ks s)\<lparr>sb_tasks := []\<rparr>))"
proof (induction ks arbitrary: s)
  case Nil
  then show ?case
    by (simp add: cancel_loop_def while_option_unfold has_tasks_def pending_tasks_def)
next
  case (Cons k ks)
  let ?s = "(cancel_method k s)\<lparr>sb_tasks := ks\<rparr>"
  from Cons.prems have "cancel_loop cancel_method s = cancel_loop cancel_method ?s"
    by (simp add: cancel_loop_def while_option_unfold has_tasks_def pending_tasks_def pop_task_def
        cancel_keeps_queue)
  also have "\<dots> = Some (Inr ((fold cancel_method ks ?s)\<lparr>sb_tasks := []\<rparr>))"
    by (rule Cons.IH) simp
  also have "\<dots> = Some (Inr ((fold cancel_method (k # ks) s)\<lparr>sb_tasks := []\<rparr>))"
    by (simp add: fold_cancel_ignores_queue)
  finally show ?case .
qed

lemma cancel_all_tasks_eq:
  "cancel_all_tasks cancel_method s =
     Inr (timer_cancel ((fold cancel_method (sb_tasks s) s)\<lparr>sb_tasks := []\<rparr>))"
  by (simp add: cancel_all_tasks_def cancel_loop_eq)

lemma advance_task_eq:
  "sb_tasks s = k # ks \<Longrightarrow>
   advance_task run_method cancel_method s =
     (let s' = s\<lparr>sb_tasks := ks\<rparr> in
      if running s then Inr (process_task run_method s')
      else Inr (timer_cancel ((fold cancel_method ks s)\<lparr>sb_tasks := []\<rparr>)))"
  by (simp add: advance_task_def pop_task_def has_tasks_def pending_tasks_def running_def
      cancel_all_tasks_eq fold_cancel_ignores_queue Let_def)

end

end
