(* ===== verification/Endpoint.thy ===== *)
theory Endpoint
  imports Prelude
begin

text \<open>
  \<open>core/endpoint.hpp\<close> and \<open>core/endpoint.cpp\<close>: the network endpoints a session connects
  to. The template parameter of \<open>basic_endpoint\<close> and the class \<open>tunnel_endpoint\<close> become the
  three constructors of \<open>endpoint\<close>, one per session type of the client.
\<close>

record base_endpoint =
  ep_domain :: string
  ep_port :: "16 word"

definition host :: "base_endpoint \<Rightarrow> string" where
  "host e = ep_domain e @ '':'' @ to_dec (unat (ep_port e))"

text \<open>Equality of two endpoints of the same type (\<open>operator==\<close> of \<open>basic_endpoint\<close>).\<close>

definition basic_eq :: "base_endpoint \<Rightarrow> base_endpoint \<Rightarrow> bool" where
  "basic_eq l r \<longleftrightarrow> ep_port l = ep_port r \<and> ep_domain l = ep_domain r"

definition basic_ne :: "base_endpoint \<Rightarrow> base_endpoint \<Rightarrow> bool" where
  "basic_ne l r \<longleftrightarrow> \<not> basic_eq l r"

record tunnel_endpoint =
  ep_proxy :: base_endpoint
  ep_target :: base_endpoint

definition tunnel_eq :: "tunnel_endpoint \<Rightarrow> tunnel_endpoint \<Rightarrow> bool" where
  "tunnel_eq l r \<longleftrightarrow> basic_eq (ep_proxy l) (ep_proxy r) \<and> basic_eq (ep_target l) (ep_target r)"

definition tunnel_ne :: "tunnel_endpoint \<Rightarrow> tunnel_endpoint \<Rightarrow> bool" where
  "tunnel_ne l r \<longleftrightarrow> \<not> tunnel_eq l r"

datatype endpoint =
    Plain base_endpoint
  | Secure base_endpoint
  | Tunnel tunnel_endpoint

definition is_secure :: "endpoint \<Rightarrow> bool" where
  "is_secure e = (case e of Plain _ \<Rightarrow> False | Secure _ \<Rightarrow> True | Tunnel _ \<Rightarrow> True)"

text \<open>
  \<open>operator==\<close> over all endpoints: the same-type overloads, and the overload for two
  different \<open>basic_endpoint\<close> instances, which returns \<open>isSecure1 == isSecure2\<close>, false as
  they differ. A tunnel is never compared with a basic endpoint.
\<close>

fun endpoint_eq :: "endpoint \<Rightarrow> endpoint \<Rightarrow> bool" where
  "endpoint_eq (Plain a) (Plain b) = basic_eq a b"
| "endpoint_eq (Secure a) (Secure b) = basic_eq a b"
| "endpoint_eq (Tunnel a) (Tunnel b) = tunnel_eq a b"
| "endpoint_eq _ _ = False"

text \<open>
  \<open>operator!=\<close>, which has overloads of its own, one for each \<open>operator==\<close>; for two different
  \<open>basic_endpoint\<close> instances it returns \<open>isSecure1 != isSecure2\<close>.
\<close>

fun endpoint_ne :: "endpoint \<Rightarrow> endpoint \<Rightarrow> bool" where
  "endpoint_ne (Plain a) (Plain b) = basic_ne a b"
| "endpoint_ne (Secure a) (Secure b) = basic_ne a b"
| "endpoint_ne (Tunnel a) (Tunnel b) = tunnel_ne a b"
| "endpoint_ne _ _ = True"

section \<open>What a key of the session table promises\<close>

locale session_key =
  fixes eq :: "'e \<Rightarrow> 'e \<Rightarrow> bool"
  assumes eq_refl: "eq a a"
    and eq_sym: "eq a b \<Longrightarrow> eq b a"
    and eq_trans: "eq a b \<Longrightarrow> eq b c \<Longrightarrow> eq a c"
begin

lemma eq_class: "eq a b \<Longrightarrow> eq a c \<longleftrightarrow> eq b c"
  using eq_sym eq_trans by blast

end

lemma basic_eq_iff [simp]: "basic_eq a b \<longleftrightarrow> a = b"
  by (cases a, cases b) (auto simp: basic_eq_def)

lemma tunnel_eq_iff [simp]: "tunnel_eq a b \<longleftrightarrow> a = b"
  by (cases a, cases b) (auto simp: tunnel_eq_def)

lemma endpoint_eq_iff: "endpoint_eq a b \<longleftrightarrow> a = b"
  by (cases a; cases b) (auto simp: is_secure_def)

lemma endpoint_ne_iff: "endpoint_ne a b \<longleftrightarrow> \<not> endpoint_eq a b"
  by (cases a; cases b) (simp_all add: basic_ne_def tunnel_ne_def)

interpretation basic_key: session_key basic_eq
  by unfold_locales auto

interpretation tunnel_key: session_key tunnel_eq
  by unfold_locales auto

interpretation endpoint_key: session_key endpoint_eq
  by unfold_locales (auto simp: endpoint_eq_iff)

lemma colon_not_in_to_dec: "CHR '':'' \<notin> set (to_dec n)"
  using to_dec_digits [of "CHR '':''" n] by (auto simp: is_digit_def)

end
