(* ===== verification/Transport.thy ===== *)
theory Transport
  imports Asio Endpoint
begin

text \<open>
  \<open>core/basic_transport.hpp\<close>, \<open>core/tcp_transport.hpp\<close>, \<open>core/ssl_transport.hpp\<close> and
  \<open>core/detail/close_ssl.hpp\<close>: the transport over one stream, plain (\<open>Tcp\<close>) or TLS
  (\<open>Ssl\<close>), its connect operation and its close operation.
\<close>

datatype kind = Tcp | Ssl

section \<open>Members\<close>

definition setup_timer :: "transport \<Rightarrow> transport" where
  "setup_timer t = t\<lparr>tr_timer := True\<rparr>"

definition cancel_timer :: "transport \<Rightarrow> transport" where
  "cancel_timer t = t\<lparr>tr_timer := False\<rparr>"

definition set_tr_running :: "bool \<Rightarrow> transport \<Rightarrow> transport" where
  "set_tr_running r t = t\<lparr>tr_running := r\<rparr>"

text \<open>\<open>stream_ = std::make_unique(..)\<close>: a new stream has a closed socket, no timer and no TLS session.\<close>

definition new_stream :: "transport \<Rightarrow> transport" where
  "new_stream t = t\<lparr>tr_stream := Suc (tr_stream t), tr_open := False, tr_timer := False, tr_secured := False\<rparr>"

definition basic_reset :: "transport \<Rightarrow> transport" where
  "basic_reset t = new_stream (t\<lparr>tr_buffer := []\<rparr>)"

definition close_socket :: "transport \<Rightarrow> transport" where
  "close_socket t = t\<lparr>tr_open := False\<rparr>"

text \<open>A transport as its constructor leaves it.\<close>

definition new_transport :: transport where
  "new_transport = \<lparr>tr_running = True, tr_buffer = [], tr_stream = 0, tr_open = False, tr_timer = False,
     tr_secured = False\<rparr>"

lemmas member_defs = setup_timer_def cancel_timer_def set_tr_running_def new_stream_def
  basic_reset_def close_socket_def

section \<open>Connecting\<close>

text \<open>\<open>async_tcp_connect_op\<close>: here \<open>set_option\<close> is the overload that throws.\<close>

fun tcp_connect :: "coro step" where
  "tcp_connect c i t =
     (if failed (io_ec i) then (t, [], Completed (io_ec i))
      else (case c of
        Entry \<Rightarrow> (begin_connect i t, [Issue Lowest_connect], Waiting Yield1 Lowest_connect)
      | Yield1 \<Rightarrow>
          if failed (io_option i) then (t, [], Threw (io_option i))
          else (t, [Set_no_delay], Completed (io_ec i))
      | _ \<Rightarrow> (t, [], Inert)))"

text \<open>\<open>async_ssl_connect_op\<close>: SNI, connect, \<open>no_delay\<close>, handshake.\<close>

fun ssl_connect :: "string \<Rightarrow> coro step" where
  "ssl_connect domain c i t =
     (if failed (io_ec i) then (t, [], Completed (io_ec i))
      else (case c of
        Entry \<Rightarrow>
          if \<not> io_sni i then (t, [], Completed (err_to_code (io_err i)))
          else (begin_connect i t, [Set_sni domain, Issue Lowest_connect], Waiting Yield1 Lowest_connect)
      | Yield1 \<Rightarrow>
          if failed (io_option i) then (t, [], Completed (io_option i))
          else (t, [Set_no_delay, Issue Async_handshake], Waiting Yield2 Async_handshake)
      | Yield2 \<Rightarrow> (t, [], Completed (io_ec i))
      | _ \<Rightarrow> (t, [], Inert)))"

text \<open>The two overloads of \<open>do_async_connect\<close>, each starting the operation of its stream.\<close>

definition tcp_do_async_connect :: "string \<Rightarrow> coro step" where [simp]:
  "tcp_do_async_connect domain = tcp_connect"

definition ssl_do_async_connect :: "string \<Rightarrow> coro step" where [simp]:
  "ssl_do_async_connect domain = ssl_connect domain"

fun do_async_connect :: "kind \<Rightarrow> string \<Rightarrow> coro step" where
  "do_async_connect Tcp domain = tcp_do_async_connect domain"
| "do_async_connect Ssl domain = ssl_do_async_connect domain"

text \<open>
  \<open>async_basic_connect_op\<close>. The resume point is the operation's own (\<open>Outer\<close>) or, while it
  waits for \<open>do_async_connect\<close>, the inner operation's (\<open>Inner\<close>).
\<close>

datatype nested = Outer coro | Inner coro

text \<open>
  How the operation ends: after its second resume point, and by the check at the top of the
  body when \<open>do_async_connect\<close> completes with an error.
\<close>

definition connect_done :: "error_code \<Rightarrow> transport \<Rightarrow> nested outcome" where
  "connect_done ec t = (cancel_timer t, [], Completed ec)"

fun basic_connect :: "kind \<Rightarrow> base_endpoint \<Rightarrow> nested step" where
  "basic_connect k ep (Outer c) i t =
     (if failed (io_ec i) then (cancel_timer t, [], Completed (io_ec i))
      else (case c of
        Entry \<Rightarrow>
          let t1 = (if \<not> tr_running t then basic_reset t else t);
              t2 = setup_timer (set_tr_running True t1);
              q = Async_resolve (ep_domain ep) (to_dec (unat (ep_port ep)))
          in (t2, (if \<not> tr_running t then [New_stream] else []) @ [Issue q], Waiting (Outer Yield1) q)
      | Yield1 \<Rightarrow>
          resume_outer Inner connect_done
            (do_async_connect k (ep_domain ep) Entry (entering i) t)
      | Yield2 \<Rightarrow> connect_done (io_ec i) t
      | _ \<Rightarrow> (t, [], Inert)))"
| "basic_connect k ep (Inner c) i t =
     resume_outer Inner connect_done (do_async_connect k (ep_domain ep) c i t)"

section \<open>Closing\<close>

text \<open>\<open>async_tcp_close_op\<close>\<close>

fun tcp_close :: "coro step" where
  "tcp_close c i t =
     (case c of
        Entry \<Rightarrow> (t, [Issue Post_self], Waiting Yield1 Post_self)
      | Yield1 \<Rightarrow> (close_socket t, [Close_socket], Completed (io_ec i))
      | _ \<Rightarrow> (t, [], Inert))"

text \<open>\<open>async_ssl_close_op\<close>: the codes that a shutdown is allowed to end with.\<close>

definition forgiven :: "error_code \<Rightarrow> error_code" where
  "forgiven ec =
     (if ec = Eof then Success
      else if ec = Stream_truncated then Success
      else if ec = Unspecified_system_error then Success
      else if ec = Operation_aborted then Success
      else ec)"

fun ssl_close :: "coro step" where
  "ssl_close c i t =
     (case c of
        Entry \<Rightarrow> (t, [Issue Async_shutdown], Waiting Yield1 Async_shutdown)
      | Yield1 \<Rightarrow> (close_socket t, [Close_socket], Completed (forgiven (io_ec i)))
      | _ \<Rightarrow> (t, [], Inert))"

text \<open>The overloads of \<open>do_async_close\<close>.\<close>

definition tcp_do_async_close :: "coro step" where [simp]:
  "tcp_do_async_close = tcp_close"

definition ssl_do_async_close :: "coro step" where [simp]:
  "ssl_do_async_close = ssl_close"

fun do_async_close :: "kind \<Rightarrow> coro step" where
  "do_async_close Tcp = tcp_do_async_close"
| "do_async_close Ssl = ssl_do_async_close"

text \<open>
  \<open>do_cancel\<close> cancels what is under way on the socket and the caller goes on, here with \<open>r\<close>. The
  error of \<open>cancel\<close> is ignored, as in a build without assertions.
\<close>

definition do_cancel :: "'c outcome \<Rightarrow> 'c outcome" where [simp]:
  "do_cancel r = (case r of (t, ef, p) \<Rightarrow> (t, Socket_cancel # ef, p))"

text \<open>
  The coroutine of \<open>async_close(beGraceful, token)\<close>. Both yields of its body are followed by
  \<open>cancel_timer\<close> and the completion; the close that is not graceful reaches them without a yield.
\<close>

definition close_done :: "error_code \<Rightarrow> transport \<Rightarrow> nested outcome" where
  "close_done ec t = (cancel_timer t, [], Completed ec)"

fun basic_close :: "kind \<Rightarrow> GracefulShutdown \<Rightarrow> nested step" where
  "basic_close k gr (Outer c) i t =
     (case c of
        Entry \<Rightarrow>
          let t1 = setup_timer (set_tr_running False t) in
          if tr_open t1 then
            if gr = Yes then
              do_cancel (resume_outer Inner close_done (do_async_close k Entry (entering i) t1))
            else
              do_cancel (close_done (io_ec i) t1)
          else (t1, [Resolver_cancel, Issue Post_self], Waiting (Outer Yield2) Post_self)
      | Yield1 \<Rightarrow> close_done (io_ec i) t
      | Yield2 \<Rightarrow> close_done (io_ec i) t
      | _ \<Rightarrow> (t, [], Inert))"
| "basic_close k gr (Inner c) i t =
     resume_outer Inner close_done (do_async_close k c i t)"

section \<open>The operations finish, and how they leave the transport\<close>

fun connect_rank :: "nested \<Rightarrow> nat" where
  "connect_rank (Outer Entry) = 4"
| "connect_rank (Outer Yield1) = 3"
| "connect_rank (Inner Yield1) = 2"
| "connect_rank _ = 1"

fun connect_good :: "kind \<Rightarrow> nested \<Rightarrow> bool" where
  "connect_good k (Outer c) = (c = Entry \<or> c = Yield1)"
| "connect_good k (Inner c) = (c = Yield1 \<or> k = Ssl \<and> c = Yield2)"

fun connect_inv :: "nested \<Rightarrow> io_call \<Rightarrow> transport \<Rightarrow> bool" where
  "connect_inv (Outer Entry) q t = False"
| "connect_inv (Outer c) q t = (tr_running t \<and> tr_timer t \<and> (\<exists>d p. q = Async_resolve d p))"
| "connect_inv (Inner Yield1) q t = (tr_running t \<and> tr_timer t \<and> q = Lowest_connect)"
| "connect_inv (Inner c) q t = (tr_running t \<and> tr_timer t \<and> q = Async_handshake)"

definition connect_post :: "kind \<Rightarrow> error_code \<Rightarrow> transport \<Rightarrow> bool" where
  "connect_post k ec t \<longleftrightarrow> tr_running t \<and> \<not> tr_timer t
     \<and> (\<not> failed ec \<longrightarrow> tr_open t \<and> (k = Ssl \<longrightarrow> tr_secured t))"

lemma connect_good_cases:
  assumes "connect_good k c"
  obtains "c = Outer Entry" | "c = Outer Yield1" | "c = Inner Yield1" | "k = Ssl" "c = Inner Yield2"
  using assms by (cases "(k, c)" rule: connect_good.cases) auto

interpretation conn: contract_op "basic_connect k ep" connect_rank "connect_good k" connect_inv
    "connect_post k"
  for k ep
proof unfold_locales
  fix c i t t' ef c' q
  assume good: "connect_good k c"
  from good show "0 < connect_rank c" by (cases rule: connect_good_cases) simp_all
  from good show "basic_connect k ep c i t \<noteq> (t', ef, Inert)"
    by (cases rule: connect_good_cases; cases k) (auto simp: Let_def connect_done_def)
  {
    assume step: "basic_connect k ep c i t = (t', ef, Waiting c' q)"
    from good step show "connect_good k c'"
      by (cases rule: connect_good_cases; cases k)
        (auto simp: Let_def connect_done_def split: if_splits)
    from good step show "connect_rank c' < connect_rank c"
      by (cases rule: connect_good_cases; cases k)
        (auto simp: Let_def connect_done_def split: if_splits)
  }
next
  fix c q t i t' ef c' q' ec
  assume good: "connect_good k c" and I: "connect_inv c q t" and law: "io_lawful q i"
  {
    assume step: "basic_connect k ep c i (io_apply q i t) = (t', ef, Waiting c' q')"
    from good step I law show "connect_inv c' q' t'"
      by (cases rule: connect_good_cases; cases k)
        (auto simp: Let_def connect_done_def frame split: if_splits)
  }
  {
    assume step: "basic_connect k ep c i (io_apply q i t) = (t', ef, Completed ec)"
    from good step I law show "connect_post k ec t'"
      by (cases rule: connect_good_cases; cases k)
        (auto simp: Let_def connect_done_def connect_post_def member_defs io_lawful_def frame
          split: if_splits)
  }
qed

fun close_rank :: "nested \<Rightarrow> nat" where
  "close_rank (Outer Entry) = 2"
| "close_rank _ = 1"

fun close_good :: "nested \<Rightarrow> bool" where
  "close_good (Outer c) = (c = Entry \<or> c = Yield2)"
| "close_good (Inner c) = (c = Yield1)"

fun close_inv :: "nested \<Rightarrow> io_call \<Rightarrow> transport \<Rightarrow> bool" where
  "close_inv (Outer Yield2) q t = (\<not> tr_running t \<and> tr_timer t \<and> \<not> tr_open t \<and> q = Post_self)"
| "close_inv (Inner c) q t = (\<not> tr_running t \<and> tr_timer t \<and> \<not> moves_message q)"
| "close_inv _ q t = False"

definition close_post :: "GracefulShutdown \<Rightarrow> error_code \<Rightarrow> transport \<Rightarrow> bool" where
  "close_post gr ec t \<longleftrightarrow> \<not> tr_running t \<and> \<not> tr_timer t \<and> (gr = Yes \<longrightarrow> \<not> tr_open t)"

lemma close_good_cases:
  assumes "close_good c"
  obtains "c = Outer Entry" | "c = Outer Yield2" | "c = Inner Yield1"
  using assms by (cases c rule: close_good.cases) auto

interpretation clos: contract_op "basic_close k gr" close_rank close_good close_inv "close_post gr"
  for k gr
proof unfold_locales
  fix c i t t' ef c' q
  assume good: "close_good c"
  from good show "0 < close_rank c" by (cases rule: close_good_cases) simp_all
  from good show "basic_close k gr c i t \<noteq> (t', ef, Inert)"
    by (cases rule: close_good_cases; cases k) (auto simp: Let_def close_done_def)
  {
    assume step: "basic_close k gr c i t = (t', ef, Waiting c' q)"
    from good step show "close_good c'"
      by (cases rule: close_good_cases; cases k)
        (auto simp: Let_def close_done_def split: if_splits)
    from good step show "close_rank c' < close_rank c"
      by (cases rule: close_good_cases; cases k)
        (auto simp: Let_def close_done_def split: if_splits)
  }
next
  fix c q t i t' ef c' q' ec
  assume good: "close_good c" and I: "close_inv c q t" and law: "io_lawful q i"
  {
    assume step: "basic_close k gr c i (io_apply q i t) = (t', ef, Waiting c' q')"
    from good step I show "close_inv c' q' t'"
      by (cases rule: close_good_cases; cases k)
        (auto simp: Let_def close_done_def member_defs frame split: if_splits)
  }
  {
    assume step: "basic_close k gr c i (io_apply q i t) = (t', ef, Completed ec)"
    from good step I show "close_post gr ec t'"
      by (cases rule: close_good_cases; cases k)
        (auto simp: Let_def close_done_def close_post_def member_defs frame split: if_splits)
  }
qed

text \<open>The first step of a close, which may already be the last one.\<close>

lemma close_entry:
  assumes "basic_close k gr (Outer Entry) (entering i) t = (t', ef, p)"
  shows "p = Completed ec \<Longrightarrow> gr = No \<and> tr_open t \<and> t' = cancel_timer (set_tr_running False t) \<and> ec = Success"
    and "p = Waiting c q \<Longrightarrow> close_inv c q t'"
  using assms
  by (cases k; auto simp: Let_def close_done_def member_defs split: if_splits; cases gr; simp)+

lemma connect_entry:
  "basic_connect k ep (Outer Entry) (entering i) t = (t', ef, p) \<Longrightarrow>
     (\<exists>q. p = Waiting (Outer Yield1) q \<and> connect_inv (Outer Yield1) q t')"
  by (auto simp: Let_def member_defs)

end
