(* ===== verification/Process_One.thy ===== *)
theory Process_One
  imports Transport
begin

text \<open>
  \<open>core/process_one.hpp\<close>: one HTTP exchange, in its three overloads: over a stream with a
  caller's parser (\<open>parser_op\<close>), over a stream (\<open>stream_op\<close>) and over a transport
  (\<open>transport_op\<close>). Writing and reading messages is Boost.Beast's.
\<close>

text \<open>The response parser the operations make: body limit, and no body for some methods.\<close>

definition skips_body :: "request_head \<Rightarrow> bool" where
  "skips_body rq \<longleftrightarrow> rq_method rq = Connect \<or> rq_method rq = Head"

definition stream_parser :: parser where
  "stream_parser = \<lparr>pa_body_limit = 83886080, pa_skip = False\<rparr>"

definition transport_parser :: "request_head \<Rightarrow> parser" where
  "transport_parser rq =
     (let p = \<lparr>pa_body_limit = 80 * 1024 * 1024, pa_skip = False\<rparr>
      in if skips_body rq then p\<lparr>pa_skip := True\<rparr> else p)"

text \<open>The two calls into Boost.Beast.\<close>

definition run_async_write :: "stream_layer \<Rightarrow> request_head \<Rightarrow> io_call" where [simp]:
  "run_async_write l rq = Async_write l rq"

definition run_async_read :: "stream_layer \<Rightarrow> parser \<Rightarrow> io_call" where [simp]:
  "run_async_read l pa = Async_read l pa"

fun parser_op :: "stream_layer \<Rightarrow> request_head \<Rightarrow> parser \<Rightarrow> coro step" where
  "parser_op l rq pa c i t =
     (if failed (io_ec i) then (t, [], Completed (io_ec i))
      else (case c of
        Entry \<Rightarrow> let q = run_async_write l rq in (t, [Issue q], Waiting Yield1 q)
      | Yield1 \<Rightarrow> let q = run_async_read l pa in (t, [Issue q], Waiting Yield2 q)
      | Yield2 \<Rightarrow> (t, [], Completed (io_ec i))
      | _ \<Rightarrow> (t, [], Inert)))"

text \<open>\<open>async_process_one\<close> with a parser starts a \<open>parser_op\<close>.\<close>

definition parser_process_one :: "stream_layer \<Rightarrow> request_head \<Rightarrow> parser \<Rightarrow> io \<Rightarrow> transport \<Rightarrow> coro outcome" where [simp]:
  "parser_process_one l rq pa i t = parser_op l rq pa Entry (entering i) t"

text \<open>\<open>stream_op\<close> stores the response only when the exchange succeeded.\<close>

definition stream_done :: "stream_layer \<Rightarrow> io \<Rightarrow> error_code \<Rightarrow> transport \<Rightarrow> nested outcome" where
  "stream_done l i ec t =
     (if failed ec then (t, [], Completed ec)
      else (t, [Response_assigned l (io_status i)], Completed ec))"

fun stream_op :: "stream_layer \<Rightarrow> request_head \<Rightarrow> nested step" where
  "stream_op l rq (Outer c) i t =
     (if failed (io_ec i) then (t, [], Completed (io_ec i))
      else (case c of
        Entry \<Rightarrow>
          let pa = (if skips_body rq then stream_parser\<lparr>pa_skip := True\<rparr> else stream_parser)
          in resume_outer Inner (stream_done l i) (parser_process_one l rq pa i t)
      | Yield1 \<Rightarrow> stream_done l i (io_ec i) t
      | _ \<Rightarrow> (t, [], Inert)))"
| "stream_op l rq (Inner c) i t =
     resume_outer Inner (stream_done l i)
       (parser_op l rq (if skips_body rq then stream_parser\<lparr>pa_skip := True\<rparr> else stream_parser) c i t)"

text \<open>\<open>async_process_one\<close> over a stream starts a \<open>stream_op\<close>.\<close>

definition stream_process_one :: "stream_layer \<Rightarrow> request_head \<Rightarrow> io \<Rightarrow> transport \<Rightarrow> nested outcome" where [simp]:
  "stream_process_one l rq i t = stream_op l rq (Outer Entry) (entering i) t"

text \<open>
  \<open>transport_op\<close> also looks at \<open>is_running()\<close> at every entry: a transport that is being
  closed makes it abort even if its own call succeeded.
\<close>

fun transport_op :: "request_head \<Rightarrow> coro step" where
  "transport_op rq c i t =
     (if failed (io_ec i) then (cancel_timer t, [], Completed (io_ec i))
      else if \<not> tr_running t then (cancel_timer t, [], Completed Operation_aborted)
      else (case c of
        Entry \<Rightarrow>
          let q = run_async_write Next_layer rq in (setup_timer t, [Issue q], Waiting Yield1 q)
      | Yield1 \<Rightarrow>
          let q = run_async_read Next_layer (transport_parser rq) in (t, [Issue q], Waiting Yield2 q)
      | Yield2 \<Rightarrow> (cancel_timer t, [Response_assigned Next_layer (io_status i)], Completed (io_ec i))
      | _ \<Rightarrow> (t, [], Inert)))"

section \<open>The operations finish\<close>

fun process_rank :: "coro \<Rightarrow> nat" where
  "process_rank Entry = 3"
| "process_rank Yield1 = 2"
| "process_rank _ = 1"

definition process_good :: "coro \<Rightarrow> bool" where
  "process_good c \<longleftrightarrow> c \<noteq> Yield3"

fun process_inv :: "coro \<Rightarrow> io_call \<Rightarrow> transport \<Rightarrow> bool" where
  "process_inv Entry q t = False"
| "process_inv _ q t = tr_timer t"

text \<open>An exchange that succeeds has left the transport running; every end disarms the timer.\<close>

definition process_post :: "error_code \<Rightarrow> transport \<Rightarrow> bool" where
  "process_post ec t \<longleftrightarrow> \<not> tr_timer t \<and> (\<not> failed ec \<longrightarrow> tr_running t)"

interpretation proc: contract_op "transport_op rq" process_rank process_good process_inv process_post
  for rq
proof unfold_locales
  fix c i t t' ef c' q
  assume good: "process_good c"
  show "0 < process_rank c" by (cases c) simp_all
  from good show "transport_op rq c i t \<noteq> (t', ef, Inert)"
    by (cases c) (auto simp: Let_def process_good_def)
  {
    assume step: "transport_op rq c i t = (t', ef, Waiting c' q)"
    from good step show "process_good c'"
      by (cases c) (auto simp: Let_def process_good_def split: if_splits)
    from good step show "process_rank c' < process_rank c"
      by (cases c) (auto simp: Let_def process_good_def split: if_splits)
  }
next
  fix c q t i t' ef c' q' ec
  assume good: "process_good c" and I: "process_inv c q t"
  {
    assume "transport_op rq c i (io_apply q i t) = (t', ef, Waiting c' q')"
    with I show "process_inv c' q' t'"
      by (cases c) (auto simp: Let_def frame split: if_splits)
  }
  {
    assume "transport_op rq c i (io_apply q i t) = (t', ef, Completed ec)"
    with I show "process_post ec t'"
      by (cases c) (auto simp: Let_def process_post_def member_defs frame split: if_splits)
  }
qed

lemma process_entry:
  "transport_op rq Entry (entering i) t =
     (if tr_running t
      then (setup_timer t, [Issue (Async_write Next_layer rq)], Waiting Yield1 (Async_write Next_layer rq))
      else (cancel_timer t, [], Completed Operation_aborted))"
  by (simp add: Let_def)

text \<open>The two ways of writing the body limit are the same number of bytes.\<close>

lemma parsers_agree:
  "(if skips_body rq then stream_parser\<lparr>pa_skip := True\<rparr> else stream_parser) = transport_parser rq"
  by (simp add: stream_parser_def transport_parser_def)

end
