(* ===== verification/Tunnel.thy ===== *)
theory Tunnel
  imports Process_One
begin

text \<open>
  \<open>core/tunnel_transport.hpp\<close>: a TLS transport through an HTTP proxy. Connecting resolves
  and connects to the proxy, asks it for a tunnel with a CONNECT request, and then does the
  TLS handshake with the target.
\<close>

section \<open>Members\<close>

text \<open>\<open>tunnel_async_transport\<close> is a class of its own, with its own copies of the members.\<close>

definition new_tunnel_transport :: transport where
  "new_tunnel_transport =
     \<lparr>tr_running = True, tr_buffer = [], tr_stream = 0, tr_open = False, tr_timer = False, tr_secured = False\<rparr>"

definition tunnel_setup_timer :: "transport \<Rightarrow> transport" where
  "tunnel_setup_timer t = t\<lparr>tr_timer := True\<rparr>"

definition tunnel_cancel_timer :: "transport \<Rightarrow> transport" where
  "tunnel_cancel_timer t = t\<lparr>tr_timer := False\<rparr>"

text \<open>Unlike \<open>reset\<close> of the basic transport, this one leaves the buffer alone.\<close>

definition tunnel_reset :: "transport \<Rightarrow> transport" where
  "tunnel_reset t = new_stream t"

definition tunnel_is_open :: "transport \<Rightarrow> bool" where
  "tunnel_is_open t = tr_open t"

definition tunnel_set_running :: "bool \<Rightarrow> transport \<Rightarrow> transport" where
  "tunnel_set_running r t = t\<lparr>tr_running := r\<rparr>"

text \<open>Apart from \<open>reset\<close> the two classes agree.\<close>

lemma tunnel_members [simp]:
  "new_tunnel_transport = new_transport" "tunnel_setup_timer = setup_timer"
  "tunnel_cancel_timer = cancel_timer" "tunnel_set_running = set_tr_running" "tunnel_is_open = tr_open"
  by (simp_all add: fun_eq_iff new_tunnel_transport_def new_transport_def tunnel_setup_timer_def
      setup_timer_def tunnel_cancel_timer_def cancel_timer_def tunnel_set_running_def set_tr_running_def
      tunnel_is_open_def)

section \<open>Connecting\<close>

text \<open>
  \<open>async_tunnel_connect_op\<close> has two call operators: the coroutine (\<open>T_coro\<close>), and the one
  that receives the resolver's results (\<open>T_results\<close>). \<open>T_inner\<close> is the resume point of the
  exchange with the proxy.
\<close>

datatype tconn = T_coro coro | T_results | T_inner nested

definition connect_request :: "tunnel_endpoint \<Rightarrow> request_head" where
  "connect_request ep = \<lparr>
     rq_method = Connect,
     rq_target = host (ep_target ep),
     rq_version = 11,
     rq_set = [(''Host'', host (ep_target ep)), (''Proxy-Connection'', ''Keep-Alive'')]\<rparr>"

text \<open>After the exchange with the proxy, entered with its error code.\<close>

definition tunnel_processed :: "io \<Rightarrow> error_code \<Rightarrow> transport \<Rightarrow> tconn outcome" where
  "tunnel_processed i ec t =
     (if failed ec then (tunnel_cancel_timer t, [], Completed ec)
      else if io_status i \<noteq> 200 then (tunnel_cancel_timer t, [], Completed Connection_refused)
      else (t, [Issue Async_handshake], Waiting (T_coro Yield3) Async_handshake))"

fun tunnel_connect :: "tunnel_endpoint \<Rightarrow> tconn step" where
  "tunnel_connect ep (T_coro c) i t =
     (if failed (io_ec i) then (tunnel_cancel_timer t, [], Completed (io_ec i))
      else (case c of
        Entry \<Rightarrow>
          let t' = tunnel_setup_timer (tunnel_set_running True t);
              q = Async_resolve (ep_domain (ep_proxy ep)) (to_dec (unat (ep_port (ep_proxy ep))))
          in (t', [Issue q], Waiting T_results q)
      | Yield1 \<Rightarrow>
          if failed (io_option i) then (t, [], Threw (io_option i))
          else (case resume_outer T_inner (tunnel_processed i)
                  (stream_process_one Next_next_layer (connect_request ep) i t) of
                (t', ef, p) \<Rightarrow> (t', Set_no_delay # ef, p))
      | Yield2 \<Rightarrow> tunnel_processed i (io_ec i) t
      | Yield3 \<Rightarrow> (tunnel_cancel_timer t, [], Completed (io_ec i))))"
| "tunnel_connect ep T_results i t =
     (if failed (io_ec i) then (tunnel_cancel_timer t, [], Completed (io_ec i))
      else if \<not> io_sni i then (t, [], Completed (err_to_code (io_err i)))
      else (begin_connect i t, [Set_sni (ep_domain (ep_target ep)), Issue Lowest_connect],
            Waiting (T_coro Yield1) Lowest_connect))"
| "tunnel_connect ep (T_inner c) i t =
     resume_outer T_inner (tunnel_processed i)
       (stream_op Next_next_layer (connect_request ep) c i t)"

section \<open>Closing\<close>

text \<open>Unlike the basic transport, the tunnel drops its stream and buffer at every close.\<close>

definition tunnel_close_done :: "error_code \<Rightarrow> transport \<Rightarrow> nested outcome" where
  "tunnel_close_done ec t =
     (tunnel_reset ((tunnel_cancel_timer t)\<lparr>tr_buffer := []\<rparr>), [New_stream], Completed ec)"

text \<open>The overload of \<open>do_async_close\<close> for a tunnel.\<close>

definition tunnel_do_async_close :: "coro step" where [simp]:
  "tunnel_do_async_close = ssl_close"

fun tunnel_close :: "GracefulShutdown \<Rightarrow> nested step" where
  "tunnel_close gr (Outer c) i t =
     (case c of
        Entry \<Rightarrow>
          let t1 = tunnel_setup_timer (tunnel_set_running False t) in
          if tunnel_is_open t1 then
            if gr = Yes then
              do_cancel (resume_outer Inner tunnel_close_done (tunnel_do_async_close Entry (entering i) t1))
            else
              do_cancel (tunnel_close_done (io_ec i) t1)
          else (t1, [Resolver_cancel, Issue Post_self], Waiting (Outer Yield2) Post_self)
      | Yield1 \<Rightarrow> tunnel_close_done (io_ec i) t
      | Yield2 \<Rightarrow> tunnel_close_done (io_ec i) t
      | _ \<Rightarrow> (t, [], Inert))"
| "tunnel_close gr (Inner c) i t =
     resume_outer Inner tunnel_close_done (tunnel_do_async_close c i t)"

section \<open>The operations finish, and how they leave the transport\<close>

fun tconn_rank :: "tconn \<Rightarrow> nat" where
  "tconn_rank (T_coro Entry) = 6"
| "tconn_rank T_results = 5"
| "tconn_rank (T_coro Yield1) = 4"
| "tconn_rank (T_inner (Inner Yield1)) = 3"
| "tconn_rank (T_inner (Inner Yield2)) = 2"
| "tconn_rank _ = 1"

fun tconn_good :: "tconn \<Rightarrow> bool" where
  "tconn_good (T_coro c) = (c = Entry \<or> c = Yield1 \<or> c = Yield3)"
| "tconn_good T_results = True"
| "tconn_good (T_inner c) = (c = Inner Yield1 \<or> c = Inner Yield2)"

fun tconn_inv :: "tconn \<Rightarrow> io_call \<Rightarrow> transport \<Rightarrow> bool" where
  "tconn_inv (T_coro Entry) q t = False"
| "tconn_inv (T_coro Yield3) q t = (tr_running t \<and> tr_timer t \<and> q = Async_handshake)"
| "tconn_inv T_results q t = (tr_running t \<and> tr_timer t \<and> (\<exists>d p. q = Async_resolve d p))"
| "tconn_inv _ q t = (tr_running t \<and> tr_timer t \<and> \<not> moves_message q)"

text \<open>
  The end of a tunnel connect: as for the basic transport, except that it says nothing of the
  timer when \<open>SSL_set_tlsext_host_name\<close> failed (an \<open>Ssl_error\<close>).
\<close>

definition tconn_post :: "error_code \<Rightarrow> transport \<Rightarrow> bool" where
  "tconn_post ec t \<longleftrightarrow> tr_running t \<and> ((\<forall>v. ec \<noteq> Ssl_error v) \<longrightarrow> \<not> tr_timer t)
     \<and> (\<not> failed ec \<longrightarrow> tr_open t \<and> \<not> tr_timer t \<and> tr_secured t)"

lemma tconn_good_cases:
  assumes "tconn_good c"
  obtains "c = T_coro Entry" | "c = T_coro Yield1" | "c = T_coro Yield3" | "c = T_results"
    | "c = T_inner (Inner Yield1)" | "c = T_inner (Inner Yield2)"
  using assms by (cases c) auto

interpretation tconn: contract_op "tunnel_connect ep" tconn_rank tconn_good tconn_inv tconn_post
  for ep
proof unfold_locales
  fix c i t t' ef c' q
  assume good: "tconn_good c"
  from good show "0 < tconn_rank c" by (cases rule: tconn_good_cases) simp_all
  from good show "tunnel_connect ep c i t \<noteq> (t', ef, Inert)"
    by (cases rule: tconn_good_cases) (auto simp: Let_def stream_done_def tunnel_processed_def)
  {
    assume step: "tunnel_connect ep c i t = (t', ef, Waiting c' q)"
    from good step show "tconn_good c'"
      by (cases rule: tconn_good_cases)
        (auto simp: Let_def stream_done_def tunnel_processed_def split: if_splits)
    from good step show "tconn_rank c' < tconn_rank c"
      by (cases rule: tconn_good_cases)
        (auto simp: Let_def stream_done_def tunnel_processed_def split: if_splits)
  }
next
  fix c q t i t' ef c' q' ec
  assume good: "tconn_good c" and I: "tconn_inv c q t" and law: "io_lawful q i"
  {
    assume step: "tunnel_connect ep c i (io_apply q i t) = (t', ef, Waiting c' q')"
    from good step I show "tconn_inv c' q' t'"
      by (cases rule: tconn_good_cases)
        (auto simp: Let_def stream_done_def tunnel_processed_def member_defs frame split: if_splits)
  }
  {
    assume step: "tunnel_connect ep c i (io_apply q i t) = (t', ef, Completed ec)"
    from good step I law show "tconn_post ec t'"
      by (cases rule: tconn_good_cases)
        (auto simp: Let_def stream_done_def tunnel_processed_def tconn_post_def member_defs
          io_lawful_def err_to_code_def frame split: if_splits)
  }
qed

definition tclose_post :: "error_code \<Rightarrow> transport \<Rightarrow> bool" where
  "tclose_post ec t \<longleftrightarrow> \<not> tr_running t \<and> \<not> tr_timer t \<and> \<not> tr_open t \<and> tr_buffer t = []"

interpretation tclos: contract_op "tunnel_close gr" close_rank close_good close_inv tclose_post
  for gr
proof unfold_locales
  fix c i t t' ef c' q
  assume good: "close_good c"
  from good show "0 < close_rank c" by (cases rule: close_good_cases) simp_all
  from good show "tunnel_close gr c i t \<noteq> (t', ef, Inert)"
    by (cases rule: close_good_cases) (auto simp: Let_def tunnel_close_done_def)
  {
    assume step: "tunnel_close gr c i t = (t', ef, Waiting c' q)"
    from good step show "close_good c'"
      by (cases rule: close_good_cases) (auto simp: Let_def tunnel_close_done_def split: if_splits)
    from good step show "close_rank c' < close_rank c"
      by (cases rule: close_good_cases) (auto simp: Let_def tunnel_close_done_def split: if_splits)
  }
next
  fix c q t i t' ef c' q' ec
  assume good: "close_good c" and I: "close_inv c q t" and law: "io_lawful q i"
  {
    assume step: "tunnel_close gr c i (io_apply q i t) = (t', ef, Waiting c' q')"
    from good step I show "close_inv c' q' t'"
      by (cases rule: close_good_cases)
        (auto simp: Let_def tunnel_close_done_def member_defs frame split: if_splits)
  }
  {
    assume step: "tunnel_close gr c i (io_apply q i t) = (t', ef, Completed ec)"
    from good step I show "tclose_post ec t'"
      by (cases rule: close_good_cases)
        (auto simp: Let_def tunnel_close_done_def tclose_post_def tunnel_reset_def member_defs
          frame split: if_splits)
  }
qed

section \<open>The calls of a tunnel connect\<close>

text \<open>
  The handshake with the target is the last call, right after the proxy's answer with status
  200 to the CONNECT request; a connect that ends without an error has made it.
\<close>

definition connect_sent :: "tunnel_endpoint \<Rightarrow> effect list \<Rightarrow> bool" where
  "connect_sent ep ef \<longleftrightarrow> Issue (Async_write Next_next_layer (connect_request ep)) \<in> set ef"

definition handshaken :: "tunnel_endpoint \<Rightarrow> effect list \<Rightarrow> bool" where
  "handshaken ep ef \<longleftrightarrow>
     (\<exists>pre. ef = pre @ [Response_assigned Next_next_layer 200, Issue Async_handshake]
        \<and> Issue Async_handshake \<notin> set pre \<and> connect_sent ep pre)"

fun tunnel_trace :: "tunnel_endpoint \<Rightarrow> effect list \<Rightarrow> tconn progress \<Rightarrow> bool" where
  "tunnel_trace ep ef (Waiting (T_coro Yield3) q) = handshaken ep ef"
| "tunnel_trace ep ef (Waiting (T_coro Yield2) q) = False"
| "tunnel_trace ep ef (Waiting (T_coro Entry) q) = False"
| "tunnel_trace ep ef (Waiting (T_inner c) q) =
     (Issue Async_handshake \<notin> set ef \<and> connect_sent ep ef \<and> tconn_good (T_inner c))"
| "tunnel_trace ep ef (Waiting _ q) = (Issue Async_handshake \<notin> set ef)"
| "tunnel_trace ep ef (Completed ec) =
     (if Issue Async_handshake \<in> set ef then handshaken ep ef else failed ec \<or> (\<exists>v. ec = Ssl_error v))"
| "tunnel_trace ep ef _ = (Issue Async_handshake \<notin> set ef)"

lemma handshaken_handshake [simp]: "handshaken ep ef \<Longrightarrow> Issue Async_handshake \<in> set ef"
  by (auto simp: handshaken_def)

lemma tunnel_trace_step:
  "tunnel_trace ep ef (Waiting c q) \<Longrightarrow> tunnel_connect ep c i t = (t', ef', p) \<Longrightarrow> tunnel_trace ep (ef @ ef') p"
  by (cases "(ep, ef, Waiting c q)" rule: tunnel_trace.cases)
    (auto simp: Let_def stream_done_def tunnel_processed_def err_to_code_def connect_sent_def handshaken_def
      split: if_splits)

lemma tunnel_trace_run:
  assumes "run (tunnel_connect ep) (tunnel_connect ep (T_coro Entry) (entering i) t) is = (t', ef, p)"
  shows "tunnel_trace ep ef p"
proof -
  obtain u ef1 p1 where b: "tunnel_connect ep (T_coro Entry) (entering i) t = (u, ef1, p1)"
    by (metis prod.exhaust)
  then have "tunnel_trace ep ef1 p1" by (auto simp: Let_def)
  with run_trace [where Q = "tunnel_trace ep" and f = "tunnel_connect ep"] tunnel_trace_step assms b
  show ?thesis by metis
qed

end
