(* ===== verification/Async_Transport.thy ===== *)
theory Async_Transport
  imports Tunnel
begin

text \<open>
  What a session sees of its transport. \<open>session<Endpoint, AsyncTransport>\<close> is a template:
  the deduction guides at the end of \<open>core/session.hpp\<close> pair each endpoint type with one
  transport, so the operations here are indexed by the endpoint.
\<close>

section \<open>The three operations of a transport\<close>

datatype op_point =
    At_connect nested
  | At_tunnel tconn
  | At_close GracefulShutdown nested
  | At_process request_head coro

fun at_point :: "('c \<Rightarrow> op_point) \<Rightarrow> 'c outcome \<Rightarrow> op_point outcome" where
  "at_point w (t, ef, p) = (t, ef, map_progress w p)"

text \<open>Resuming an operation of the session's transport.\<close>

fun transport_body :: "endpoint \<Rightarrow> op_point step" where
  "transport_body (Plain e) (At_connect c) i t = at_point At_connect (basic_connect Tcp e c i t)"
| "transport_body (Secure e) (At_connect c) i t = at_point At_connect (basic_connect Ssl e c i t)"
| "transport_body (Tunnel e) (At_tunnel c) i t = at_point At_tunnel (tunnel_connect e c i t)"
| "transport_body (Plain e) (At_close gr c) i t = at_point (At_close gr) (basic_close Tcp gr c i t)"
| "transport_body (Secure e) (At_close gr c) i t = at_point (At_close gr) (basic_close Ssl gr c i t)"
| "transport_body (Tunnel e) (At_close gr c) i t = at_point (At_close gr) (tunnel_close gr c i t)"
| "transport_body ep (At_process rq c) i t = at_point (At_process rq) (transport_op rq c i t)"
| "transport_body ep _ i t = (t, [], Inert)"

text \<open>Starting one.\<close>

definition connect_point :: "endpoint \<Rightarrow> op_point" where
  "connect_point ep =
     (case ep of Tunnel _ \<Rightarrow> At_tunnel (T_coro Entry) | _ \<Rightarrow> At_connect (Outer Entry))"

definition async_connect :: "endpoint \<Rightarrow> io \<Rightarrow> transport \<Rightarrow> op_point outcome" where
  "async_connect ep i t = transport_body ep (connect_point ep) (entering i) t"

definition async_close :: "endpoint \<Rightarrow> GracefulShutdown \<Rightarrow> io \<Rightarrow> transport \<Rightarrow> op_point outcome" where
  "async_close ep gr i t = transport_body ep (At_close gr (Outer Entry)) (entering i) t"

definition async_process_one :: "endpoint \<Rightarrow> request_head \<Rightarrow> io \<Rightarrow> transport \<Rightarrow> op_point outcome" where
  "async_process_one ep rq i t = transport_body ep (At_process rq Entry) (entering i) t"

fun op_rank :: "op_point \<Rightarrow> nat" where
  "op_rank (At_connect c) = connect_rank c"
| "op_rank (At_tunnel c) = tconn_rank c"
| "op_rank (At_close gr c) = close_rank c"
| "op_rank (At_process rq c) = process_rank c"

fun op_good :: "endpoint \<Rightarrow> op_point \<Rightarrow> bool" where
  "op_good (Plain e) (At_connect c) = connect_good Tcp c"
| "op_good (Secure e) (At_connect c) = connect_good Ssl c"
| "op_good (Tunnel e) (At_tunnel c) = tconn_good c"
| "op_good ep (At_close gr c) = close_good c"
| "op_good ep (At_process rq c) = process_good c"
| "op_good ep _ = False"

lemma at_point_Waiting:
  "at_point w r = (t, ef, Waiting p q) \<longleftrightarrow> (\<exists>c. r = (t, ef, Waiting c q) \<and> p = w c)"
  by (cases r; cases "snd (snd r)") auto

lemma at_point_Inert: "at_point w r = (t, ef, Inert) \<longleftrightarrow> r = (t, ef, Inert)"
  by (cases r; cases "snd (snd r)") auto

lemma at_point_Completed: "at_point w r = (t, ef, Completed ec) \<longleftrightarrow> r = (t, ef, Completed ec)"
  by (cases r; cases "snd (snd r)") auto

lemmas at_point_iffs = at_point_Waiting at_point_Inert at_point_Completed

lemma op_good_cases [consumes 1, case_names plain secure tunnel close process]:
  assumes "op_good ep p"
  obtains (plain) e c where "ep = Plain e" "p = At_connect c" "connect_good Tcp c"
    | (secure) e c where "ep = Secure e" "p = At_connect c" "connect_good Ssl c"
    | (tunnel) e c where "ep = Tunnel e" "p = At_tunnel c" "tconn_good c"
    | (close) gr c where "p = At_close gr c" "close_good c"
    | (process) rq c where "p = At_process rq c" "process_good c"
  using assms by (cases "(ep, p)" rule: op_good.cases) auto

lemma close_body_cases:
  "transport_body ep (At_close gr c) i t =
     at_point (At_close gr)
       (case ep of Plain _ \<Rightarrow> basic_close Tcp gr c i t | Secure _ \<Rightarrow> basic_close Ssl gr c i t
        | Tunnel _ \<Rightarrow> tunnel_close gr c i t)"
  by (cases ep) simp_all

interpretation top: composed_op "transport_body ep" op_rank "op_good ep" for ep
proof unfold_locales
  fix p i t t' ef p' q
  assume good: "op_good ep p"
  then show "0 < op_rank p"
    by (cases rule: op_good_cases) (auto intro: conn.rank_pos tconn.rank_pos clos.rank_pos proc.rank_pos)
  from good show "transport_body ep p i t \<noteq> (t', ef, Inert)"
    by (cases rule: op_good_cases; cases ep)
      (auto simp: at_point_iffs conn.step_live tconn.step_live clos.step_live tclos.step_live
        proc.step_live simp del: basic_connect.simps tunnel_connect.simps basic_close.simps
        tunnel_close.simps transport_op.simps)
  {
    assume step: "transport_body ep p i t = (t', ef, Waiting p' q)"
    from good step show "op_good ep p'"
      by (cases rule: op_good_cases; cases ep)
        (auto simp: at_point_iffs simp del: basic_connect.simps tunnel_connect.simps basic_close.simps
          tunnel_close.simps transport_op.simps
          dest: conn.step_good tconn.step_good clos.step_good tclos.step_good proc.step_good)
    from good step show "op_rank p' < op_rank p"
      by (cases rule: op_good_cases; cases ep)
        (auto simp: at_point_iffs simp del: basic_connect.simps tunnel_connect.simps basic_close.simps
          tunnel_close.simps transport_op.simps
          dest: conn.step_rank tconn.step_rank clos.step_rank tclos.step_rank proc.step_rank)
  }
qed

section \<open>Whole operations\<close>

text \<open>Running an operation of the transport is running the operation it wraps.\<close>

lemma run_at_point:
  assumes "\<And>c i t. f (w c) i t = at_point w (g c i t)"
  shows "run f (at_point w r) is = at_point w (run g r is)"
proof (induction "is" arbitrary: r)
  case Nil
  show ?case by (cases r; cases "snd (snd r)") auto
next
  case (Cons i "is")
  obtain t ef p where r: "r = (t, ef, p)" by (metis prod.exhaust)
  show ?case
  proof (cases p)
    case (Waiting c q)
    obtain t' ef' p' where g: "g c i (io_apply q i t) = (t', ef', p')" by (metis prod.exhaust)
    have "run f (at_point w (t', ef @ ef', p')) is = at_point w (run g (t', ef @ ef', p') is)"
      by (rule Cons.IH)
    then show ?thesis using r Waiting g assms by simp
  qed (simp_all add: r)
qed

lemma lawful_run_at_point:
  assumes "\<And>c i t. f (w c) i t = at_point w (g c i t)"
  shows "lawful_run f (at_point w r) is = lawful_run g r is"
proof (induction "is" arbitrary: r)
  case Nil
  show ?case by (cases r; cases "snd (snd r)") auto
next
  case (Cons i "is")
  obtain t ef p where r: "r = (t, ef, p)" by (metis prod.exhaust)
  show ?case by (cases p) (simp_all add: r assms Cons.IH)
qed

lemma run_lifts:
  "run (transport_body (Plain e)) (at_point At_connect r) is = at_point At_connect (run (basic_connect Tcp e) r is)"
  "run (transport_body (Secure e)) (at_point At_connect r) is = at_point At_connect (run (basic_connect Ssl e) r is)"
  "run (transport_body (Tunnel te)) (at_point At_tunnel r2) is = at_point At_tunnel (run (tunnel_connect te) r2 is)"
  "run (transport_body (Plain e)) (at_point (At_close gr) r) is = at_point (At_close gr) (run (basic_close Tcp gr) r is)"
  "run (transport_body (Secure e)) (at_point (At_close gr) r) is = at_point (At_close gr) (run (basic_close Ssl gr) r is)"
  "run (transport_body (Tunnel te)) (at_point (At_close gr) r) is = at_point (At_close gr) (run (tunnel_close gr) r is)"
  by (rule run_at_point; simp only: transport_body.simps)+

lemma lawful_run_lifts:
  "lawful_run (transport_body (Plain e)) (at_point At_connect r) is = lawful_run (basic_connect Tcp e) r is"
  "lawful_run (transport_body (Secure e)) (at_point At_connect r) is = lawful_run (basic_connect Ssl e) r is"
  "lawful_run (transport_body (Tunnel te)) (at_point At_tunnel r2) is = lawful_run (tunnel_connect te) r2 is"
  "lawful_run (transport_body (Plain e)) (at_point (At_close gr) r) is = lawful_run (basic_close Tcp gr) r is"
  "lawful_run (transport_body (Secure e)) (at_point (At_close gr) r) is = lawful_run (basic_close Ssl gr) r is"
  "lawful_run (transport_body (Tunnel te)) (at_point (At_close gr) r) is = lawful_run (tunnel_close gr) r is"
  by (rule lawful_run_at_point; simp only: transport_body.simps)+

text \<open>The wrapped operations, whole: from the start, over any lawful outcomes.\<close>

lemma basic_connect_whole:
  assumes "lawful_run (basic_connect k e) (basic_connect k e (Outer Entry) (entering i) t) is"
    and "run (basic_connect k e) (basic_connect k e (Outer Entry) (entering i) t) is = (t', ef, Completed ec)"
  shows "connect_post k ec t'"
proof -
  obtain u ef1 p where b: "basic_connect k e (Outer Entry) (entering i) t = (u, ef1, p)"
    by (metis prod.exhaust)
  from connect_entry [OF b] obtain q where "p = Waiting (Outer Yield1) q"
    "connect_inv (Outer Yield1) q u" by auto
  with assms b show ?thesis using conn.run_post [of k "Outer Yield1" q u e ef1 "is" t' ef ec] by simp
qed

lemma tunnel_connect_whole:
  assumes "lawful_run (tunnel_connect e) (tunnel_connect e (T_coro Entry) (entering i) t) is"
    and "run (tunnel_connect e) (tunnel_connect e (T_coro Entry) (entering i) t) is = (t', ef, Completed ec)"
  shows "tconn_post ec t'"
proof -
  obtain u ef1 p where b: "tunnel_connect e (T_coro Entry) (entering i) t = (u, ef1, p)"
    by (metis prod.exhaust)
  then obtain q where "p = Waiting T_results q" "tconn_inv T_results q u"
    by (auto simp: Let_def member_defs)
  with assms b show ?thesis using tconn.run_post [of T_results q u e ef1 "is" t' ef ec] by simp
qed

lemma basic_close_whole:
  assumes "lawful_run (basic_close k gr) (basic_close k gr (Outer Entry) (entering i) t) is"
    and "run (basic_close k gr) (basic_close k gr (Outer Entry) (entering i) t) is = (t', ef, Completed ec)"
  shows "close_post gr ec t'"
proof -
  obtain u ef1 p where b: "basic_close k gr (Outer Entry) (entering i) t = (u, ef1, p)"
    by (metis prod.exhaust)
  show ?thesis
  proof (cases p)
    case (Waiting c q)
    with b close_entry have "close_inv c q u" by metis
    moreover from b Waiting clos.step_good have "close_good c" by (metis close_good.simps(1))
    ultimately show ?thesis using assms b Waiting clos.run_post [of c q u k gr ef1 "is" t' ef ec] by simp
  next
    case (Completed ec')
    with b close_entry(1) [OF b Completed] assms(2) show ?thesis
      by (auto simp: close_post_def member_defs)
  qed (use assms(2) b in simp_all)
qed

lemma tunnel_close_whole:
  assumes "lawful_run (tunnel_close gr) (tunnel_close gr (Outer Entry) (entering i) t) is"
    and "run (tunnel_close gr) (tunnel_close gr (Outer Entry) (entering i) t) is = (t', ef, Completed ec)"
  shows "tclose_post ec t'"
proof -
  obtain u ef1 p where b: "tunnel_close gr (Outer Entry) (entering i) t = (u, ef1, p)"
    by (metis prod.exhaust)
  show ?thesis
  proof (cases p)
    case (Waiting c q)
    with b have "close_inv c q u"
      by (cases gr) (auto simp: Let_def tunnel_close_done_def member_defs split: if_splits)
    moreover from b Waiting tclos.step_good have "close_good c" by (metis close_good.simps(1))
    ultimately show ?thesis using assms b Waiting tclos.run_post [of c q u gr ef1 "is" t' ef ec] by simp
  next
    case (Completed ec')
    with b assms(2) show ?thesis
      by (cases gr) (auto simp: Let_def tunnel_close_done_def tunnel_reset_def tclose_post_def
        member_defs split: if_splits)
  qed (use assms(2) b in simp_all)
qed

section \<open>The transport contract\<close>

text \<open>
  What the session template relies on. \<open>settled\<close> is what a close guarantees beyond the
  members the session reads; the next connect relies on it: the basic transport resets its
  stream and buffer when it connects again, the tunnel when it closes.
\<close>

locale async_transport =
  fixes connect :: "io \<Rightarrow> transport \<Rightarrow> op_point outcome"
    and close :: "GracefulShutdown \<Rightarrow> io \<Rightarrow> transport \<Rightarrow> op_point outcome"
    and process :: "request_head \<Rightarrow> io \<Rightarrow> transport \<Rightarrow> op_point outcome"
    and resume :: "op_point step"
    and settled :: "transport \<Rightarrow> bool"
    and tls :: bool
  assumes close_leaves:
      "lawful_run resume (close gr i t) is \<Longrightarrow> run resume (close gr i t) is = (t', ef, Completed ec)
       \<Longrightarrow> \<not> tr_running t' \<and> \<not> tr_timer t' \<and> (gr = Yes \<longrightarrow> \<not> tr_open t') \<and> settled t'"
    and connect_starts:
      "connect i t = (t', ef, p) \<Longrightarrow> tr_running t' \<and> tr_timer t' \<and> (\<exists>c q. p = Waiting c q)"
    and connect_fresh:
      "settled t \<Longrightarrow> \<not> tr_running t \<Longrightarrow> connect i t = (t', ef, p)
       \<Longrightarrow> tr_buffer t' = [] \<and> \<not> tr_open t'"
    and connect_leaves:
      "lawful_run resume (connect i t) is \<Longrightarrow> run resume (connect i t) is = (t', ef, Completed ec)
       \<Longrightarrow> tr_running t' \<and> (\<not> failed ec \<longrightarrow> tr_open t' \<and> (tls \<longrightarrow> tr_secured t'))"
    and process_refused:
      "\<not> tr_running t \<Longrightarrow> process rq i t = (t', ef, p)
       \<Longrightarrow> ef = [] \<and> p = Completed Operation_aborted"
begin

text \<open>
  What a second attempt of a request sees: after a graceful close, the connection is made
  anew, with nothing of the old one left in the buffer.
\<close>

lemma reconnect_is_fresh:
  assumes "lawful_run resume (close gr i t) is" "run resume (close gr i t) is = (t1, ef, Completed ec)"
    and "connect j t1 = (t2, ef2, p)"
  shows "tr_running t2 \<and> tr_buffer t2 = [] \<and> \<not> tr_open t2"
  using close_leaves [OF assms(1,2)] connect_fresh [OF _ _ assms(3)] connect_starts [OF assms(3)]
  by blast

lemma closed_refuses:
  assumes "lawful_run resume (close gr i t) is" "run resume (close gr i t) is = (t1, ef, Completed ec)"
    and "process rq j t1 = (t2, ef2, p)"
  shows "ef2 = [] \<and> p = Completed Operation_aborted"
  using close_leaves [OF assms(1,2)] process_refused [OF _ assms(3)] by blast

end

definition settled :: "endpoint \<Rightarrow> transport \<Rightarrow> bool" where
  "settled ep t \<longleftrightarrow> (case ep of Tunnel _ \<Rightarrow> tr_buffer t = [] \<and> \<not> tr_open t | _ \<Rightarrow> True)"

lemmas body_simps = basic_connect.simps basic_close.simps tunnel_connect.simps tunnel_close.simps
  transport_op.simps

lemma async_close_eq:
  "async_close ep gr i t =
     at_point (At_close gr)
       (case ep of Plain _ \<Rightarrow> basic_close Tcp gr (Outer Entry) (entering i) t
        | Secure _ \<Rightarrow> basic_close Ssl gr (Outer Entry) (entering i) t
        | Tunnel _ \<Rightarrow> tunnel_close gr (Outer Entry) (entering i) t)"
  by (simp only: async_close_def close_body_cases)

lemma async_connect_eq:
  "async_connect ep i t =
     (case ep of Plain e \<Rightarrow> at_point At_connect (basic_connect Tcp e (Outer Entry) (entering i) t)
      | Secure e \<Rightarrow> at_point At_connect (basic_connect Ssl e (Outer Entry) (entering i) t)
      | Tunnel e \<Rightarrow> at_point At_tunnel (tunnel_connect e (T_coro Entry) (entering i) t))"
  by (cases ep) (simp_all add: async_connect_def connect_point_def del: body_simps)

lemma async_process_one_eq:
  "async_process_one ep rq i t = at_point (At_process rq) (transport_op rq Entry (entering i) t)"
  by (cases ep) (simp_all add: async_process_one_def del: body_simps)

interpretation transport: async_transport "async_connect ep" "async_close ep" "async_process_one ep"
    "transport_body ep" "settled ep" "is_secure ep"
  for ep
proof unfold_locales
  fix gr i t "is" t' ef ec
  assume law: "lawful_run (transport_body ep) (async_close ep gr i t) is"
    and r: "run (transport_body ep) (async_close ep gr i t) is = (t', ef, Completed ec)"
  show "\<not> tr_running t' \<and> \<not> tr_timer t' \<and> (gr = Yes \<longrightarrow> \<not> tr_open t') \<and> settled ep t'"
  proof (cases ep)
    case (Plain e)
    from law r Plain basic_close_whole [of Tcp gr i t "is" t' ef ec] show ?thesis
      by (simp add: async_close_eq run_lifts lawful_run_lifts at_point_Completed settled_def close_post_def del: body_simps)
  next
    case (Secure e)
    from law r Secure basic_close_whole [of Ssl gr i t "is" t' ef ec] show ?thesis
      by (simp add: async_close_eq run_lifts lawful_run_lifts at_point_Completed settled_def close_post_def del: body_simps)
  next
    case (Tunnel e)
    from law r Tunnel tunnel_close_whole [of gr i t "is" t' ef ec] show ?thesis
      by (simp add: async_close_eq run_lifts lawful_run_lifts at_point_Completed settled_def tclose_post_def del: body_simps)
  qed
next
  fix i t t' ef p
  assume c: "async_connect ep i t = (t', ef, p)"
  from c show "tr_running t' \<and> tr_timer t' \<and> (\<exists>c q. p = Waiting c q)"
    by (cases ep) (auto simp: async_connect_eq Let_def member_defs)
  {
    assume "settled ep t" "\<not> tr_running t"
    with c show "tr_buffer t' = [] \<and> \<not> tr_open t'"
      by (cases ep) (auto simp: async_connect_eq Let_def member_defs settled_def)
  }
next
  fix i t "is" t' ef ec
  assume law: "lawful_run (transport_body ep) (async_connect ep i t) is"
    and r: "run (transport_body ep) (async_connect ep i t) is = (t', ef, Completed ec)"
  show "tr_running t' \<and> (\<not> failed ec \<longrightarrow> tr_open t' \<and> (is_secure ep \<longrightarrow> tr_secured t'))"
  proof (cases ep)
    case (Plain e)
    from law r Plain basic_connect_whole [of Tcp e i t "is" t' ef ec] show ?thesis
      by (simp add: async_connect_eq run_lifts lawful_run_lifts at_point_Completed connect_post_def is_secure_def del: body_simps)
  next
    case (Secure e)
    from law r Secure basic_connect_whole [of Ssl e i t "is" t' ef ec] show ?thesis
      by (simp add: async_connect_eq run_lifts lawful_run_lifts at_point_Completed connect_post_def is_secure_def del: body_simps)
  next
    case (Tunnel e)
    from law r Tunnel tunnel_connect_whole [of e i t "is" t' ef ec] show ?thesis
      by (simp add: async_connect_eq run_lifts lawful_run_lifts at_point_Completed tconn_post_def is_secure_def del: body_simps)
  qed
next
  fix rq i t t' ef p
  assume "\<not> tr_running t" "async_process_one ep rq i t = (t', ef, p)"
  then show "ef = [] \<and> p = Completed Operation_aborted"
    by (auto simp: async_process_one_eq)
qed

end
