(* ===== verification/Session.thy ===== *)
theory Session
  imports Session_Base Async_Transport
begin

text \<open>
  \<open>core/session.hpp\<close>: a session owns one transport and a queue of requests. Everything it
  does runs on its strand, one function at a time; the state below is the session object
  together with what is queued on that strand and what is under way in the I/O layer.
\<close>

section \<open>State\<close>

text \<open>\<open>task_state\<close>: the request and the handler of a task, the latter named by a number.\<close>

record task =
  ts_id :: nat
  ts_request :: request_head

text \<open>\<open>process_queue_op\<close>, the coroutine that carries one task to its end.\<close>

record process_queue_op =
  pq_task :: task
  pq_last_ec :: error_code
  pq_coro :: coro
  pq_first_round :: bool

text \<open>Functions posted to the strand.\<close>

datatype job =
    Process_task
  | Advance_task
  | Run_op process_queue_op   \<comment> \<open>the retry: the operation posted with an empty error code\<close>

text \<open>Who is resumed when an operation of the transport completes.\<close>

datatype waiter =
    For_task process_queue_op
  | For_start nat
  | For_stop nat

text \<open>
  \<open>se_active\<close> are the operations of the transport under way, each with its resume point and
  the call it waits for; \<open>se_done\<close> the completions of task handlers in the order they were
  posted; \<open>se_replies\<close> those of start and stop handlers; \<open>se_accepted\<close> the tasks ever
  queued and \<open>se_rejected\<close> the requests turned down; \<open>se_log\<close> what each task made the
  transport do; \<open>se_threw\<close> records that an exception has left a handler.
\<close>

record session = "(task, nat) session_base" +
  se_endpoint :: endpoint
  se_transport :: transport
  se_jobs :: "job list"
  se_active :: "(waiter \<times> op_point \<times> io_call) list"
  se_done :: "(nat \<times> error_code) list"
  se_replies :: "(nat \<times> error_code) list"
  se_accepted :: "nat list"
  se_rejected :: "nat list"
  se_log :: "(nat \<times> effect) list"
  se_threw :: bool

definition new_session :: "endpoint \<Rightarrow> session" where
  "new_session ep = \<lparr>
     sb_tasks = [], sb_running = True, sb_waits = [], sb_fired = [],
     se_endpoint = ep, se_transport = new_transport, se_jobs = [], se_active = [],
     se_done = [], se_replies = [], se_accepted = [], se_rejected = [], se_log = [],
     se_threw = False\<rparr>"

definition post_job :: "job \<Rightarrow> session \<Rightarrow> session" where
  "post_job j s = s\<lparr>se_jobs := se_jobs s @ [j]\<rparr>"

definition reply :: "nat \<Rightarrow> error_code \<Rightarrow> session \<Rightarrow> session" where
  "reply h ec s = s\<lparr>se_replies := se_replies s @ [(h, ec)]\<rparr>"

definition is_open :: "session \<Rightarrow> bool" where
  "is_open s = tr_open (se_transport s)"

text \<open>
  Starting or resuming an operation of the transport on behalf of \<open>who\<close>: it may complete in
  the same step, and then \<open>k\<close> is called with its error code.
\<close>

definition waiter_tag :: "waiter \<Rightarrow> effect list \<Rightarrow> (nat \<times> effect) list" where
  "waiter_tag who ef =
     (case who of For_task op \<Rightarrow> map (Pair (ts_id (pq_task op))) ef | _ \<Rightarrow> [])"

fun launch :: "waiter \<Rightarrow> op_point outcome \<Rightarrow> (error_code \<Rightarrow> session \<Rightarrow> session) \<Rightarrow> session \<Rightarrow> session" where
  "launch who (t, ef, p) k s =
     (let s' = s\<lparr>se_transport := t, se_log := se_log s @ waiter_tag who ef\<rparr> in
      case p of
        Waiting c q \<Rightarrow> s'\<lparr>se_active := se_active s' @ [(who, c, q)]\<rparr>
      | Completed ec \<Rightarrow> k ec s'
      | Threw ec \<Rightarrow> s'\<lparr>se_threw := True\<rparr>
      | Inert \<Rightarrow> s')"

text \<open>The calls of the transport's operations with the session's endpoint.\<close>

definition async_transport_connect :: "io \<Rightarrow> session \<Rightarrow> op_point outcome" where [simp]:
  "async_transport_connect i s = async_connect (se_endpoint s) i (se_transport s)"

definition async_transport_close :: "GracefulShutdown \<Rightarrow> io \<Rightarrow> session \<Rightarrow> op_point outcome" where [simp]:
  "async_transport_close gr i s = async_close (se_endpoint s) gr i (se_transport s)"

section \<open>Processing a task\<close>

text \<open>\<open>process_queue_op::complete\<close>: post the handler, then the step to the next task.\<close>

definition pq_complete :: "process_queue_op \<Rightarrow> error_code \<Rightarrow> session \<Rightarrow> session" where
  "pq_complete op ec s =
     post_job Advance_task (s\<lparr>se_done := se_done s @ [(ts_id (pq_task op), ec)]\<rparr>)"

text \<open>The check at the top of \<open>operator()\<close>, made at every entry.\<close>

definition pq_enter ::
  "(error_code \<Rightarrow> process_queue_op \<Rightarrow> session \<Rightarrow> session)
   \<Rightarrow> error_code \<Rightarrow> process_queue_op \<Rightarrow> session \<Rightarrow> session" where
  "pq_enter body ec op s =
     (if \<not> running s \<or> ec = Operation_aborted then pq_complete op Operation_aborted s
      else body ec op s)"

text \<open>The body, from its last resume point backwards: after the close,\<close>

definition pq_closed :: "error_code \<Rightarrow> process_queue_op \<Rightarrow> session \<Rightarrow> session" where
  "pq_closed ec op s =
     (let ec = pq_last_ec op in
      if pq_first_round op
      then post_job (Run_op (op\<lparr>pq_coro := Entry, pq_first_round := False\<rparr>)) s
      else pq_complete op ec (set_running False s))"

text \<open>after the exchange,\<close>

definition pq_processed :: "io \<Rightarrow> error_code \<Rightarrow> process_queue_op \<Rightarrow> session \<Rightarrow> session" where
  "pq_processed i ec op s =
     (if failed ec then
        let op' = op\<lparr>pq_last_ec := ec, pq_coro := Yield3\<rparr> in
        launch (For_task op') (async_close (se_endpoint s) Yes i (se_transport s))
          (\<lambda>ec. pq_enter pq_closed ec op') s
      else pq_complete op ec s)"

text \<open>the exchange itself,\<close>

definition pq_process :: "io \<Rightarrow> process_queue_op \<Rightarrow> session \<Rightarrow> session" where
  "pq_process i op s =
     (let op' = op\<lparr>pq_coro := Yield2\<rparr> in
      launch (For_task op')
        (async_process_one (se_endpoint s) (ts_request (pq_task op)) i (se_transport s))
        (\<lambda>ec. pq_enter (pq_processed i) ec op') s)"

text \<open>after connecting,\<close>

definition pq_connected :: "io \<Rightarrow> error_code \<Rightarrow> process_queue_op \<Rightarrow> session \<Rightarrow> session" where
  "pq_connected i ec op s =
     (if failed ec then pq_complete op ec (set_running False s) else pq_process i op s)"

text \<open>and from the start.\<close>

definition pq_start :: "io \<Rightarrow> process_queue_op \<Rightarrow> session \<Rightarrow> session" where
  "pq_start i op s =
     (if \<not> is_open s \<and> running s then
        let op' = op\<lparr>pq_coro := Yield1\<rparr> in
        launch (For_task op') (async_transport_connect i s)
          (\<lambda>ec. pq_enter (pq_connected i) ec op') s
      else pq_process i op s)"

definition pq_body :: "io \<Rightarrow> error_code \<Rightarrow> process_queue_op \<Rightarrow> session \<Rightarrow> session" where
  "pq_body i ec op s =
     (case pq_coro op of
        Entry \<Rightarrow> pq_start i op s
      | Yield1 \<Rightarrow> pq_connected i ec op s
      | Yield2 \<Rightarrow> pq_processed i ec op s
      | Yield3 \<Rightarrow> pq_closed ec op s)"

definition pq_call :: "io \<Rightarrow> error_code \<Rightarrow> process_queue_op \<Rightarrow> session \<Rightarrow> session" where
  "pq_call i = pq_enter (pq_body i)"

text \<open>\<open>session_task::run\<close> and \<open>session_task::cancel\<close>.\<close>

definition task_run :: "io \<Rightarrow> task \<Rightarrow> session \<Rightarrow> session" where
  "task_run i k s =
     pq_call i Success \<lparr>pq_task = k, pq_last_ec = Success, pq_coro = Entry, pq_first_round = True\<rparr> s"

definition task_cancel :: "task \<Rightarrow> session \<Rightarrow> session" where
  "task_cancel k s = s\<lparr>se_done := se_done s @ [(ts_id k, Operation_aborted)]\<rparr>"

section \<open>The operations of the session\<close>

text \<open>\<open>push_op\<close>\<close>

definition push_op :: "nat \<Rightarrow> request_head \<Rightarrow> session \<Rightarrow> session" where
  "push_op h rq s =
     (if \<not> running s then s\<lparr>se_rejected := se_rejected s @ [h]\<rparr>
      else
        let s' = push_task \<lparr>ts_id = h, ts_request = rq\<rparr> (s\<lparr>se_accepted := se_accepted s @ [h]\<rparr>) in
        if pending_tasks s' = 1 then post_job Process_task s' else s')"

text \<open>\<open>start_op\<close>\<close>

definition start_op :: "io \<Rightarrow> nat \<Rightarrow> session \<Rightarrow> session" where
  "start_op i h s =
     (let s' = set_running True s in
      launch (For_start h) (async_transport_connect i s') (reply h) s')"

text \<open>\<open>stop_op\<close>: its body after the close, and after the wait for the tasks.\<close>

definition stop_closed :: "nat \<Rightarrow> error_code \<Rightarrow> session \<Rightarrow> session" where
  "stop_closed h ec s =
     (if has_tasks s then async_wait_for_tasks_cancellation h s else reply h ec s)"

definition stop_waited :: "nat \<Rightarrow> error_code \<Rightarrow> session \<Rightarrow> session" where
  "stop_waited h ec s =
     reply h (if ec = Operation_aborted then Success
              else if \<not> failed ec then Timed_out else ec) s"

definition stop_op :: "io \<Rightarrow> GracefulShutdown \<Rightarrow> nat \<Rightarrow> session \<Rightarrow> session" where
  "stop_op i gr h s =
     (let s' = set_running False s in
      launch (For_stop h) (async_transport_close gr i s') (stop_closed h) s')"

section \<open>The strand\<close>

fun run_job :: "io \<Rightarrow> job \<Rightarrow> session \<Rightarrow> session result" where
  "run_job i Process_task s = Inr (process_task (task_run i) s)"
| "run_job i Advance_task s = advance_task (task_run i) task_cancel s"
| "run_job i (Run_op op) s = Inr (pq_call i Success op s)"

definition next_job :: "io \<Rightarrow> session \<Rightarrow> session result option" where
  "next_job i s =
     (case se_jobs s of [] \<Rightarrow> None | j # js \<Rightarrow> Some (run_job i j (s\<lparr>se_jobs := js\<rparr>)))"

fun resume_waiter :: "io \<Rightarrow> waiter \<Rightarrow> error_code \<Rightarrow> session \<Rightarrow> session" where
  "resume_waiter i (For_task op) ec s = pq_call i ec op s"
| "resume_waiter i (For_start h) ec s = reply h ec s"
| "resume_waiter i (For_stop h) ec s = stop_closed h ec s"

text \<open>The call that the \<open>n\<close>th operation under way waits for completes with outcome \<open>i\<close>.\<close>

definition complete_io :: "nat \<Rightarrow> io \<Rightarrow> session \<Rightarrow> session" where
  "complete_io n i s =
     (case se_active s ! n of (who, c, q) \<Rightarrow>
        launch who (transport_body (se_endpoint s) c i (io_apply q i (se_transport s)))
          (resume_waiter i who)
          (s\<lparr>se_active := take n (se_active s) @ drop (Suc n) (se_active s)\<rparr>))"

definition next_wait :: "session \<Rightarrow> session option" where
  "next_wait s =
     (case sb_fired s of [] \<Rightarrow> None
      | (h, ec) # ws \<Rightarrow> Some (stop_waited h ec (s\<lparr>sb_fired := ws\<rparr>)))"

text \<open>What the session does by itself, and what its user makes it do.\<close>

inductive internal :: "session \<Rightarrow> session \<Rightarrow> bool" where
  job: "next_job i s = Some (Inr s') \<Longrightarrow> internal s s'"
| completion: "n < length (se_active s) \<Longrightarrow> io_lawful (snd (snd (se_active s ! n))) i
    \<Longrightarrow> internal s (complete_io n i s)"
| expiry: "sb_waits s \<noteq> [] \<Longrightarrow> internal s (timer_expires s)"
| waited: "next_wait s = Some s' \<Longrightarrow> internal s s'"

inductive user :: "session \<Rightarrow> session \<Rightarrow> bool" where
  push: "h \<notin> set (se_accepted s) \<Longrightarrow> h \<notin> set (se_rejected s) \<Longrightarrow> user s (push_op h rq s)"
| start: "user s (start_op i h s)"
| stop: "user s (stop_op i gr h s)"

inductive reachable :: "endpoint \<Rightarrow> session \<Rightarrow> bool" for ep where
  created: "reachable ep (new_session ep)"
| internal_step: "reachable ep s \<Longrightarrow> internal s s' \<Longrightarrow> reachable ep s'"
| user_step: "reachable ep s \<Longrightarrow> user s s' \<Longrightarrow> reachable ep s'"

text \<open>The states of a session on which nobody calls \<open>async_start\<close>, as the client never does.\<close>

inductive unstarted :: "endpoint \<Rightarrow> session \<Rightarrow> bool" for ep where
  unstarted_created: "unstarted ep (new_session ep)"
| unstarted_internal_step: "unstarted ep s \<Longrightarrow> internal s s' \<Longrightarrow> unstarted ep s'"
| unstarted_push: "unstarted ep s \<Longrightarrow> h \<notin> set (se_accepted s) \<Longrightarrow> h \<notin> set (se_rejected s)
    \<Longrightarrow> unstarted ep (push_op h rq s)"
| unstarted_stop: "unstarted ep s \<Longrightarrow> unstarted ep (stop_op i gr h s)"

lemma unstarted_reachable: "unstarted ep s \<Longrightarrow> reachable ep s"
  by (induction rule: unstarted.induct) (auto intro: reachable.intros user.intros)

lemma unstarted_run: "unstarted ep s \<Longrightarrow> internal\<^sup>*\<^sup>* s s' \<Longrightarrow> unstarted ep s'"
  by (rotate_tac, induction rule: rtranclp_induct) (auto intro: unstarted_internal_step)

interpretation session_task: cancellable_task task_cancel
  by unfold_locales (simp_all add: task_cancel_def)

end
