(* ===== verification/Session_Order.thy ===== *)
theory Session_Order
  imports Session
begin

text \<open>
  The order in which a session serves its tasks. A queue that is not empty has exactly one
  thing that drives it: a posted step, or the operation of its front task. The invariant
  \<open>session_inv\<close> says so, and that the completions posted so far followed by the tasks that
  still wait are the accepted requests, in order. It holds until an exception leaves a handler.
\<close>

datatype driver = D_process | D_advance | D_op process_queue_op

fun job_driver :: "job \<Rightarrow> driver" where
  "job_driver Process_task = D_process"
| "job_driver Advance_task = D_advance"
| "job_driver (Run_op op) = D_op op"

fun waiter_drivers :: "waiter \<Rightarrow> driver list" where
  "waiter_drivers (For_task op) = [D_op op]"
| "waiter_drivers _ = []"

fun active_drivers :: "(waiter \<times> op_point \<times> io_call) list \<Rightarrow> driver list" where
  "active_drivers [] = []"
| "active_drivers ((w, c, q) # as) = waiter_drivers w @ active_drivers as"

lemma active_drivers_append [simp]: "active_drivers (xs @ ys) = active_drivers xs @ active_drivers ys"
  by (induction xs rule: active_drivers.induct) auto

definition drivers :: "session \<Rightarrow> driver list" where
  "drivers s = map job_driver (se_jobs s) @ active_drivers (se_active s)"

fun consistent :: "task list \<Rightarrow> driver list \<Rightarrow> nat list \<Rightarrow> nat list \<Rightarrow> bool" where
  "consistent [] ds fin acc \<longleftrightarrow> ds = [] \<and> fin = acc"
| "consistent (k # ks) [D_process] fin acc \<longleftrightarrow> fin @ map ts_id (k # ks) = acc"
| "consistent (k # ks) [D_op op] fin acc \<longleftrightarrow> pq_task op = k \<and> fin @ map ts_id (k # ks) = acc"
| "consistent (k # ks) [D_advance] fin acc \<longleftrightarrow> fin @ map ts_id ks = acc"
| "consistent _ _ _ _ \<longleftrightarrow> False"

text \<open>Every operation under way is at a resume point of an operation of this transport.\<close>

definition points_good :: "session \<Rightarrow> bool" where
  "points_good s \<longleftrightarrow> (\<forall>(w, c, q) \<in> set (se_active s). op_good (se_endpoint s) c)"

definition session_inv :: "session \<Rightarrow> bool" where
  "session_inv s \<longleftrightarrow> points_good s
     \<and> (se_threw s \<or> consistent (sb_tasks s) (drivers s) (map fst (se_done s)) (se_accepted s))"

text \<open>The situation inside a step of an operation: nothing else drives the queue.\<close>

definition in_hand :: "process_queue_op \<Rightarrow> session \<Rightarrow> bool" where
  "in_hand op s \<longleftrightarrow> points_good s
     \<and> (se_threw s \<or> drivers s = [] \<and> (\<exists>ks. sb_tasks s = pq_task op # ks
          \<and> map fst (se_done s) @ map ts_id (sb_tasks s) = se_accepted s))"

text \<open>What an operation of the transport can answer.\<close>

definition outcome_good :: "endpoint \<Rightarrow> op_point outcome \<Rightarrow> bool" where
  "outcome_good ep r \<longleftrightarrow>
     (case snd (snd r) of Waiting c q \<Rightarrow> op_good ep c | Inert \<Rightarrow> False | _ \<Rightarrow> True)"

lemma body_outcome_good: "op_good ep c \<Longrightarrow> outcome_good ep (transport_body ep c i t)"
  using top.step_live top.step_good
  by (cases "transport_body ep c i t"; cases "snd (snd (transport_body ep c i t))")
    (fastforce simp: outcome_good_def)+

lemma entry_points_good:
  "op_good ep (connect_point ep)" "op_good ep (At_close gr (Outer Entry))" "op_good ep (At_process rq Entry)"
  by (cases ep; simp add: connect_point_def process_good_def)+

lemma starts_good [simp]:
  "outcome_good ep (async_connect ep i t)" "outcome_good ep (async_close ep gr i t)"
  "outcome_good ep (async_process_one ep rq i t)"
  unfolding async_connect_def async_close_def async_process_one_def
  by (rule body_outcome_good [OF entry_points_good(1)] body_outcome_good [OF entry_points_good(2)]
      body_outcome_good [OF entry_points_good(3)])+

lemma consistent_D_op [simp]:
  "consistent ks (D_op op # ds) fin acc \<longleftrightarrow>
     ds = [] \<and> (\<exists>ks'. ks = pq_task op # ks' \<and> fin @ map ts_id ks = acc)"
  by (cases ks; cases ds) auto

lemma consistent_D_advance [simp]:
  "consistent ks (D_advance # ds) fin acc \<longleftrightarrow> ds = [] \<and> ks \<noteq> [] \<and> fin @ map ts_id (tl ks) = acc"
  by (cases ks; cases ds) auto

lemma consistent_D_process [simp]:
  "consistent ks (D_process # ds) fin acc \<longleftrightarrow> ds = [] \<and> ks \<noteq> [] \<and> fin @ map ts_id ks = acc"
  by (cases ks; cases ds) auto

lemma consistent_Nil_drivers [simp]:
  "consistent ks [] fin acc \<longleftrightarrow> ks = [] \<and> fin = acc"
  by (cases ks) auto

text \<open>At most one driver.\<close>

lemma consistent_single: "consistent ks (d # ds) fin acc \<longleftrightarrow> ds = [] \<and> consistent ks [d] fin acc"
  by (cases d) auto

lemma consistent_append [simp]:
  "consistent ks (xs @ d # ys) fin acc \<longleftrightarrow> xs = [] \<and> ys = [] \<and> consistent ks [d] fin acc"
proof (cases xs)
  case Nil
  then show ?thesis by (simp add: consistent_single [of ks d ys])
next
  case (Cons a as)
  then show ?thesis by (simp add: consistent_single [of ks a "as @ d # ys"])
qed

lemma drivers_updates [simp]:
  "drivers (s\<lparr>se_done := x\<rparr>) = drivers s"
  "drivers (s\<lparr>sb_running := b\<rparr>) = drivers s"
  "drivers (s\<lparr>se_transport := t\<rparr>) = drivers s"
  "drivers (s\<lparr>se_log := l\<rparr>) = drivers s"
  "drivers (s\<lparr>sb_tasks := ks\<rparr>) = drivers s"
  "drivers (s\<lparr>se_replies := r\<rparr>) = drivers s"
  "drivers (s\<lparr>sb_waits := ws\<rparr>) = drivers s"
  "drivers (s\<lparr>sb_fired := ws'\<rparr>) = drivers s"
  "drivers (s\<lparr>se_accepted := acc\<rparr>) = drivers s"
  "drivers (s\<lparr>se_rejected := rej\<rparr>) = drivers s"
  by (simp_all add: drivers_def)

lemma drivers_more [simp]:
  "drivers (s\<lparr>se_jobs := js\<rparr>) = map job_driver js @ active_drivers (se_active s)"
  "drivers (s\<lparr>se_active := as\<rparr>) = map job_driver (se_jobs s) @ active_drivers as"
  by (simp_all add: drivers_def)

lemma drivers_Nil_iff: "drivers s = [] \<longleftrightarrow> se_jobs s = [] \<and> active_drivers (se_active s) = []"
  by (auto simp: drivers_def)

section \<open>The steps of an operation\<close>

lemmas inv_defs = session_inv_def in_hand_def points_good_def drivers_Nil_iff

lemma pq_complete_inv: "in_hand op s \<Longrightarrow> session_inv (pq_complete op ec s)"
  by (auto simp: inv_defs pq_complete_def post_job_def)

lemma in_hand_set_running [simp]: "in_hand op (set_running b s) = in_hand op s"
  by (simp add: inv_defs set_running_def)

lemma in_hand_cong: "pq_task op' = pq_task op \<Longrightarrow> in_hand op' s = in_hand op s"
  by (simp add: in_hand_def)

lemma pq_enter_inv:
  assumes "in_hand op s" "\<And>ec s. in_hand op s \<Longrightarrow> session_inv (body ec op s)"
  shows "session_inv (pq_enter body ec op s)"
  using assms pq_complete_inv by (simp add: pq_enter_def)

lemma launch_task_inv:
  assumes hand: "in_hand op s" and r: "outcome_good (se_endpoint s) r"
    and k: "\<And>ec s. in_hand op s \<Longrightarrow> session_inv (k ec s)"
  shows "session_inv (launch (For_task op) r k s)"
proof (cases r)
  case (fields t ef p)
  let ?s = "s\<lparr>se_transport := t, se_log := se_log s @ waiter_tag (For_task op) ef\<rparr>"
  from hand have h: "in_hand op ?s" by (auto simp: inv_defs)
  show ?thesis
  proof (cases p)
    case (Waiting c q)
    from h r Waiting fields show ?thesis
      by (auto simp: inv_defs outcome_good_def)
  next
    case (Completed ec)
    with h k fields show ?thesis by simp
  next
    case Threw
    with h fields show ?thesis by (simp add: inv_defs)
  next
    case Inert
    with r fields show ?thesis by (simp add: outcome_good_def)
  qed
qed

lemma pq_closed_inv: "in_hand op s \<Longrightarrow> session_inv (pq_closed ec op s)"
  by (auto simp: pq_closed_def pq_complete_inv) (auto simp: inv_defs post_job_def)

lemma pq_processed_inv:
  assumes "in_hand op s"
  shows "session_inv (pq_processed i ec op s)"
proof -
  let ?op = "op\<lparr>pq_last_ec := ec, pq_coro := Yield3\<rparr>"
  have cong: "in_hand ?op s = in_hand op s" for s by (rule in_hand_cong) simp
  have "session_inv (launch (For_task ?op) (async_close (se_endpoint s) Yes i (se_transport s))
      (\<lambda>ec. pq_enter pq_closed ec ?op) s)"
    using assms by (intro launch_task_inv pq_enter_inv pq_closed_inv) (simp_all add: cong)
  with assms show ?thesis by (simp add: pq_processed_def pq_complete_inv Let_def)
qed

lemma pq_process_inv:
  assumes "in_hand op s"
  shows "session_inv (pq_process i op s)"
proof -
  let ?op = "op\<lparr>pq_coro := Yield2\<rparr>"
  have cong: "in_hand ?op s = in_hand op s" for s by (rule in_hand_cong) simp
  show ?thesis using assms unfolding pq_process_def Let_def
    by (intro launch_task_inv pq_enter_inv pq_processed_inv) (simp_all add: cong)
qed

lemma pq_connected_inv: "in_hand op s \<Longrightarrow> session_inv (pq_connected i ec op s)"
  by (simp add: pq_connected_def pq_complete_inv pq_process_inv)

lemma pq_start_inv:
  assumes "in_hand op s"
  shows "session_inv (pq_start i op s)"
proof -
  let ?op = "op\<lparr>pq_coro := Yield1\<rparr>"
  have cong: "in_hand ?op s = in_hand op s" for s by (rule in_hand_cong) simp
  have "session_inv (launch (For_task ?op) (async_connect (se_endpoint s) i (se_transport s))
      (\<lambda>ec. pq_enter (pq_connected i) ec ?op) s)"
    using assms by (intro launch_task_inv pq_enter_inv pq_connected_inv) (simp_all add: cong)
  with assms show ?thesis by (simp add: pq_start_def pq_process_inv Let_def)
qed

lemma pq_body_inv: "in_hand op s \<Longrightarrow> session_inv (pq_body i ec op s)"
  by (simp add: pq_body_def pq_start_inv pq_connected_inv pq_processed_inv pq_closed_inv split: coro.split)

lemma pq_call_inv: "in_hand op s \<Longrightarrow> session_inv (pq_call i ec op s)"
  unfolding pq_call_def by (rule pq_enter_inv) (simp_all add: pq_body_inv)

lemma task_run_inv:
  assumes "sb_tasks s = k # ks" "points_good s"
    "se_threw s \<or> drivers s = [] \<and> map fst (se_done s) @ map ts_id (sb_tasks s) = se_accepted s"
  shows "session_inv (task_run i k s)"
  unfolding task_run_def using assms by (intro pq_call_inv) (auto simp: in_hand_def)

section \<open>The invariant\<close>

lemma launch_other_inv:
  assumes inv: "session_inv s" and r: "outcome_good (se_endpoint s) r" and w: "waiter_drivers who = []"
    and k: "\<And>ec s. session_inv s \<Longrightarrow> session_inv (k ec s)"
  shows "session_inv (launch who r k s)"
proof (cases r)
  case (fields t ef p)
  let ?s = "s\<lparr>se_transport := t, se_log := se_log s @ waiter_tag who ef\<rparr>"
  from inv have h: "session_inv ?s" by (simp add: inv_defs)
  show ?thesis
  proof (cases p)
    case (Waiting c q)
    from h r w Waiting fields show ?thesis by (auto simp: inv_defs outcome_good_def drivers_def)
  next
    case (Completed ec)
    with h k fields show ?thesis by simp
  next
    case Threw
    with h fields show ?thesis by (simp add: inv_defs)
  next
    case Inert
    with r fields show ?thesis by (simp add: outcome_good_def)
  qed
qed

lemma reply_inv: "session_inv s \<Longrightarrow> session_inv (reply h ec s)"
  by (simp add: inv_defs reply_def)

lemma set_running_inv [simp]: "session_inv (set_running b s) = session_inv s"
  by (simp add: inv_defs set_running_def)

lemma stop_closed_inv: "session_inv s \<Longrightarrow> session_inv (stop_closed h ec s)"
  by (simp add: stop_closed_def reply_inv)
    (simp add: inv_defs async_wait_for_tasks_cancellation_def timer_cancel_def Let_def)

lemma start_op_inv: "session_inv s \<Longrightarrow> session_inv (start_op i h s)"
  unfolding start_op_def async_transport_connect_def Let_def by (intro launch_other_inv reply_inv) simp_all

lemma stop_op_inv: "session_inv s \<Longrightarrow> session_inv (stop_op i gr h s)"
  unfolding stop_op_def async_transport_close_def Let_def by (intro launch_other_inv stop_closed_inv) simp_all

lemma push_op_inv:
  assumes "session_inv s"
  shows "session_inv (push_op h rq s)"
proof (cases "sb_tasks s")
  case Nil
  with assms show ?thesis
    by (simp add: push_op_def inv_defs push_task_def pending_tasks_def post_job_def drivers_def Let_def)
next
  case (Cons k ks)
  have "consistent (k # ks @ [\<lparr>ts_id = h, ts_request = rq\<rparr>]) ds fin (acc @ [h])"
    if "consistent (k # ks) ds fin acc" for ds fin acc
    using that by (cases "(k # ks, ds, fin, acc)" rule: consistent.cases) auto
  with assms Cons show ?thesis
    by (auto simp: push_op_def inv_defs push_task_def pending_tasks_def post_job_def drivers_def Let_def)
qed

lemma fold_task_cancel:
  "fold task_cancel ks s = s\<lparr>se_done := se_done s @ map (\<lambda>k. (ts_id k, Operation_aborted)) ks\<rparr>"
  by (induction ks arbitrary: s) (simp_all add: task_cancel_def)

lemma process_task_inv:
  assumes "session_inv s" "se_jobs s = Process_task # js"
  shows "session_inv (process_task (task_run i) (s\<lparr>se_jobs := js\<rparr>))"
proof (cases "sb_tasks s")
  case Nil
  with assms show ?thesis by (auto simp: process_task_def has_tasks_def pending_tasks_def inv_defs drivers_def)
next
  case (Cons k ks)
  with assms have "session_inv (task_run i k (s\<lparr>se_jobs := js\<rparr>))"
    by (intro task_run_inv) (auto simp: inv_defs drivers_def)
  with Cons show ?thesis by (simp add: process_task_def has_tasks_def pending_tasks_def)
qed

lemma advance_task_inv:
  assumes inv: "session_inv s" and js: "se_jobs s = Advance_task # js"
    and r: "advance_task (task_run i) task_cancel (s\<lparr>se_jobs := js\<rparr>) = Inr s'"
  shows "session_inv s'"
proof -
  from r obtain k ks where ks: "sb_tasks s = k # ks"
    by (cases "sb_tasks s") (auto simp: advance_task_def pop_task_def has_tasks_def pending_tasks_def)
  let ?s = "s\<lparr>se_jobs := js, sb_tasks := ks\<rparr>"
  have s: "points_good ?s"
    "se_threw ?s \<or> drivers ?s = [] \<and> map fst (se_done ?s) @ map ts_id (sb_tasks ?s) = se_accepted ?s"
    using inv js ks by (auto simp: inv_defs drivers_def)
  show ?thesis
  proof (cases "running s")
    case True
    have "s' = process_task (task_run i) ?s"
      using r ks True by (simp add: session_task.advance_task_eq running_def)
    moreover have "session_inv (process_task (task_run i) ?s)"
    proof (cases ks)
      case Nil
      with s show ?thesis by (auto simp: process_task_def has_tasks_def pending_tasks_def inv_defs)
    next
      case (Cons k' ks')
      with s task_run_inv [of ?s k' ks'] show ?thesis
        by (auto simp: process_task_def has_tasks_def pending_tasks_def)
    qed
    ultimately show ?thesis by simp
  next
    case False
    with r ks have "s' = timer_cancel ((fold task_cancel ks (s\<lparr>se_jobs := js\<rparr>))\<lparr>sb_tasks := []\<rparr>)"
      by (simp add: session_task.advance_task_eq running_def)
    with s show ?thesis by (auto simp: timer_cancel_def fold_task_cancel inv_defs drivers_def comp_def)
  qed
qed

lemma run_op_inv:
  assumes "session_inv s" "se_jobs s = Run_op op # js"
  shows "session_inv (pq_call i ec op (s\<lparr>se_jobs := js\<rparr>))"
  using assms by (intro pq_call_inv) (auto simp: inv_defs drivers_def)

lemma next_job_inv:
  assumes "session_inv s" "next_job i s = Some (Inr s')"
  shows "session_inv s'"
proof -
  from assms(2) obtain j js where "se_jobs s = j # js" "run_job i j (s\<lparr>se_jobs := js\<rparr>) = Inr s'"
    by (auto simp: next_job_def split: list.splits)
  with assms(1) show ?thesis
    by (cases j) (auto intro: process_task_inv advance_task_inv run_op_inv)
qed

lemma active_drivers_remove:
  "n < length as \<Longrightarrow> as ! n = (w, c, q) \<Longrightarrow>
   active_drivers (take n as @ drop (Suc n) as) = active_drivers (take n as) @ active_drivers (drop (Suc n) as)
   \<and> active_drivers as = active_drivers (take n as) @ waiter_drivers w @ active_drivers (drop (Suc n) as)"
  by (metis active_drivers.simps(2) active_drivers_append id_take_nth_drop)

text \<open>When the operation of a task is resumed, nothing else drives the queue.\<close>

lemma resumed_in_hand:
  assumes inv: "session_inv s" and n: "n < length (se_active s)" and nth: "se_active s ! n = (For_task op, c, q)"
  shows "in_hand op (s\<lparr>se_active := take n (se_active s) @ drop (Suc n) (se_active s)\<rparr>)"
proof -
  let ?l = "map job_driver (se_jobs s) @ active_drivers (take n (se_active s))"
  let ?k = "active_drivers (drop (Suc n) (se_active s))"
  note rm = active_drivers_remove [OF n nth]
  have "drivers s = ?l @ D_op op # ?k" using rm by (simp add: drivers_def)
  with inv have "se_threw s \<or> ?l = [] \<and> ?k = []
      \<and> consistent (sb_tasks s) [D_op op] (map fst (se_done s)) (se_accepted s)"
    by (simp only: session_inv_def consistent_append)
  moreover have "points_good (s\<lparr>se_active := take n (se_active s) @ drop (Suc n) (se_active s)\<rparr>)"
    using inv by (auto simp: inv_defs dest: in_set_takeD in_set_dropD)
  ultimately show ?thesis using rm by (auto simp: in_hand_def drivers_def)
qed

lemma complete_io_inv:
  assumes inv: "session_inv s" and n: "n < length (se_active s)"
  shows "session_inv (complete_io n i s)"
proof -
  obtain w c q where nth: "se_active s ! n = (w, c, q)" by (metis prod.exhaust)
  let ?s = "s\<lparr>se_active := take n (se_active s) @ drop (Suc n) (se_active s)\<rparr>"
  let ?r = "transport_body (se_endpoint s) c i (io_apply q i (se_transport s))"
  have "(w, c, q) \<in> set (se_active s)" using n nth by (metis nth_mem)
  with inv have good: "outcome_good (se_endpoint ?s) ?r"
    by (auto simp: inv_defs intro!: body_outcome_good)
  have pg: "points_good ?s" using inv by (auto simp: inv_defs dest: in_set_takeD in_set_dropD)
  note rm = active_drivers_remove [OF n nth]
  have "session_inv (launch w ?r (resume_waiter i w) ?s)"
  proof (cases w)
    case (For_task op)
    have "in_hand op ?s" by (rule resumed_in_hand [OF inv n nth [unfolded For_task]])
    then show ?thesis unfolding For_task
      by (intro launch_task_inv [OF _ good]) (simp_all add: pq_call_inv)
  next
    case (For_start h)
    have "session_inv ?s" using inv pg rm For_start by (auto simp: session_inv_def drivers_def)
    then show ?thesis unfolding For_start
      by (intro launch_other_inv [OF _ good]) (simp_all add: reply_inv)
  next
    case (For_stop h)
    have "session_inv ?s" using inv pg rm For_stop by (auto simp: session_inv_def drivers_def)
    then show ?thesis unfolding For_stop
      by (intro launch_other_inv [OF _ good]) (simp_all add: stop_closed_inv)
  qed
  then show ?thesis by (simp add: complete_io_def nth)
qed

lemma internal_inv: "internal s s' \<Longrightarrow> session_inv s \<Longrightarrow> session_inv s'"
proof (induction rule: internal.induct)
  case (expiry s)
  then show ?case by (simp add: inv_defs timer_expires_def)
next
  case (waited s s')
  then show ?case
    by (auto simp: next_wait_def stop_waited_def inv_defs reply_def drivers_def split: list.splits)
qed (auto intro: next_job_inv complete_io_inv)

lemma user_inv: "user s s' \<Longrightarrow> session_inv s \<Longrightarrow> session_inv s'"
  by (induction rule: user.induct) (auto intro: push_op_inv start_op_inv stop_op_inv)

lemma new_session_inv: "session_inv (new_session ep)"
  by (simp add: inv_defs new_session_def drivers_def)

lemma reachable_inv: "reachable ep s \<Longrightarrow> session_inv s"
  by (induction rule: reachable.induct) (auto intro: new_session_inv internal_inv user_inv)

end
