(* ===== verification/Session_History.thy ===== *)
theory Session_History
  imports Session_Order
begin

text \<open>
  What a session did for each request. \<open>sends\<close> counts how often a request was written to the
  connection, \<open>responded\<close> says that a response to it was stored. The invariant \<open>history\<close>:
  a request is sent once per round of its operation, and an answer without an error comes
  with a stored response.
\<close>

section \<open>Sends and responses\<close>

fun is_send :: "effect \<Rightarrow> bool" where
  "is_send (Issue (Async_write Next_layer rq)) = True"
| "is_send _ = False"

fun is_response :: "effect \<Rightarrow> bool" where
  "is_response (Response_assigned Next_layer st) = True"
| "is_response _ = False"

definition sends :: "nat \<Rightarrow> (nat \<times> effect) list \<Rightarrow> nat" where
  "sends h l = length (filter (\<lambda>(j, e). j = h \<and> is_send e) l)"

definition responded :: "nat \<Rightarrow> (nat \<times> effect) list \<Rightarrow> bool" where
  "responded h l \<longleftrightarrow> (\<exists>e. (h, e) \<in> set l \<and> is_response e)"

lemma sends_append [simp]: "sends h (l @ m) = sends h l + sends h m"
  by (simp add: sends_def)

lemma responded_append [simp]: "responded h (l @ m) \<longleftrightarrow> responded h l \<or> responded h m"
  by (auto simp: responded_def)

definition send_count :: "effect list \<Rightarrow> nat" where
  "send_count ef = length (filter is_send ef)"

lemma send_count_simps [simp]:
  "send_count [] = 0" "send_count (e # ef) = (if is_send e then 1 else 0) + send_count ef"
  "send_count (ef @ ef') = send_count ef + send_count ef'"
  by (simp_all add: send_count_def)

lemma sends_tag: "sends h (map (Pair j) ef) = (if j = h then send_count ef else 0)"
  by (induction ef) (auto simp: sends_def send_count_def)

lemma sends_waiter_tag [simp]:
  "sends h (waiter_tag w ef) = (case w of For_task op \<Rightarrow> if ts_id (pq_task op) = h then send_count ef else 0 | _ \<Rightarrow> 0)"
  by (cases w) (simp_all add: waiter_tag_def sends_tag, simp_all add: sends_def)

lemma responded_waiter_tag:
  "e \<in> set ef \<Longrightarrow> is_response e \<Longrightarrow> responded (ts_id (pq_task op)) (waiter_tag (For_task op) ef)"
  by (auto simp: responded_def waiter_tag_def)

section \<open>Which operation sends\<close>

fun is_process :: "op_point \<Rightarrow> bool" where
  "is_process (At_process rq c) = True"
| "is_process _ = False"

definition outcome_point :: "op_point outcome \<Rightarrow> op_point option" where
  "outcome_point r = (case snd (snd r) of Waiting c q \<Rightarrow> Some c | _ \<Rightarrow> None)"

abbreviation outcome_effects :: "op_point outcome \<Rightarrow> effect list" where
  "outcome_effects r \<equiv> fst (snd r)"

lemma at_point_effects [simp]: "outcome_effects (at_point w r) = fst (snd r)"
  by (cases r) simp

definition silent :: "effect list \<Rightarrow> bool" where
  "silent ef \<longleftrightarrow> (\<forall>e \<in> set ef. \<not> is_send e \<and> \<not> is_response e)"

lemma silent_simps [simp]:
  "silent []" "silent (e # ef) \<longleftrightarrow> \<not> is_send e \<and> \<not> is_response e \<and> silent ef"
  "silent (ef @ ef') \<longleftrightarrow> silent ef \<and> silent ef'"
  by (auto simp: silent_def)

lemma silent_sends: "silent ef \<Longrightarrow> send_count ef = 0"
  by (simp add: silent_def send_count_def)

lemma resume_outer_silent:
  "silent (fst (snd r)) \<Longrightarrow> (\<And>ec t. silent (fst (snd (k ec t))))
   \<Longrightarrow> silent (fst (snd (resume_outer w k r)))"
  by (cases "(w, k, r)" rule: resume_outer.cases) (auto split: prod.split, metis fst_conv snd_conv)

lemma cons_effect_silent [simp]:
  "silent (fst (snd (case r of (t, ef, p) \<Rightarrow> (t, e # ef, p))))
     \<longleftrightarrow> \<not> is_send e \<and> \<not> is_response e \<and> silent (fst (snd r))"
  by (cases r) simp

lemma do_async_connect_silent: "silent (fst (snd (do_async_connect k d c i t)))"
  by (cases k; cases c) simp_all

lemma basic_connect_silent: "silent (fst (snd (basic_connect k e c i t)))"
proof (cases c)
  case (Outer c')
  then show ?thesis
    by (cases c') (simp_all add: Let_def connect_done_def resume_outer_silent do_async_connect_silent)
next
  case (Inner c')
  then show ?thesis by (simp add: connect_done_def resume_outer_silent do_async_connect_silent)
qed

lemma parser_op_silent: "silent (fst (snd (parser_op Next_next_layer rq pa c i t)))"
  by (cases c) (simp_all add: Let_def)

lemma stream_op_silent: "silent (fst (snd (stream_op Next_next_layer rq c i t)))"
proof (cases c)
  case (Outer c')
  then show ?thesis
    by (cases c') (auto simp: Let_def stream_done_def simp del: parser_op.simps
        intro!: resume_outer_silent parser_op_silent)
next
  case (Inner c')
  then show ?thesis
    by (auto simp: Let_def stream_done_def simp del: parser_op.simps
        intro!: resume_outer_silent parser_op_silent)
qed

lemma tunnel_connect_silent: "silent (fst (snd (tunnel_connect e c i t)))"
proof -
  have k: "silent (fst (snd (tunnel_processed i ec t)))" for ec t
    by (simp add: tunnel_processed_def)
  have r: "silent (fst (snd (resume_outer T_inner (tunnel_processed i)
      (stream_op Next_next_layer (connect_request e) c' j u))))" for c' j u
    by (intro resume_outer_silent stream_op_silent k)
  show ?thesis
  proof (cases c)
    case (T_coro c')
    show ?thesis
      using r [of "Outer Entry" "entering i" t] k
      by (cases c') (simp_all add: T_coro Let_def del: stream_op.simps)
  next
    case T_results
    then show ?thesis by simp
  next
    case (T_inner c')
    with r show ?thesis by (simp del: stream_op.simps)
  qed
qed

lemma do_async_close_silent: "silent (fst (snd (do_async_close k c i t)))"
  by (cases k; cases c) simp_all

lemma basic_close_silent: "silent (fst (snd (basic_close k gr c i t)))"
proof -
  have r: "silent (fst (snd (resume_outer Inner close_done (do_async_close k c' j u))))" for c' j u
    by (intro resume_outer_silent do_async_close_silent) (simp add: close_done_def)
  show ?thesis
  proof (cases c)
    case (Outer c')
    with r [of Entry "entering i"] show ?thesis
      by (cases c') (simp_all add: Let_def close_done_def)
  next
    case (Inner c')
    with r show ?thesis by simp
  qed
qed

lemma tunnel_close_silent: "silent (fst (snd (tunnel_close gr c i t)))"
proof -
  have r: "silent (fst (snd (resume_outer Inner tunnel_close_done (ssl_close c' j u))))" for c' j u
    using do_async_close_silent [of Ssl c' j u]
    by (intro resume_outer_silent) (simp_all add: tunnel_close_done_def del: ssl_close.simps)
  show ?thesis
  proof (cases c)
    case (Outer c')
    with r [of Entry "entering i"] show ?thesis
      by (cases c') (simp_all add: Let_def tunnel_close_done_def del: ssl_close.simps)
  next
    case (Inner c')
    with r show ?thesis by (simp del: ssl_close.simps)
  qed
qed

text \<open>Connecting and closing send nothing, store no response, and never turn into an exchange.\<close>

lemma other_ops_silent:
  "\<not> is_process c \<Longrightarrow> silent (outcome_effects (transport_body ep c i t))"
  by (cases "(ep, c, i, t)" rule: transport_body.cases)
    (simp_all add: basic_connect_silent tunnel_connect_silent basic_close_silent tunnel_close_silent
      del: body_simps)

lemma other_ops_send_nothing:
  "\<not> is_process c \<Longrightarrow> send_count (outcome_effects (transport_body ep c i t)) = 0"
  by (rule silent_sends [OF other_ops_silent])

lemma other_ops_stay:
  "\<not> is_process c \<Longrightarrow> transport_body ep c i t = (t', ef, Waiting c' q) \<Longrightarrow> \<not> is_process c'"
  by (cases "(ep, c, i, t)" rule: transport_body.cases) (auto simp: at_point_iffs simp del: body_simps)

lemma process_body: "transport_body ep (At_process rq c) i t = at_point (At_process rq) (transport_op rq c i t)"
  by (cases ep) simp_all

lemma process_sends:
  "send_count (outcome_effects (transport_body ep (At_process rq c) i t)) \<le> (if c = Entry then 1 else 0)"
  by (cases c) (simp_all add: process_body Let_def)

lemma process_stays:
  "transport_body ep (At_process rq c) i t = (t', ef, Waiting c' q) \<Longrightarrow>
   \<exists>c2. c' = At_process rq c2 \<and> c2 \<noteq> Entry"
  by (cases c) (auto simp: process_body at_point_iffs Let_def split: if_splits)

lemma process_responds:
  "transport_body ep (At_process rq c) i t = (t', ef, Completed ec) \<Longrightarrow> \<not> failed ec \<Longrightarrow>
   \<exists>e \<in> set ef. is_response e"
  by (cases c) (auto simp: process_body at_point_iffs Let_def split: if_splits)

section \<open>The invariant\<close>

fun matches :: "waiter \<Rightarrow> op_point \<Rightarrow> bool" where
  "matches (For_task op) c =
     (case pq_coro op of
        Entry \<Rightarrow> False
      | Yield1 \<Rightarrow> \<not> is_process c
      | Yield2 \<Rightarrow> \<exists>rq c'. c = At_process rq c' \<and> c' \<noteq> Entry
      | Yield3 \<Rightarrow> \<not> is_process c \<and> failed (pq_last_ec op))"
| "matches _ c = (\<not> is_process c)"

text \<open>How often the request of an operation may have been sent: once per round begun.\<close>

definition cap :: "process_queue_op \<Rightarrow> nat" where
  "cap op = (if pq_first_round op then 0 else 1)
     + (if pq_coro op = Yield2 \<or> pq_coro op = Yield3 then 1 else 0)"

fun op_of :: "driver \<Rightarrow> process_queue_op list" where
  "op_of (D_op op) = [op]"
| "op_of _ = []"

definition answered :: "session \<Rightarrow> nat set" where
  "answered s = fst ` set (se_done s)"

definition allowance :: "session \<Rightarrow> nat \<Rightarrow> nat" where
  "allowance s h =
     (if h \<in> answered s then 2
      else case filter (\<lambda>op. ts_id (pq_task op) = h) (concat (map op_of (drivers s))) of
        [] \<Rightarrow> 0 | op # _ \<Rightarrow> cap op)"

definition matched :: "session \<Rightarrow> bool" where
  "matched s \<longleftrightarrow> (\<forall>(w, c, q) \<in> set (se_active s). matches w c)
     \<and> (\<forall>op. Run_op op \<in> set (se_jobs s) \<longrightarrow> pq_coro op = Entry)"

definition answers_ok :: "session \<Rightarrow> bool" where
  "answers_ok s \<longleftrightarrow> (\<forall>(h, ec) \<in> set (se_done s). \<not> failed ec \<longrightarrow> responded h (se_log s))"

definition history :: "session \<Rightarrow> bool" where
  "history s \<longleftrightarrow> session_inv s \<and> matched s \<and> distinct (se_accepted s)
     \<and> (se_threw s \<or> answers_ok s \<and> (\<forall>h. sends h (se_log s) \<le> allowance s h))"

text \<open>Inside a step of an operation whose request has been sent at most \<open>n\<close> times.\<close>

definition hist_hand :: "nat \<Rightarrow> process_queue_op \<Rightarrow> session \<Rightarrow> bool" where
  "hist_hand n op s \<longleftrightarrow> in_hand op s \<and> matched s \<and> distinct (se_accepted s)
     \<and> (se_threw s \<or> answers_ok s \<and> sends (ts_id (pq_task op)) (se_log s) \<le> n
        \<and> (\<forall>h. h \<noteq> ts_id (pq_task op) \<longrightarrow>
             sends h (se_log s) \<le> (if h \<in> answered s then 2 else 0)))"

lemma hist_hand_in_hand: "hist_hand n op s \<Longrightarrow> in_hand op s"
  by (simp add: hist_hand_def)

lemma hist_hand_cong: "pq_task op' = pq_task op \<Longrightarrow> hist_hand n op' s = hist_hand n op s"
  by (simp add: hist_hand_def in_hand_def)

lemmas history_defs = history_def hist_hand_def matched_def answers_ok_def allowance_def

lemma cap_le: "cap op \<le> 2"
  by (simp add: cap_def)

lemma answered_simps [simp]:
  "answered (pq_complete op ec s) = insert (ts_id (pq_task op)) (answered s)"
  "answered (post_job j s) = answered s"
  "answered (s\<lparr>se_transport := t\<rparr>) = answered s"
  "answered (s\<lparr>se_log := l\<rparr>) = answered s"
  "answered (s\<lparr>se_active := as\<rparr>) = answered s"
  "answered (s\<lparr>se_jobs := js\<rparr>) = answered s"
  "answered (s\<lparr>sb_tasks := ks\<rparr>) = answered s"
  "answered (s\<lparr>se_threw := b\<rparr>) = answered s"
  "answered (s\<lparr>sb_running := b\<rparr>) = answered s"
  "answered (s\<lparr>se_replies := rs\<rparr>) = answered s"
  "answered (s\<lparr>sb_waits := ws\<rparr>) = answered s"
  "answered (s\<lparr>sb_fired := fs\<rparr>) = answered s"
  "answered (set_running r s) = answered s"
  by (auto simp: answered_def pq_complete_def post_job_def set_running_def)

lemma hist_hand_set_running [simp]: "hist_hand n op (set_running b s) = hist_hand n op s"
  unfolding hist_hand_def in_hand_set_running
  by (simp add: set_running_def matched_def answers_ok_def)

lemma log_simps [simp]:
  "se_log (pq_complete op ec s) = se_log s" "se_log (post_job j s) = se_log s"
  by (simp_all add: pq_complete_def post_job_def)

lemma drivers_parts:
  "drivers (pq_complete op ec s) = map job_driver (se_jobs s) @ D_advance # active_drivers (se_active s)"
  "drivers (post_job j s) = map job_driver (se_jobs s) @ job_driver j # active_drivers (se_active s)"
  by (simp_all add: drivers_def pq_complete_def post_job_def)

lemma in_hand_drivers:
  "in_hand op s \<Longrightarrow> \<not> se_threw s \<Longrightarrow> se_jobs s = [] \<and> active_drivers (se_active s) = []"
  by (auto simp: in_hand_def drivers_Nil_iff)

lemma hist_complete:
  assumes "hist_hand n op s" "n \<le> 2"
    and "\<not> failed ec \<Longrightarrow> \<not> se_threw s \<Longrightarrow> responded (ts_id (pq_task op)) (se_log s)"
  shows "history (pq_complete op ec s)"
proof -
  have inv: "session_inv (pq_complete op ec s)"
    using assms(1) pq_complete_inv hist_hand_in_hand by blast
  show ?thesis
  proof (cases "se_threw s")
    case True
    with assms(1) inv show ?thesis by (auto simp: history_defs pq_complete_def post_job_def)
  next
    case False
    note d = in_hand_drivers [OF hist_hand_in_hand [OF assms(1)] False]
    have "sends h (se_log s) \<le> allowance (pq_complete op ec s) h" for h
    proof (cases "h = ts_id (pq_task op)")
      case True
      then show ?thesis using assms(1,2) False
        by (simp add: hist_hand_def allowance_def)
    next
      case False
      then show ?thesis using assms(1) \<open>\<not> se_threw s\<close> d
        by (auto simp: hist_hand_def allowance_def drivers_parts split: if_splits)
    qed
    with assms(1,3) False inv show ?thesis
      by (auto simp: history_def hist_hand_def matched_def answers_ok_def pq_complete_def post_job_def)
  qed
qed

lemma hist_retry:
  assumes h: "hist_hand n op s" "n \<le> cap op'" and op': "pq_task op' = pq_task op" "pq_coro op' = Entry"
  shows "history (post_job (Run_op op') s)"
proof -
  have inv: "session_inv (post_job (Run_op op') s)"
    using hist_hand_in_hand [OF h(1)] op'(1) by (auto simp: inv_defs post_job_def)
  show ?thesis
  proof (cases "se_threw s")
    case True
    with h inv op' show ?thesis by (auto simp: history_defs post_job_def)
  next
    case False
    note d = in_hand_drivers [OF hist_hand_in_hand [OF h(1)] False]
    have "sends j (se_log s) \<le> allowance (post_job (Run_op op') s) j" for j
      using h op' False d cap_le [of op']
      by (cases "j = ts_id (pq_task op)")
        (auto simp: hist_hand_def allowance_def drivers_parts split: if_splits)
    with h op' False inv show ?thesis
      by (auto simp: history_def hist_hand_def matched_def answers_ok_def post_job_def)
  qed
qed

text \<open>Starting or resuming an operation of the transport for a task.\<close>

lemma hist_launch:
  assumes h: "hist_hand n op s" and good: "outcome_good (se_endpoint s) r"
    and sends: "n + send_count (outcome_effects r) \<le> m" "m \<le> cap op"
    and wait: "\<And>t ef c q. r = (t, ef, Waiting c q) \<Longrightarrow> matches (For_task op) c"
    and resp: "\<And>t ef ec. r = (t, ef, Completed ec) \<Longrightarrow> pq_coro op = Yield2 \<Longrightarrow> \<not> failed ec
        \<Longrightarrow> \<exists>e \<in> set ef. is_response e"
    and k: "\<And>ec s. hist_hand m op s
        \<Longrightarrow> (pq_coro op = Yield2 \<Longrightarrow> \<not> failed ec \<Longrightarrow> responded (ts_id (pq_task op)) (se_log s))
        \<Longrightarrow> history (k ec s)"
  shows "history (launch (For_task op) r k s)"
proof -
  obtain t ef p where r: "r = (t, ef, p)" by (metis prod.exhaust)
  let ?l = "se_log s @ waiter_tag (For_task op) ef"
  let ?s = "s\<lparr>se_transport := t, se_log := ?l\<rparr>"
  have hand: "in_hand op ?s" using hist_hand_in_hand [OF h] by (auto simp: inv_defs)
  have hist: "hist_hand m op ?s"
    using h hand sends(1) r
    by (auto simp: hist_hand_def matched_def answers_ok_def split: if_splits)
  show ?thesis
  proof (cases p)
    case (Waiting c q)
    let ?u = "?s\<lparr>se_active := se_active ?s @ [(For_task op, c, q)]\<rparr>"
    have inv: "session_inv ?u"
      using hand good r Waiting by (auto simp: inv_defs outcome_good_def)
    have "sends j (se_log ?u) \<le> allowance ?u j" if "\<not> se_threw s" for j
      using hist in_hand_drivers [OF hist_hand_in_hand [OF h] that] that sends(2) cap_le [of op]
      by (cases "j = ts_id (pq_task op)") (auto simp: hist_hand_def allowance_def split: if_splits)
    with hist inv wait r Waiting have "history ?u"
      by (auto simp: history_def hist_hand_def matched_def answers_ok_def simp del: sends_append)
    then show ?thesis using r Waiting by simp
  next
    case (Completed ec)
    have "responded (ts_id (pq_task op)) ?l" if "pq_coro op = Yield2" "\<not> failed ec"
      using resp [OF _ that] r Completed responded_waiter_tag by fastforce
    with k [OF hist] r Completed show ?thesis by simp
  next
    case (Threw ec)
    with hist hand r show ?thesis by (auto simp: history_defs inv_defs)
  next
    case Inert
    with good r show ?thesis by (simp add: outcome_good_def)
  qed
qed

lemma hist_pq_enter:
  assumes "hist_hand n op s" "n \<le> 2" "history (body ec op s)"
  shows "history (pq_enter body ec op s)"
  using assms hist_complete [of n op s Operation_aborted] by (auto simp: pq_enter_def)

lemma hist_pq_closed:
  assumes "hist_hand n op s" "n \<le> cap op" "pq_coro op = Yield3" "failed (pq_last_ec op)"
  shows "history (pq_closed ec op s)"
proof (cases "pq_first_round op")
  case True
  with assms show ?thesis
    by (auto simp: pq_closed_def cap_def intro!: hist_retry)
next
  case False
  have "n \<le> 2" using assms(2) cap_le order.trans by blast
  then have "history (pq_complete op (pq_last_ec op) (set_running False s))"
    by (rule hist_complete [rotated]) (use assms(1,4) in simp_all)
  with False show ?thesis by (simp add: pq_closed_def)
qed

text \<open>The starts of the transport's operations.\<close>

lemma connect_point_not_process: "\<not> is_process (connect_point ep)"
  by (cases ep) (simp_all add: connect_point_def)

lemma connect_sends: "send_count (outcome_effects (async_connect ep i t)) = 0"
  unfolding async_connect_def by (rule other_ops_send_nothing [OF connect_point_not_process])

lemma close_sends: "send_count (outcome_effects (async_close ep gr i t)) = 0"
  unfolding async_close_def by (rule other_ops_send_nothing) simp

lemma process_start_sends: "send_count (outcome_effects (async_process_one ep rq i t)) \<le> 1"
  unfolding async_process_one_def by (rule order.trans [OF process_sends]) simp

lemma connect_stays: "async_connect ep i t = (t', ef, Waiting c q) \<Longrightarrow> \<not> is_process c"
  unfolding async_connect_def by (rule other_ops_stay [OF connect_point_not_process])

lemma close_stays: "async_close ep gr i t = (t', ef, Waiting c q) \<Longrightarrow> \<not> is_process c"
  unfolding async_close_def by (erule other_ops_stay [rotated]) simp

lemma process_start_stays:
  "async_process_one ep rq i t = (t', ef, Waiting c q) \<Longrightarrow> \<exists>rq c2. c = At_process rq c2 \<and> c2 \<noteq> Entry"
  unfolding async_process_one_def by (drule process_stays) blast

lemma hist_pq_processed:
  assumes h: "hist_hand n op s" "n \<le> cap op" "pq_coro op = Yield2"
    and resp: "\<not> failed ec \<Longrightarrow> responded (ts_id (pq_task op)) (se_log s)"
  shows "history (pq_processed i ec op s)"
proof (cases "failed ec")
  case True
  let ?op = "op\<lparr>pq_last_ec := ec, pq_coro := Yield3\<rparr>"
  have cong: "hist_hand n ?op s = hist_hand n op s" for n s by (rule hist_hand_cong) simp
  have cap: "cap ?op = cap op" using h(3) by (simp add: cap_def)
  have "history (launch (For_task ?op) (async_close (se_endpoint s) Yes i (se_transport s))
      (\<lambda>ec. pq_enter pq_closed ec ?op) s)"
  proof (rule hist_launch [where n = n and m = n])
    show "history (pq_enter pq_closed ec' ?op u)" if "hist_hand n ?op u" for ec' u
      using that True h(2) cap cap_le [of ?op] by (intro hist_pq_enter [OF that] hist_pq_closed) auto
  qed (use h cong cap True close_stays in \<open>auto simp: close_sends\<close>)
  with True show ?thesis by (simp add: pq_processed_def Let_def)
next
  case False
  with h resp cap_le [of op] show ?thesis
    by (auto simp: pq_processed_def intro!: hist_complete)
qed

lemma hist_pq_process:
  assumes h: "hist_hand n op s" "n \<le> (if pq_first_round op then 0 else 1)"
  shows "history (pq_process i op s)"
proof -
  let ?op = "op\<lparr>pq_coro := Yield2\<rparr>" and ?m = "Suc (if pq_first_round op then 0 else 1)"
  have cong: "hist_hand n ?op s = hist_hand n op s" for n s by (rule hist_hand_cong) simp
  have cap: "cap ?op = ?m" by (simp add: cap_def)
  have "history (launch (For_task ?op)
        (async_process_one (se_endpoint s) (ts_request (pq_task op)) i (se_transport s))
        (\<lambda>ec. pq_enter (pq_processed i) ec ?op) s)"
  proof (rule hist_launch [where n = n and m = "?m"])
    show "history (pq_enter (pq_processed i) ec' ?op u)"
      if "hist_hand ?m ?op u" "pq_coro ?op = Yield2 \<Longrightarrow> \<not> failed ec' \<Longrightarrow> responded (ts_id (pq_task ?op)) (se_log u)"
      for ec' u
      using that cap cap_le [of ?op] by (intro hist_pq_enter [OF that(1)] hist_pq_processed [OF that(1)]) auto
    show "\<exists>e \<in> set ef. is_response e"
      if "async_process_one (se_endpoint s) (ts_request (pq_task op)) i (se_transport s) = (t, ef, Completed ec')"
        "\<not> failed ec'" for t ef ec'
      using that process_responds unfolding async_process_one_def by blast
    show "matches (For_task ?op) c"
      if "async_process_one (se_endpoint s) (ts_request (pq_task op)) i (se_transport s) = (t, ef, Waiting c q)"
      for t ef c q
      using process_start_stays [OF that] by simp
    show "n + send_count (outcome_effects
        (async_process_one (se_endpoint s) (ts_request (pq_task op)) i (se_transport s))) \<le> ?m"
      using h(2) process_start_sends [of "se_endpoint s" "ts_request (pq_task op)" i "se_transport s"]
      by linarith
  qed (use h(1) cong cap in auto)
  then show ?thesis by (simp add: pq_process_def Let_def)
qed

lemma hist_pq_connected:
  assumes "hist_hand n op s" "n \<le> cap op" "pq_coro op = Yield1"
  shows "history (pq_connected i ec op s)"
proof (cases "failed ec")
  case True
  have "history (pq_complete op ec (set_running False s))"
    by (rule hist_complete [of n]) (use assms True cap_le [of op] in simp_all)
  with True show ?thesis by (simp add: pq_connected_def)
next
  case False
  have "history (pq_process i op s)"
    by (rule hist_pq_process [OF assms(1)]) (use assms(2,3) in \<open>simp add: cap_def\<close>)
  with False show ?thesis by (simp add: pq_connected_def)
qed

lemma hist_pq_start:
  assumes h: "hist_hand n op s" "n \<le> cap op" "pq_coro op = Entry"
  shows "history (pq_start i op s)"
proof -
  let ?op = "op\<lparr>pq_coro := Yield1\<rparr>"
  have cong: "hist_hand n ?op s = hist_hand n op s" for n s by (rule hist_hand_cong) simp
  have cap: "cap ?op = cap op" using h(3) by (simp add: cap_def)
  have "history (launch (For_task ?op) (async_connect (se_endpoint s) i (se_transport s))
      (\<lambda>ec. pq_enter (pq_connected i) ec ?op) s)"
  proof (rule hist_launch [where n = n and m = n])
    show "history (pq_enter (pq_connected i) ec' ?op u)" if "hist_hand n ?op u" for ec' u
      using that h(2) cap cap_le [of ?op] by (intro hist_pq_enter [OF that] hist_pq_connected) auto
  qed (use h cong cap connect_stays in \<open>auto simp: connect_sends\<close>)
  moreover have "history (pq_process i op s)"
    by (rule hist_pq_process [OF h(1)]) (use h(2,3) in \<open>simp add: cap_def\<close>)
  ultimately show ?thesis by (simp add: pq_start_def Let_def)
qed

lemma hist_pq_call:
  assumes h: "hist_hand n op s" "n \<le> cap op"
    and last: "pq_coro op = Yield3 \<Longrightarrow> failed (pq_last_ec op)"
    and resp: "pq_coro op = Yield2 \<Longrightarrow> \<not> failed ec \<Longrightarrow> responded (ts_id (pq_task op)) (se_log s)"
  shows "history (pq_call i ec op s)"
  unfolding pq_call_def
proof (rule hist_pq_enter [OF h(1)])
  show "n \<le> 2" using h(2) cap_le [of op] by linarith
  show "history (pq_body i ec op s)"
    using hist_pq_start [OF h] hist_pq_connected [OF h] hist_pq_processed [OF h] hist_pq_closed [OF h] last resp
    by (auto simp: pq_body_def split: coro.split)
qed

lemma hist_task_run: "hist_hand 0 op s \<Longrightarrow> op = \<lparr>pq_task = k, pq_last_ec = Success, pq_coro = Entry,
    pq_first_round = True\<rparr> \<Longrightarrow> history (task_run i k s)"
  by (auto simp: task_run_def intro!: hist_pq_call [where n = 0])

section \<open>The steps of the session\<close>

abbreviation ops_in :: "driver list \<Rightarrow> process_queue_op list" where
  "ops_in ds \<equiv> concat (map op_of ds)"

text \<open>A step that posts no completion, starts no operation of a task and logs nothing.\<close>

lemma history_frame:
  assumes "history s" "session_inv u" "matched u" "distinct (se_accepted u)"
    and "se_threw s \<longrightarrow> se_threw u" "se_done u = se_done s" "se_log u = se_log s"
    and "ops_in (drivers u) = ops_in (drivers s)"
  shows "history u"
proof -
  have "answered u = answered s" using assms(6) by (simp add: answered_def)
  then have "allowance u = allowance s" using assms(8) by (simp add: allowance_def fun_eq_iff)
  with assms show ?thesis by (auto simp: history_def answers_ok_def)
qed

lemma history_inv: "history s \<Longrightarrow> session_inv s"
  by (simp add: history_def)

lemma hist_launch_other:
  assumes h: "history s" and good: "outcome_good (se_endpoint s) r" and w: "waiter_drivers who = []"
    and wait: "\<And>t ef c q. r = (t, ef, Waiting c q) \<Longrightarrow> \<not> is_process c"
    and k: "\<And>ec s. history s \<Longrightarrow> history (k ec s)"
  shows "history (launch who r k s)"
proof -
  obtain t ef p where r: "r = (t, ef, p)" by (metis prod.exhaust)
  have tag: "waiter_tag who ef = []" using w by (cases who) (simp_all add: waiter_tag_def)
  have match: "matches who c = (\<not> is_process c)" for c using w by (cases who) simp_all
  let ?s = "s\<lparr>se_transport := t\<rparr>"
  have hist: "history ?s"
    by (rule history_frame [OF h]) (use h in \<open>auto simp: history_def matched_def inv_defs\<close>)
  show ?thesis
  proof (cases p)
    case (Waiting c q)
    have "history (?s\<lparr>se_active := se_active ?s @ [(who, c, q)]\<rparr>)"
      by (rule history_frame [OF hist])
        (use h good w wait r Waiting match in
          \<open>auto simp: history_def matched_def inv_defs outcome_good_def drivers_def\<close>)
    then show ?thesis using r Waiting tag by simp
  next
    case (Completed ec)
    with k [OF hist] r tag show ?thesis by simp
  next
    case (Threw ec)
    with h r tag show ?thesis by (auto simp: history_def matched_def inv_defs)
  next
    case Inert
    with good r show ?thesis by (simp add: outcome_good_def)
  qed
qed

lemma hist_reply: "history s \<Longrightarrow> history (reply h ec s)"
  by (rule history_frame [of s]) (auto simp: history_def matched_def reply_def inv_defs)

lemma hist_set_running: "history s \<Longrightarrow> history (set_running b s)"
  by (rule history_frame [of s]) (auto simp: history_def matched_def set_running_def inv_defs)

lemma hist_stop_closed:
  assumes "history s"
  shows "history (stop_closed h ec s)"
proof -
  have "history (async_wait_for_tasks_cancellation h s)"
    by (rule history_frame [OF assms])
      (use assms in \<open>auto simp: history_def matched_def async_wait_for_tasks_cancellation_def
        timer_cancel_def inv_defs Let_def\<close>)
  with assms show ?thesis by (simp add: stop_closed_def hist_reply)
qed

lemma hist_start_op: "history s \<Longrightarrow> history (start_op i h s)"
  unfolding start_op_def async_transport_connect_def Let_def
  by (intro hist_launch_other hist_reply) (auto intro: hist_set_running connect_stays dest: connect_stays)

lemma hist_stop_op: "history s \<Longrightarrow> history (stop_op i gr h s)"
  unfolding stop_op_def async_transport_close_def Let_def
  by (intro hist_launch_other hist_stop_closed) (auto intro: hist_set_running dest: close_stays)

lemma hist_push_op:
  assumes "history s" "h \<notin> set (se_accepted s)"
  shows "history (push_op h rq s)"
  by (rule history_frame [OF assms(1)])
    (use assms push_op_inv [OF history_inv [OF assms(1)]] in
      \<open>auto simp: history_def matched_def push_op_def push_task_def post_job_def drivers_def Let_def\<close>)

text \<open>When no operation is under way, only answered requests have been sent.\<close>

lemma allowance_idle: "ops_in (drivers s) = [] \<Longrightarrow> allowance s h = (if h \<in> answered s then 2 else 0)"
  by (simp only: allowance_def filter.simps list.case)

lemma hist_hand_idle:
  assumes h: "history s" and idle: "se_threw s \<or> ops_in (drivers s) = []" and hand: "in_hand op u" and m: "matched u"
    and u: "se_accepted u = se_accepted s" "se_threw u = se_threw s" "se_done u = se_done s" "se_log u = se_log s"
  shows "hist_hand 0 op u"
proof (cases "se_threw s")
  case True
  with h hand m u show ?thesis by (simp add: history_def hist_hand_def)
next
  case False
  have ans: "answered u = answered s" using u by (simp add: answered_def)
  from hand False u obtain ks where "map fst (se_done s) @ ts_id (pq_task op) # ks = se_accepted s"
    by (auto simp: in_hand_def)
  moreover have "distinct (se_accepted s)" using h by (simp add: history_def)
  ultimately have new: "ts_id (pq_task op) \<notin> answered s"
    by (metis answered_def disjoint_insert(1) distinct_append list.set_map list.simps(15))
  have "sends j (se_log s) \<le> (if j \<in> answered s then 2 else 0)" for j
    using h False allowance_idle [of s] idle by (metis history_def)
  then have "sends (ts_id (pq_task op)) (se_log s) = 0"
    "sends j (se_log s) \<le> (if j \<in> answered s then 2 else 0)" for j
    using new by (metis le_zero_eq, blast)
  with h hand m u ans False show ?thesis
    by (auto simp: history_def hist_hand_def answers_ok_def)
qed

text \<open>The functions run on the strand.\<close>

lemma matched_tail: "matched s \<Longrightarrow> se_jobs s = j # js \<Longrightarrow> matched (s\<lparr>se_jobs := js\<rparr>)"
  by (simp add: matched_def)

lemma hist_process_task:
  assumes h: "history s" and js: "se_jobs s = Process_task # js"
  shows "history (process_task (task_run i) (s\<lparr>se_jobs := js\<rparr>))"
proof (cases "sb_tasks s")
  case Nil
  have "history (s\<lparr>se_jobs := js\<rparr>)"
    by (rule history_frame [OF h])
      (use h js Nil in \<open>auto simp: history_def matched_def inv_defs drivers_def\<close>)
  with Nil show ?thesis by (simp add: process_task_def has_tasks_def pending_tasks_def)
next
  case (Cons k ks)
  have idle: "se_threw s \<or> ops_in (drivers s) = []"
    using h js by (auto simp: history_def inv_defs drivers_def)
  have "history (task_run i k (s\<lparr>se_jobs := js\<rparr>))"
    by (rule hist_task_run [OF hist_hand_idle [OF h idle] refl])
      (use h js Cons in \<open>auto simp: history_def matched_def inv_defs drivers_def\<close>)
  with Cons show ?thesis by (simp add: process_task_def has_tasks_def pending_tasks_def)
qed

lemma in_hand_new:
  assumes "in_hand op u" "\<not> se_threw u" "distinct (se_accepted u)"
  shows "ts_id (pq_task op) \<notin> answered u"
proof -
  from assms(1,2) obtain ks where "map fst (se_done u) @ ts_id (pq_task op) # ks = se_accepted u"
    by (auto simp: in_hand_def)
  with assms(3) show ?thesis
    by (metis answered_def disjoint_insert(1) distinct_append list.set_map list.simps(15))
qed

lemma hist_hand_op:
  assumes h: "history s" and ops: "se_threw s \<or> ops_in (drivers s) = [op]"
    and hand: "in_hand op u" and m: "matched u"
    and u: "se_accepted u = se_accepted s" "se_threw u = se_threw s" "se_done u = se_done s" "se_log u = se_log s"
  shows "hist_hand (cap op) op u"
proof (cases "se_threw s")
  case True
  with h hand m u show ?thesis by (simp add: history_def hist_hand_def)
next
  case False
  have ans: "answered u = answered s" using u by (simp add: answered_def)
  have new: "ts_id (pq_task op) \<notin> answered s"
    using in_hand_new [OF hand] False u h ans by (simp add: history_def)
  have all: "sends j (se_log s) \<le> allowance s j" for j
    using h False by (simp add: history_def)
  have "sends (ts_id (pq_task op)) (se_log s) \<le> cap op"
    using all [of "ts_id (pq_task op)"] new ops False by (simp add: allowance_def)
  moreover have "sends j (se_log s) \<le> (if j \<in> answered s then 2 else 0)" if "j \<noteq> ts_id (pq_task op)" for j
    using all [of j] ops False that by (simp add: allowance_def split: if_splits)
  ultimately show ?thesis using h hand m u ans False
    by (simp add: history_def hist_hand_def answers_ok_def)
qed

lemma hist_run_op:
  assumes h: "history s" and js: "se_jobs s = Run_op op # js"
  shows "history (pq_call i Success op (s\<lparr>se_jobs := js\<rparr>))"
proof -
  have m: "matched s" and inv: "session_inv s" using h by (simp_all add: history_def)
  have "Run_op op \<in> set (se_jobs s)" using js by (metis list.set_intros(1))
  then have coro: "pq_coro op = Entry" using m unfolding matched_def by blast
  have ds: "drivers s = D_op op # drivers (s\<lparr>se_jobs := js\<rparr>)" using js by (simp add: drivers_def)
  have hand: "in_hand op (s\<lparr>se_jobs := js\<rparr>)"
    using inv unfolding session_inv_def ds consistent_D_op in_hand_def points_good_def by auto
  have "se_threw s \<or> drivers (s\<lparr>se_jobs := js\<rparr>) = []"
    using inv unfolding session_inv_def ds consistent_D_op by blast
  then have ops: "se_threw s \<or> ops_in (drivers s) = [op]" unfolding ds by auto
  have "hist_hand (cap op) op (s\<lparr>se_jobs := js\<rparr>)"
    by (rule hist_hand_op [OF h ops hand matched_tail [OF m js]]) simp_all
  then show ?thesis by (rule hist_pq_call) (simp_all add: coro)
qed

lemma hist_advance_task:
  assumes h: "history s" and js: "se_jobs s = Advance_task # js"
    and r: "advance_task (task_run i) task_cancel (s\<lparr>se_jobs := js\<rparr>) = Inr s'"
  shows "history s'"
proof -
  from r obtain k ks where ks: "sb_tasks s = k # ks"
    by (cases "sb_tasks s") (auto simp: advance_task_def pop_task_def has_tasks_def pending_tasks_def)
  let ?s = "s\<lparr>se_jobs := js, sb_tasks := ks\<rparr>"
  have inv: "session_inv s" and dist: "distinct (se_accepted s)" and m: "matched ?s"
    using h matched_tail [OF _ js] by (auto simp: history_def matched_def)
  have ds: "drivers s = D_advance # drivers ?s" using js by (simp add: drivers_def)
  have st: "se_threw s \<or> drivers ?s = [] \<and> map fst (se_done s) @ map ts_id ks = se_accepted s"
    using inv ks unfolding session_inv_def ds consistent_D_advance by auto
  have pg: "points_good ?s" using inv by (simp add: inv_defs)
  have idle: "se_threw s \<or> ops_in (drivers s) = []" using st unfolding ds by auto
  show ?thesis
  proof (cases "running s")
    case True
    have "s' = process_task (task_run i) ?s"
      using r ks True by (simp add: session_task.advance_task_eq running_def)
    moreover have "history (process_task (task_run i) ?s)"
    proof (cases ks)
      case Nil
      have "history ?s"
        by (rule history_frame [OF h])
          (use st pg m dist ds Nil in \<open>auto simp: session_inv_def points_good_def\<close>)
      with Nil show ?thesis by (simp add: process_task_def has_tasks_def pending_tasks_def)
    next
      case (Cons k' ks')
      have "history (task_run i k' ?s)"
      proof (rule hist_task_run [OF hist_hand_idle [OF h idle _ m] refl])
        show "in_hand \<lparr>pq_task = k', pq_last_ec = Success, pq_coro = Entry, pq_first_round = True\<rparr> ?s"
          using st pg Cons by (auto simp: in_hand_def)
      qed simp_all
      with Cons show ?thesis by (simp add: process_task_def has_tasks_def pending_tasks_def)
    qed
    ultimately show ?thesis by simp
  next
    case False
    let ?u = "s\<lparr>se_jobs := js, se_done := se_done s @ map (\<lambda>k. (ts_id k, Operation_aborted)) ks, sb_tasks := []\<rparr>"
    have s': "s' = timer_cancel ?u"
      using r ks False by (simp add: session_task.advance_task_eq running_def fold_task_cancel eq_commute [of _ s'])
    have inv': "session_inv s'" by (rule advance_task_inv [OF inv js r])
    have fields: "matched s'" "se_accepted s' = se_accepted s" "se_threw s' = se_threw s"
      "se_log s' = se_log s" "se_done s' = se_done ?u" "answered s \<subseteq> answered s'"
      using m by (auto simp: s' matched_def timer_cancel_def answered_def)
    have "answers_ok s'" if "answers_ok s"
      using that fields(4,5) by (auto simp: answers_ok_def)
    moreover have "sends j (se_log s) \<le> allowance s' j" if "\<not> se_threw s" for j
    proof -
      have "sends j (se_log s) \<le> (if j \<in> answered s then 2 else 0)"
        using h that idle allowance_idle [of s] by (metis history_def)
      with fields(6) show ?thesis by (auto simp: allowance_def split: if_splits)
    qed
    ultimately show ?thesis using h inv' fields(1-4) by (auto simp: history_def)
  qed
qed

lemma hist_next_job:
  assumes "history s" "next_job i s = Some (Inr s')"
  shows "history s'"
proof -
  from assms(2) obtain j js where "se_jobs s = j # js" "run_job i j (s\<lparr>se_jobs := js\<rparr>) = Inr s'"
    by (auto simp: next_job_def split: list.splits)
  with assms(1) show ?thesis
    by (cases j) (auto intro: hist_process_task hist_advance_task hist_run_op)
qed

text \<open>A resumed operation of the transport.\<close>

lemma matches_process:
  "matches (For_task op) (At_process rq c') \<longleftrightarrow> pq_coro op = Yield2 \<and> c' \<noteq> Entry"
  by (cases "pq_coro op") simp_all

lemma matches_other:
  "\<not> is_process c \<Longrightarrow> matches (For_task op) c \<longleftrightarrow>
     pq_coro op = Yield1 \<or> pq_coro op = Yield3 \<and> failed (pq_last_ec op)"
  by (cases "pq_coro op"; cases c) simp_all

lemma is_process_iff: "is_process c \<longleftrightarrow> (\<exists>rq c'. c = At_process rq c')"
  by (cases c) simp_all

lemma resumed_sends:
  assumes m: "matches (For_task op) c"
  shows "send_count (outcome_effects (transport_body ep c i t)) = 0"
proof (cases "is_process c")
  case True
  then obtain rq c' where c: "c = At_process rq c'" unfolding is_process_iff by blast
  with m have "c' \<noteq> Entry" unfolding c matches_process by blast
  then show ?thesis using process_sends [of ep rq c' i t] unfolding c by presburger
next
  case False
  then show ?thesis by (rule other_ops_send_nothing)
qed

lemma resumed_matches:
  assumes m: "matches (For_task op) c" and r: "transport_body ep c i t = (t', ef, Waiting c2 q)"
  shows "matches (For_task op) c2"
proof (cases "is_process c")
  case True
  then obtain rq c' where c: "c = At_process rq c'" unfolding is_process_iff by blast
  with m have "pq_coro op = Yield2" unfolding c matches_process by blast
  moreover obtain c3 where "c2 = At_process rq c3" "c3 \<noteq> Entry" using process_stays [OF r [unfolded c]] by blast
  ultimately show ?thesis by (simp only: matches_process simp_thms)
next
  case False
  with other_ops_stay [OF False r] m show ?thesis by (simp only: matches_other not_False_eq_True)
qed

lemma resumed_responds:
  assumes m: "matches (For_task op) c" and r: "transport_body ep c i t = (t', ef, Completed ec)"
    and op: "pq_coro op = Yield2" "\<not> failed ec"
  shows "\<exists>e \<in> set ef. is_response e"
proof (cases "is_process c")
  case True
  then obtain rq c' where c: "c = At_process rq c'" unfolding is_process_iff by blast
  show ?thesis by (rule process_responds [OF r [unfolded c] op(2)])
next
  case False
  with m op(1) show ?thesis by (simp add: matches_other del: matches.simps)
qed

lemma hist_complete_io:
  assumes h: "history s" and n: "n < length (se_active s)"
  shows "history (complete_io n i s)"
proof -
  obtain w c q where nth: "se_active s ! n = (w, c, q)" by (metis prod.exhaust)
  let ?s = "s\<lparr>se_active := take n (se_active s) @ drop (Suc n) (se_active s)\<rparr>"
  let ?r = "transport_body (se_endpoint s) c i (io_apply q i (se_transport s))"
  have inv: "session_inv s" and m: "matched s" and dist: "distinct (se_accepted s)"
    using h by (simp_all add: history_def)
  have el: "(w, c, q) \<in> set (se_active s)" using n nth by (metis nth_mem)
  have mc: "matches w c" using m el unfolding matched_def by blast
  have m': "matched ?s" using m by (auto simp: matched_def dest: in_set_takeD in_set_dropD)
  have good: "outcome_good (se_endpoint ?s) ?r"
    using inv el by (auto simp: inv_defs intro!: body_outcome_good)
  have pg: "points_good ?s" using inv by (auto simp: inv_defs dest: in_set_takeD in_set_dropD)
  note rm = active_drivers_remove [OF n nth]
  have "history (launch w ?r (resume_waiter i w) ?s)"
  proof (cases w)
    case (For_task op)
    let ?l = "map job_driver (se_jobs s) @ active_drivers (take n (se_active s))"
    let ?k = "active_drivers (drop (Suc n) (se_active s))"
    have ds: "drivers s = ?l @ D_op op # ?k" "drivers ?s = ?l @ ?k"
      using rm For_task by (simp_all add: drivers_def)
    have st: "se_threw s \<or> ?l = [] \<and> ?k = []
        \<and> consistent (sb_tasks s) [D_op op] (map fst (se_done s)) (se_accepted s)"
      using inv unfolding session_inv_def ds consistent_append by blast
    have ops: "se_threw s \<or> ops_in (drivers s) = [op]" using st unfolding ds by auto
    have "in_hand op ?s" using st pg unfolding in_hand_def ds by auto
    then have hand: "hist_hand (cap op) op ?s" by (rule hist_hand_op [OF h ops _ m']) simp_all
    note mc' = mc [unfolded For_task]
    show ?thesis unfolding For_task
    proof (rule hist_launch [OF hand good, where m = "cap op"])
      show "cap op + send_count (outcome_effects ?r) \<le> cap op" using resumed_sends [OF mc'] by simp
      show "history (resume_waiter i (For_task op) ec u)"
        if "hist_hand (cap op) op u"
          "pq_coro op = Yield2 \<Longrightarrow> \<not> failed ec \<Longrightarrow> responded (ts_id (pq_task op)) (se_log u)" for ec u
        using hist_pq_call [OF that(1) _ _ that(2)] mc' by (auto split: coro.splits)
    qed (use resumed_matches [OF mc'] resumed_responds [OF mc'] in blast)+
  next
    case (For_start x)
    have s: "history ?s"
      by (rule history_frame [OF h]) (use inv pg m' dist rm For_start in \<open>auto simp: session_inv_def drivers_def\<close>)
    show ?thesis unfolding For_start
      by (rule hist_launch_other [OF s good]) (use mc For_start other_ops_stay in \<open>auto simp: hist_reply\<close>)
  next
    case (For_stop x)
    have s: "history ?s"
      by (rule history_frame [OF h]) (use inv pg m' dist rm For_stop in \<open>auto simp: session_inv_def drivers_def\<close>)
    show ?thesis unfolding For_stop
      by (rule hist_launch_other [OF s good]) (use mc For_stop other_ops_stay in \<open>auto simp: hist_stop_closed\<close>)
  qed
  then show ?thesis by (simp add: complete_io_def nth)
qed

lemma internal_history: "internal s s' \<Longrightarrow> history s \<Longrightarrow> history s'"
proof (induction rule: internal.induct)
  case (expiry s)
  show ?case
    by (rule history_frame [OF expiry(2)])
      (use expiry(2) in \<open>auto simp: history_def matched_def inv_defs timer_expires_def\<close>)
next
  case (waited s s')
  show ?case
    by (rule history_frame [OF waited(2)])
      (use waited in \<open>auto simp: next_wait_def stop_waited_def history_def matched_def inv_defs reply_def
        drivers_def split: list.splits\<close>)
qed (auto intro: hist_next_job hist_complete_io)

lemma user_history: "user s s' \<Longrightarrow> history s \<Longrightarrow> history s'"
  by (induction rule: user.induct) (auto intro: hist_push_op hist_start_op hist_stop_op)

lemma new_session_history: "history (new_session ep)"
  using new_session_inv [of ep]
  by (simp add: history_def matched_def answers_ok_def new_session_def sends_def)

lemma reachable_history: "reachable ep s \<Longrightarrow> history s"
  by (induction rule: reachable.induct) (auto intro: new_session_history internal_history user_history)

end
