(* ===== verification/Session_Dialogue.thy ===== *)
theory Session_Dialogue
  imports Session_History
begin

text \<open>
  Requests and responses on the connection of a session. The log of a session records for
  which task each write was made and each response stored; it is a dialogue when every write
  carries the request of its own task and every response answers the write before it.
\<close>

text \<open>The states of a session whose users push, under the number \<open>h\<close>, the request \<open>R h\<close>.\<close>

inductive serving :: "(nat \<Rightarrow> request_head) \<Rightarrow> endpoint \<Rightarrow> session \<Rightarrow> bool" for R ep where
  serving_created: "serving R ep (new_session ep)"
| serving_internal_step: "serving R ep s \<Longrightarrow> internal s s' \<Longrightarrow> serving R ep s'"
| serving_push: "serving R ep s \<Longrightarrow> h \<notin> set (se_accepted s) \<Longrightarrow> h \<notin> set (se_rejected s)
    \<Longrightarrow> serving R ep (push_op h (R h) s)"
| serving_start: "serving R ep s \<Longrightarrow> serving R ep (start_op i h s)"
| serving_stop: "serving R ep s \<Longrightarrow> serving R ep (stop_op i gr h s)"

lemma serving_reachable: "serving R ep s \<Longrightarrow> reachable ep s"
  by (induction rule: serving.induct) (auto intro: reachable.intros user.intros)

lemma serving_run: "serving R ep s \<Longrightarrow> internal\<^sup>*\<^sup>* s s' \<Longrightarrow> serving R ep s'"
  by (rotate_tac, induction rule: rtranclp_induct) (auto intro: serving_internal_step)

section \<open>Dialogues\<close>

text \<open>\<open>p\<close> is the task whose request was written last and has no response yet.\<close>

fun dialogue :: "(nat \<Rightarrow> request_head) \<Rightarrow> nat option \<Rightarrow> (nat \<times> effect) list \<Rightarrow> bool" where
  "dialogue R p [] \<longleftrightarrow> True"
| "dialogue R p ((h, e) # l) \<longleftrightarrow>
     (if is_send e then e = Issue (Async_write Next_layer (R h)) \<and> dialogue R (Some h) l
      else if is_response e then p = Some h \<and> dialogue R None l
      else dialogue R p l)"

fun outstanding :: "nat option \<Rightarrow> (nat \<times> effect) list \<Rightarrow> nat option" where
  "outstanding p [] = p"
| "outstanding p ((h, e) # l) =
     outstanding (if is_send e then Some h else if is_response e then None else p) l"

lemma outstanding_append [simp]: "outstanding p (l @ m) = outstanding (outstanding p l) m"
  by (induction p l rule: outstanding.induct) simp_all

lemma dialogue_append [simp]: "dialogue R p (l @ m) \<longleftrightarrow> dialogue R p l \<and> dialogue R (outstanding p l) m"
  by (induction R p l rule: dialogue.induct) auto

lemma silent_dialogue:
  "silent ef \<Longrightarrow> dialogue R p (map (Pair h) ef)" "silent ef \<Longrightarrow> outstanding p (map (Pair h) ef) = p"
  by (induction ef arbitrary: p) auto

lemma dialogue_writes:
  "dialogue R p l \<Longrightarrow> (h, Issue (Async_write Next_layer rq)) \<in> set l \<Longrightarrow> rq = R h"
  by (induction R p l rule: dialogue.induct) (auto split: if_splits)

text \<open>Whose request is outstanding has been written, and nothing was written or stored since.\<close>

lemma outstanding_written:
  assumes "dialogue R None l" "outstanding None l = Some h"
  shows "\<exists>pre mid. l = pre @ (h, Issue (Async_write Next_layer (R h))) # mid \<and> silent (map snd mid)"
  using assms
proof (induction l rule: rev_induct)
  case Nil
  then show ?case by simp
next
  case (snoc a l)
  obtain j e where a: "a = (j, e)" by (cases a)
  show ?case
  proof (cases "is_send e")
    case True
    with snoc.prems a have "e = Issue (Async_write Next_layer (R h))" "j = h" by simp_all
    with a show ?thesis by (intro exI [of _ l] exI [of _ "[]"]) simp
  next
    case False
    with snoc.prems a have e: "\<not> is_response e" and "outstanding None l = Some h" "dialogue R None l"
      by (auto split: if_splits)
    then obtain pre mid where "l = pre @ (h, Issue (Async_write Next_layer (R h))) # mid" "silent (map snd mid)"
      using snoc.IH by blast
    with False e a show ?thesis by (intro exI [of _ pre] exI [of _ "mid @ [a]"]) simp
  qed
qed

section \<open>The invariant\<close>

definition in_dialogue :: "(nat \<Rightarrow> request_head) \<Rightarrow> session \<Rightarrow> bool" where
  "in_dialogue R s \<longleftrightarrow> dialogue R None (se_log s)
     \<and> (\<forall>k \<in> set (sb_tasks s). ts_request k = R (ts_id k))
     \<and> (\<forall>op c q. (For_task op, c, q) \<in> set (se_active s) \<longrightarrow> is_process c
          \<longrightarrow> outstanding None (se_log s) = Some (ts_id (pq_task op)))"

definition polite :: "(nat \<Rightarrow> request_head) \<Rightarrow> session \<Rightarrow> bool" where
  "polite R s \<longleftrightarrow> se_threw s \<or> in_dialogue R s"

lemma polite_frame:
  assumes "polite R s" "se_log s' = se_log s" "se_threw s' = se_threw s" "set (sb_tasks s') \<subseteq> set (sb_tasks s)"
    and "\<And>op c q. (For_task op, c, q) \<in> set (se_active s') \<Longrightarrow> is_process c \<Longrightarrow> (For_task op, c, q) \<in> set (se_active s)"
  shows "polite R s'"
  using assms unfolding polite_def in_dialogue_def by (metis subsetD)

text \<open>What an operation started or resumed for a task adds to the dialogue.\<close>

definition speaks :: "(nat \<Rightarrow> request_head) \<Rightarrow> nat option \<Rightarrow> nat \<Rightarrow> op_point outcome \<Rightarrow> bool" where
  "speaks R p h r \<longleftrightarrow> dialogue R p (map (Pair h) (outcome_effects r))
     \<and> (\<forall>c q. snd (snd r) = Waiting c q \<longrightarrow> is_process c
          \<longrightarrow> outstanding p (map (Pair h) (outcome_effects r)) = Some h)"

lemma other_op_speaks: "\<not> is_process c \<Longrightarrow> speaks R p h (transport_body ep c i t)"
  using other_ops_silent [of c ep i t] other_ops_stay [of c ep i t]
  by (cases "transport_body ep c i t") (auto simp: speaks_def silent_dialogue)

lemma connect_speaks: "speaks R p h (async_connect ep i t)"
  unfolding async_connect_def by (rule other_op_speaks [OF connect_point_not_process])

lemma close_speaks: "speaks R p h (async_close ep gr i t)"
  unfolding async_close_def by (rule other_op_speaks) simp

lemma exchange_speaks: "rq = R h \<Longrightarrow> speaks R p h (async_process_one ep rq i t)"
  by (auto simp: speaks_def async_process_one_eq process_entry simp del: transport_op.simps)

lemma resumed_speaks:
  assumes "matches (For_task op) c" "is_process c \<Longrightarrow> p = Some (ts_id (pq_task op))"
  shows "speaks R p (ts_id (pq_task op)) (transport_body ep c i t)"
proof (cases "is_process c")
  case True
  then obtain rq d where c: "c = At_process rq d" unfolding is_process_iff by blast
  have "d \<noteq> Entry" using assms(1) unfolding c matches_process by blast
  then show ?thesis unfolding c process_body assms(2) [OF True]
    by (cases d) (simp_all add: speaks_def Let_def)
qed (rule other_op_speaks)

section \<open>The steps of an operation\<close>

definition talking :: "(nat \<Rightarrow> request_head) \<Rightarrow> process_queue_op \<Rightarrow> session \<Rightarrow> bool" where
  "talking R op s \<longleftrightarrow> in_hand op s \<and> polite R s"

lemma talking_simps [simp]:
  "talking R (op\<lparr>pq_coro := c\<rparr>) s = talking R op s" "talking R (op\<lparr>pq_last_ec := ec\<rparr>) s = talking R op s"
  by (simp_all add: talking_def in_hand_def)

lemma talking_polite [simp]: "talking R op s \<Longrightarrow> polite R s"
  by (simp add: talking_def)

lemma talking_request: "talking R op s \<Longrightarrow> \<not> se_threw s \<Longrightarrow> ts_request (pq_task op) = R (ts_id (pq_task op))"
  by (auto simp: talking_def in_hand_def polite_def in_dialogue_def)

lemma polite_set_running [simp]: "polite R (set_running b s) = polite R s"
  by (simp add: polite_def in_dialogue_def set_running_def)

lemma polite_complete [simp]: "polite R (pq_complete op ec s) = polite R s"
  by (simp add: polite_def in_dialogue_def pq_complete_def post_job_def)

lemma polite_enter: "(polite R s \<Longrightarrow> polite R (body ec op s)) \<Longrightarrow> polite R s \<Longrightarrow> polite R (pq_enter body ec op s)"
  by (simp add: pq_enter_def)

lemma no_waiter_in_hand: "drivers s = [] \<Longrightarrow> (For_task op, c, q) \<notin> set (se_active s)"
proof
  assume d: "drivers s = []" and "(For_task op, c, q) \<in> set (se_active s)"
  then obtain xs ys where "se_active s = xs @ (For_task op, c, q) # ys" by (meson split_list)
  with d show False by (simp add: drivers_def)
qed

lemma launch_polite:
  assumes t: "talking R op s" and r: "\<not> se_threw s \<Longrightarrow> speaks R (outstanding None (se_log s)) (ts_id (pq_task op)) r"
    and good: "outcome_good (se_endpoint s) r"
    and k: "\<And>ec s. talking R op s \<Longrightarrow> polite R (k ec s)"
  shows "polite R (launch (For_task op) r k s)"
proof (cases r)
  case (fields u ef p)
  let ?s = "s\<lparr>se_transport := u, se_log := se_log s @ waiter_tag (For_task op) ef\<rparr>"
  have hand: "in_hand op s" using t by (simp add: talking_def)
  then have hand': "in_hand op ?s" by (auto simp: inv_defs)
  have none: "\<not> se_threw s \<Longrightarrow> (For_task x, c, q) \<notin> set (se_active s)" for x c q
    using hand no_waiter_in_hand by (auto simp: in_hand_def)
  have says: "polite R ?s"
    using t r fields none by (auto simp: talking_def polite_def in_dialogue_def speaks_def waiter_tag_def)
  show ?thesis
  proof (cases p)
    case (Waiting c q)
    have "polite R (?s\<lparr>se_active := se_active ?s @ [(For_task op, c, q)]\<rparr>)"
      using says r fields Waiting none by (auto simp: polite_def in_dialogue_def speaks_def waiter_tag_def)
    then show ?thesis by (simp add: fields Waiting)
  next
    case (Completed ec)
    with k [of ?s ec] hand' says fields show ?thesis by (simp add: talking_def)
  next
    case Threw
    with fields show ?thesis by (simp add: polite_def)
  next
    case Inert
    with fields good show ?thesis by (simp add: outcome_good_def)
  qed
qed

lemma closed_polite: "talking R op s \<Longrightarrow> polite R (pq_closed ec op s)"
  by (auto simp: pq_closed_def post_job_def intro: polite_frame [OF talking_polite])

lemma processed_polite:
  assumes "talking R op s"
  shows "polite R (pq_processed i ec op s)"
proof (cases "failed ec")
  case True
  let ?op = "op\<lparr>pq_last_ec := ec, pq_coro := Yield3\<rparr>"
  show ?thesis unfolding pq_processed_def Let_def if_P [OF True]
    by (rule launch_polite) (use assms in \<open>auto simp: close_speaks intro!: polite_enter closed_polite\<close>)
qed (use assms in \<open>simp add: pq_processed_def\<close>)

lemma process_polite:
  assumes "talking R op s"
  shows "polite R (pq_process i op s)"
proof -
  let ?op = "op\<lparr>pq_coro := Yield2\<rparr>"
  show ?thesis unfolding pq_process_def Let_def
    by (rule launch_polite)
      (use assms talking_request [OF assms] in \<open>auto simp: exchange_speaks
        intro!: polite_enter processed_polite\<close>)
qed

lemma connected_polite: "talking R op s \<Longrightarrow> polite R (pq_connected i ec op s)"
  by (simp add: pq_connected_def process_polite)

lemma start_polite:
  assumes "talking R op s"
  shows "polite R (pq_start i op s)"
proof (cases "\<not> is_open s \<and> running s")
  case True
  let ?op = "op\<lparr>pq_coro := Yield1\<rparr>"
  show ?thesis unfolding pq_start_def async_transport_connect_def Let_def if_P [OF True]
    by (rule launch_polite)
      (use assms in \<open>auto simp: connect_speaks intro!: polite_enter connected_polite\<close>)
next
  case False
  show ?thesis unfolding pq_start_def if_not_P [OF False] by (rule process_polite [OF assms])
qed

lemma call_polite: "talking R op s \<Longrightarrow> polite R (pq_call i ec op s)"
  unfolding pq_call_def
  by (rule polite_enter)
    (auto simp: pq_body_def start_polite connected_polite processed_polite closed_polite
      split: coro.split)

lemma task_run_polite:
  assumes "polite R s" "points_good s" "sb_tasks s = k # ks"
    and "se_threw s \<or> drivers s = [] \<and> map fst (se_done s) @ map ts_id (sb_tasks s) = se_accepted s"
  shows "polite R (task_run i k s)"
  unfolding task_run_def by (rule call_polite) (use assms in \<open>auto simp: talking_def in_hand_def\<close>)

section \<open>Every step keeps it\<close>

lemma next_job_polite:
  assumes pol: "polite R s" and inv: "session_inv s" and n: "next_job i s = Some (Inr s')"
  shows "polite R s'"
proof -
  from n obtain j js where js: "se_jobs s = j # js" and r: "run_job i j (s\<lparr>se_jobs := js\<rparr>) = Inr s'"
    by (auto simp: next_job_def split: list.splits)
  let ?s = "s\<lparr>se_jobs := js\<rparr>"
  have p: "polite R ?s" by (rule polite_frame [OF pol]) simp_all
  show ?thesis
  proof (cases j)
    case Process_task
    show ?thesis
    proof (cases "sb_tasks s")
      case Nil
      with r p Process_task show ?thesis by (auto simp: process_task_def has_tasks_def pending_tasks_def)
    next
      case (Cons k ks)
      have "polite R (task_run i k ?s)"
        by (rule task_run_polite [OF p]) (use inv js Process_task Cons in \<open>auto simp: inv_defs drivers_def\<close>)
      with r Process_task Cons show ?thesis by (auto simp: process_task_def has_tasks_def pending_tasks_def)
    qed
  next
    case Advance_task
    with r obtain k ks where ks: "sb_tasks s = k # ks"
      by (cases "sb_tasks s") (auto simp: advance_task_def pop_task_def has_tasks_def pending_tasks_def)
    let ?t = "?s\<lparr>sb_tasks := ks\<rparr>"
    have pt: "polite R ?t" by (rule polite_frame [OF p]) (use ks in auto)
    show ?thesis
    proof (cases "running s")
      case True
      with r Advance_task ks have s': "s' = process_task (task_run i) ?t"
        by (simp add: session_task.advance_task_eq running_def)
      show ?thesis
      proof (cases ks)
        case Nil
        with pt show ?thesis by (simp add: s' process_task_def has_tasks_def pending_tasks_def)
      next
        case (Cons k' ks')
        have "polite R (task_run i k' ?t)"
          by (rule task_run_polite [OF pt]) (use inv js Advance_task ks Cons in \<open>auto simp: inv_defs drivers_def\<close>)
        with Cons show ?thesis by (simp add: s' process_task_def has_tasks_def pending_tasks_def)
      qed
    next
      case False
      with r Advance_task ks have "s' = timer_cancel ((fold task_cancel ks ?s)\<lparr>sb_tasks := []\<rparr>)"
        by (simp add: session_task.advance_task_eq running_def)
      then show ?thesis by (intro polite_frame [OF p]) (simp_all add: timer_cancel_def fold_task_cancel)
    qed
  next
    case (Run_op op)
    have "in_hand op ?s" using inv js Run_op by (auto simp: inv_defs drivers_def)
    with p have "talking R op ?s" by (simp add: talking_def)
    with call_polite r Run_op show ?thesis by auto
  qed
qed

lemma launch_other_polite:
  assumes p: "polite R s" and w: "waiter_drivers w = []" and good: "outcome_good (se_endpoint s) r"
    and k: "\<And>ec s. polite R s \<Longrightarrow> polite R (k ec s)"
  shows "polite R (launch w r k s)"
proof (cases r)
  case (fields t ef q)
  from w have tag: "waiter_tag w ef = []" by (cases w) (simp_all add: waiter_tag_def)
  have s: "polite R (s\<lparr>se_transport := t, se_log := se_log s @ waiter_tag w ef\<rparr>)"
    by (rule polite_frame [OF p]) (simp_all add: tag)
  show ?thesis
  proof (cases q)
    case (Waiting c c2)
    have "polite R (s\<lparr>se_transport := t, se_log := se_log s @ waiter_tag w ef,
        se_active := se_active s @ [(w, c, c2)]\<rparr>)"
      by (rule polite_frame [OF p]) (use w in \<open>auto simp: tag\<close>)
    with fields Waiting show ?thesis by simp
  next
    case (Completed ec)
    with k [OF s] fields show ?thesis by simp
  next
    case Threw
    with fields show ?thesis by (simp add: polite_def)
  next
    case Inert
    with fields good show ?thesis by (simp add: outcome_good_def)
  qed
qed

lemma reply_polite: "polite R s \<Longrightarrow> polite R (reply h ec s)"
  by (erule polite_frame) (simp_all add: reply_def)

lemma stop_closed_polite: "polite R s \<Longrightarrow> polite R (stop_closed h ec s)"
  by (simp add: stop_closed_def reply_polite)
    (auto simp: async_wait_for_tasks_cancellation_def timer_cancel_def Let_def intro: polite_frame)

lemma complete_io_polite:
  assumes pol: "polite R s" and h: "history s" and n: "n < length (se_active s)"
  shows "polite R (complete_io n i s)"
proof -
  obtain w c q where nth: "se_active s ! n = (w, c, q)" by (metis prod.exhaust)
  let ?s = "s\<lparr>se_active := take n (se_active s) @ drop (Suc n) (se_active s)\<rparr>"
  let ?r = "transport_body (se_endpoint s) c i (io_apply q i (se_transport s))"
  have el: "(w, c, q) \<in> set (se_active s)" using n nth by (metis nth_mem)
  have inv: "session_inv s" and m: "matches w c" using h el by (auto simp: history_def matched_def)
  have good: "outcome_good (se_endpoint ?s) ?r" using inv el by (auto simp: inv_defs intro!: body_outcome_good)
  have p: "polite R ?s"
    by (rule polite_frame [OF pol]) (auto dest: in_set_takeD in_set_dropD)
  have "polite R (launch w ?r (resume_waiter i w) ?s)"
  proof (cases w)
    case (For_task op)
    have hand: "in_hand op ?s" by (rule resumed_in_hand [OF inv n nth [unfolded For_task]])
    with p have t: "talking R op ?s" by (simp add: talking_def)
    have out: "outstanding None (se_log ?s) = Some (ts_id (pq_task op))" if "\<not> se_threw s" "is_process c"
      using pol el that by (auto simp: polite_def in_dialogue_def For_task)
    show ?thesis unfolding For_task
      by (rule launch_polite [OF t _ good])
        (use out resumed_speaks [OF m [unfolded For_task]] call_polite in auto)
  next
    case (For_start x)
    show ?thesis unfolding For_start
      by (rule launch_other_polite [OF p _ good]) (simp_all add: reply_polite)
  next
    case (For_stop x)
    show ?thesis unfolding For_stop
      by (rule launch_other_polite [OF p _ good]) (simp_all add: stop_closed_polite)
  qed
  then show ?thesis by (simp add: complete_io_def nth)
qed

lemma internal_polite: "internal s s' \<Longrightarrow> polite R s \<Longrightarrow> history s \<Longrightarrow> polite R s'"
proof (induction rule: internal.induct)
  case (expiry s)
  then show ?case by (auto simp: timer_expires_def intro: polite_frame)
next
  case (waited s s')
  then show ?case
    by (auto simp: next_wait_def stop_waited_def split: list.splits intro!: reply_polite intro: polite_frame)
qed (auto intro: next_job_polite complete_io_polite dest: history_inv)

lemma push_polite: "polite R s \<Longrightarrow> polite R (push_op h (R h) s)"
  by (auto simp: polite_def in_dialogue_def push_op_def push_task_def post_job_def Let_def)

theorem serving_polite: "serving R ep s \<Longrightarrow> polite R s"
proof (induction rule: serving.induct)
  case serving_created
  then show ?case by (simp add: polite_def in_dialogue_def new_session_def)
next
  case (serving_internal_step s s')
  then show ?case using internal_polite reachable_history [OF serving_reachable] by blast
next
  case (serving_start s i h)
  then show ?case unfolding start_op_def async_transport_connect_def Let_def
    by (intro launch_other_polite reply_polite) simp_all
next
  case (serving_stop s i gr h)
  then show ?case unfolding stop_op_def async_transport_close_def Let_def
    by (intro launch_other_polite stop_closed_polite) simp_all
qed (rule push_polite)

text \<open>In a dialogue each response answers the request of its task, written last before it.\<close>

lemma response_answers:
  assumes "dialogue R None (pre @ (h, e) # post)" "is_response e"
  shows "\<exists>pre' mid. pre = pre' @ (h, Issue (Async_write Next_layer (R h))) # mid \<and> silent (map snd mid)"
proof -
  have "\<not> is_send e" using assms(2) by (cases e) auto
  with assms show ?thesis by (intro outstanding_written) auto
qed

end
