(* ===== verification/Session_Live.thy ===== *)
theory Session_Live
  imports Session_Order
begin

text \<open>
  A session left alone comes to rest: every internal step makes \<open>work\<close> smaller, and a session
  with nothing left to do has answered every accepted request. The weights below bound, for
  every resume point of \<open>process_queue_op\<close>, the steps it can still take: at most five
  completions of a connect, two of an exchange, one of a close, once more for the second
  round, and the posted steps between them.
\<close>

section \<open>The measure\<close>

definition after_close :: "bool \<Rightarrow> nat" where
  "after_close first = (if first then 10 else 1)"

fun op_work :: "coro \<Rightarrow> bool \<Rightarrow> nat" where
  "op_work Yield3 first = after_close first"
| "op_work Yield2 first = 1 + after_close first"
| "op_work Yield1 first = 3 + after_close first"
| "op_work Entry first = 8 + after_close first"

fun job_work :: "job \<Rightarrow> nat" where
  "job_work Process_task = 19"
| "job_work Advance_task = 1"
| "job_work (Run_op op) = 1 + op_work (pq_coro op) (pq_first_round op)"

fun waiter_work :: "waiter \<Rightarrow> nat" where
  "waiter_work (For_task op) = op_work (pq_coro op) (pq_first_round op)"
| "waiter_work (For_start h) = 0"
| "waiter_work (For_stop h) = 2"

definition active_work :: "(waiter \<times> op_point \<times> io_call) list \<Rightarrow> nat" where
  "active_work as = sum_list (map (\<lambda>(w, c, q). op_rank c + waiter_work w) as)"

definition work :: "session \<Rightarrow> nat" where
  "work s = 19 * length (sb_tasks s) + sum_list (map job_work (se_jobs s)) + active_work (se_active s)
     + 2 * length (sb_waits s) + length (sb_fired s)"

lemma active_work_simps [simp]:
  "active_work [] = 0"
  "active_work (xs @ ys) = active_work xs + active_work ys"
  "active_work ((w, c, q) # as) = op_rank c + waiter_work w + active_work as"
  by (simp_all add: active_work_def)

lemma work_updates [simp]:
  "work (s\<lparr>se_done := x\<rparr>) = work s"
  "work (s\<lparr>sb_running := b\<rparr>) = work s"
  "work (s\<lparr>se_transport := t\<rparr>) = work s"
  "work (s\<lparr>se_log := l\<rparr>) = work s"
  "work (s\<lparr>se_replies := r\<rparr>) = work s"
  "work (s\<lparr>se_threw := e\<rparr>) = work s"
  "work (set_running b s) = work s"
  "work (reply h ec s) = work s"
  "work (post_job j s) = work s + job_work j"
  "work (s\<lparr>se_active := se_active s @ [(w, c, q)]\<rparr>) = work s + op_rank c + waiter_work w"
  by (simp_all add: work_def set_running_def reply_def post_job_def)

section \<open>What a launched operation may cost\<close>

text \<open>An outcome that still waits does so with at most \<open>n\<close> calls left.\<close>

definition outcome_within :: "nat \<Rightarrow> op_point outcome \<Rightarrow> bool" where
  "outcome_within n r \<longleftrightarrow> (case snd (snd r) of Waiting c q \<Rightarrow> op_rank c \<le> n | _ \<Rightarrow> True)"

lemma body_within:
  assumes "op_good ep c" "op_rank c \<le> Suc n"
  shows "outcome_within n (transport_body ep c i t)"
  using top.step_rank [OF assms(1)] assms(2)
  by (cases "transport_body ep c i t") (fastforce simp: outcome_within_def split: progress.split)

lemma starts_within:
  "outcome_within 5 (async_connect ep i t)" "outcome_within 1 (async_close ep gr i t)"
  "outcome_within 2 (async_process_one ep rq i t)"
  unfolding async_connect_def async_close_def async_process_one_def
  by (rule body_within [OF entry_points_good(1)], simp add: connect_point_def split: endpoint.split,
      rule body_within [OF entry_points_good(2)], simp,
      rule body_within [OF entry_points_good(3)], simp)

lemma launch_work:
  assumes "outcome_within n r"
    and "\<And>ec s. work (k ec s) \<le> work s + (n + waiter_work who)"
  shows "work (launch who r k s) \<le> work s + (n + waiter_work who)"
proof (cases r)
  case (fields t ef p)
  let ?s = "s\<lparr>se_transport := t, se_log := se_log s @ waiter_tag who ef\<rparr>"
  show ?thesis
  proof (cases p)
    case (Waiting c q)
    with assms(1) fields have "op_rank c \<le> n" by (simp add: outcome_within_def)
    moreover have "work (?s\<lparr>se_active := se_active ?s @ [(who, c, q)]\<rparr>) = work ?s + op_rank c + waiter_work who"
      by (rule work_updates)
    ultimately show ?thesis using fields Waiting by simp
  next
    case (Completed ec)
    with assms(2) [of ec ?s] fields show ?thesis by simp
  qed (simp_all add: fields)
qed

lemma pq_enter_work:
  assumes "\<And>ec s. work (body ec op s) \<le> work s + n" "0 < n"
  shows "work (pq_enter body ec op s) \<le> work s + n"
  using assms by (auto simp: pq_enter_def pq_complete_def)

lemma pq_closed_work: "work (pq_closed ec op s) \<le> work s + after_close (pq_first_round op)"
  by (simp add: pq_closed_def pq_complete_def after_close_def)

lemma after_close_pos [simp]: "0 < after_close b"
  by (simp add: after_close_def)

lemma pq_processed_work: "work (pq_processed i ec op s) \<le> work s + (1 + after_close (pq_first_round op))"
proof -
  let ?op = "op\<lparr>pq_last_ec := ec, pq_coro := Yield3\<rparr>"
  have "work (pq_enter pq_closed ec' ?op s') \<le> work s' + after_close (pq_first_round op)" for ec' s'
    by (rule order.trans [OF pq_enter_work [where n = "after_close (pq_first_round op)"]])
      (use pq_closed_work [of _ ?op] in simp_all)
  then have "work (launch (For_task ?op) (async_close (se_endpoint s) Yes i (se_transport s))
        (\<lambda>ec. pq_enter pq_closed ec ?op) s) \<le> work s + (1 + waiter_work (For_task ?op))"
    by (intro launch_work [OF starts_within(2)]) (simp add: le_SucI)
  then show ?thesis by (simp add: pq_processed_def pq_complete_def Let_def)
qed

lemma pq_process_work: "work (pq_process i op s) \<le> work s + (3 + after_close (pq_first_round op))"
proof -
  let ?op = "op\<lparr>pq_coro := Yield2\<rparr>"
  have "work (pq_enter (pq_processed i) ec' ?op s') \<le> work s' + (1 + after_close (pq_first_round op))"
    for ec' s'
    by (rule order.trans [OF pq_enter_work [where n = "1 + after_close (pq_first_round op)"]])
      (use pq_processed_work [of i _ ?op] in simp_all)
  then have "work (launch (For_task ?op)
        (async_process_one (se_endpoint s) (ts_request (pq_task op)) i (se_transport s))
        (\<lambda>ec. pq_enter (pq_processed i) ec ?op) s) \<le> work s + (2 + waiter_work (For_task ?op))"
    by (intro launch_work [OF starts_within(3)]) (simp add: le_SucI)
  then show ?thesis by (simp add: pq_process_def Let_def)
qed

lemma pq_connected_work: "work (pq_connected i ec op s) \<le> work s + (3 + after_close (pq_first_round op))"
  using pq_process_work [of i op s] by (simp add: pq_connected_def pq_complete_def)

lemma pq_start_work: "work (pq_start i op s) \<le> work s + (8 + after_close (pq_first_round op))"
proof -
  let ?op = "op\<lparr>pq_coro := Yield1\<rparr>"
  have enter: "work (pq_enter (pq_connected i) ec' ?op s') \<le> work s' + (3 + after_close (pq_first_round op))"
    for ec' s'
    by (rule order.trans [OF pq_enter_work [where n = "3 + after_close (pq_first_round op)"]])
      (use pq_connected_work [of i _ ?op] in simp_all)
  have "work (launch (For_task ?op) (async_connect (se_endpoint s) i (se_transport s))
        (\<lambda>ec. pq_enter (pq_connected i) ec ?op) s) \<le> work s + (5 + waiter_work (For_task ?op))"
    by (rule launch_work [OF starts_within(1)], rule order.trans [OF enter]) simp
  then show ?thesis using pq_process_work [of i op s] by (simp add: pq_start_def Let_def)
qed

lemma pq_call_work: "work (pq_call i ec op s) \<le> work s + op_work (pq_coro op) (pq_first_round op)"
  unfolding pq_call_def
proof (rule pq_enter_work)
  show "work (pq_body i ec op s) \<le> work s + op_work (pq_coro op) (pq_first_round op)" for ec s
    using pq_start_work [of i op s] pq_connected_work [of i ec op s] pq_processed_work [of i ec op s]
      pq_closed_work [of ec op s]
    by (simp add: pq_body_def split: coro.split)
  show "0 < op_work (pq_coro op) (pq_first_round op)" by (cases "pq_coro op") simp_all
qed

lemma task_run_work: "work (task_run i k s) \<le> work s + 18"
  using pq_call_work [of i Success
      "\<lparr>pq_task = k, pq_last_ec = Success, pq_coro = Entry, pq_first_round = True\<rparr>" s]
  by (simp add: task_run_def after_close_def)

section \<open>Every internal step decreases the measure\<close>

lemma stop_closed_work: "work (stop_closed h ec s) \<le> work s + 2"
  by (simp add: stop_closed_def)
    (simp add: work_def async_wait_for_tasks_cancellation_def timer_cancel_def Let_def)

lemma resume_waiter_work: "work (resume_waiter i w ec s) \<le> work s + waiter_work w"
  using stop_closed_work [of _ ec s] by (cases w) (simp_all add: pq_call_work)

lemma process_task_work:
  "se_jobs s = Process_task # js \<Longrightarrow> work (process_task (task_run i) (s\<lparr>se_jobs := js\<rparr>)) < work s"
proof -
  assume js: "se_jobs s = Process_task # js"
  have "work (s\<lparr>se_jobs := js\<rparr>) + 19 = work s" using js by (simp add: work_def)
  with task_run_work [of i "hd (sb_tasks s)" "s\<lparr>se_jobs := js\<rparr>"] show ?thesis
    by (simp add: process_task_def)
qed

lemma advance_task_work:
  assumes js: "se_jobs s = Advance_task # js"
    and r: "advance_task (task_run i) task_cancel (s\<lparr>se_jobs := js\<rparr>) = Inr s'"
  shows "work s' < work s"
proof -
  from r obtain k ks where ks: "sb_tasks s = k # ks"
    by (cases "sb_tasks s") (auto simp: advance_task_def pop_task_def has_tasks_def pending_tasks_def)
  let ?s = "s\<lparr>se_jobs := js, sb_tasks := ks\<rparr>"
  have w: "work ?s + 20 = work s" using js ks by (simp add: work_def)
  show ?thesis
  proof (cases "running s")
    case True
    with r ks have "s' = process_task (task_run i) ?s"
      by (simp add: session_task.advance_task_eq running_def)
    with w task_run_work [of i "hd ks" ?s] show ?thesis by (simp add: process_task_def)
  next
    case False
    with r ks have "s' = timer_cancel ((fold task_cancel ks (s\<lparr>se_jobs := js\<rparr>))\<lparr>sb_tasks := []\<rparr>)"
      by (simp add: session_task.advance_task_eq running_def)
    with js ks show ?thesis by (simp add: fold_task_cancel timer_cancel_def work_def)
  qed
qed

lemma run_op_work:
  "se_jobs s = Run_op op # js \<Longrightarrow> work (pq_call i ec op (s\<lparr>se_jobs := js\<rparr>)) < work s"
proof -
  assume js: "se_jobs s = Run_op op # js"
  have "work (s\<lparr>se_jobs := js\<rparr>) + Suc (op_work (pq_coro op) (pq_first_round op)) = work s"
    using js by (simp add: work_def)
  with pq_call_work [of i ec op "s\<lparr>se_jobs := js\<rparr>"] show ?thesis by simp
qed

lemma next_job_work:
  assumes "next_job i s = Some (Inr s')"
  shows "work s' < work s"
proof -
  from assms obtain j js where "se_jobs s = j # js" "run_job i j (s\<lparr>se_jobs := js\<rparr>) = Inr s'"
    by (auto simp: next_job_def split: list.splits)
  then show ?thesis
    by (cases j) (auto intro: process_task_work advance_task_work run_op_work)
qed

lemma complete_io_work:
  assumes good: "points_good s" and n: "n < length (se_active s)"
  shows "work (complete_io n i s) < work s"
proof -
  obtain w c q where nth: "se_active s ! n = (w, c, q)" by (metis prod.exhaust)
  let ?s = "s\<lparr>se_active := take n (se_active s) @ drop (Suc n) (se_active s)\<rparr>"
  have "(w, c, q) \<in> set (se_active s)" using n nth by (metis nth_mem)
  with good have c: "op_good (se_endpoint s) c" by (auto simp: points_good_def)
  then obtain m where m: "op_rank c = Suc m" using top.rank_pos gr0_conv_Suc by blast
  have "se_active s = take n (se_active s) @ (w, c, q) # drop (Suc n) (se_active s)"
    using id_take_nth_drop [OF n] nth by simp
  then have "active_work (se_active s)
      = active_work (take n (se_active s)) + (op_rank c + waiter_work w) + active_work (drop (Suc n) (se_active s))"
    by (metis active_work_simps(2,3) add.assoc)
  then have "work ?s + (Suc m + waiter_work w) = work s" using m by (simp add: work_def)
  moreover have "work (launch w (transport_body (se_endpoint s) c i (io_apply q i (se_transport s)))
      (resume_waiter i w) ?s) \<le> work ?s + (m + waiter_work w)"
    by (rule launch_work, use body_within [OF c] m in simp, rule order.trans [OF resume_waiter_work]) simp
  ultimately show ?thesis by (simp add: complete_io_def nth)
qed

lemma internal_work: "internal s s' \<Longrightarrow> points_good s \<Longrightarrow> work s' < work s"
proof (induction rule: internal.induct)
  case (expiry s)
  then show ?case by (simp add: work_def timer_expires_def)
next
  case (waited s s')
  then show ?case by (auto simp: next_wait_def stop_waited_def work_def reply_def split: list.splits)
qed (auto intro: next_job_work complete_io_work)

lemma internal_run_bounded:
  "(internal ^^ n) s s' \<Longrightarrow> session_inv s \<Longrightarrow> session_inv s' \<and> n + work s' \<le> work s"
proof (induction n arbitrary: s')
  case 0
  then show ?case by simp
next
  case (Suc n)
  then obtain u where u: "(internal ^^ n) s u" "internal u s'" by auto
  with Suc have "session_inv u" "n + work u \<le> work s" by auto
  with u internal_inv internal_work show ?case by (fastforce simp: session_inv_def)
qed

section \<open>Coming to rest\<close>

definition at_rest :: "session \<Rightarrow> bool" where
  "at_rest s \<longleftrightarrow> se_jobs s = [] \<and> se_active s = [] \<and> sb_waits s = [] \<and> sb_fired s = []"

text \<open>The step that pops a task never meets an empty queue, and its loop ends.\<close>

lemma next_job_defined:
  assumes "session_inv s" "\<not> se_threw s" "next_job i s = Some r"
  shows "\<exists>s'. r = Inr s'"
proof -
  from assms(3) obtain j js where js: "se_jobs s = j # js" "r = run_job i j (s\<lparr>se_jobs := js\<rparr>)"
    by (auto simp: next_job_def split: list.splits)
  show ?thesis
  proof (cases j)
    case Advance_task
    with assms(1,2) js obtain k ks where "sb_tasks s = k # ks"
      by (cases "sb_tasks s") (auto simp: session_inv_def drivers_def)
    with js Advance_task show ?thesis by (simp add: session_task.advance_task_eq Let_def)
  qed (use js in simp_all)
qed

lemma some_lawful_io: "\<exists>i. io_lawful q i"
  by (rule exI [of _ "\<lparr>io_ec = Success, io_open = True, io_rest = [], io_status = 200,
        io_option = Success, io_sni = True, io_err = 0, io_opened = True\<rparr>"]) (simp add: io_lawful_def)

lemma progress:
  assumes "session_inv s" "\<not> se_threw s" "\<not> at_rest s"
  shows "\<exists>s'. internal s s'"
proof (cases "se_active s = [] \<and> se_jobs s = []")
  case True
  with assms(3) have "sb_waits s \<noteq> [] \<or> sb_fired s \<noteq> []" by (simp add: at_rest_def)
  then show ?thesis
  proof
    assume "sb_waits s \<noteq> []"
    then show ?thesis by (blast intro: expiry)
  next
    assume "sb_fired s \<noteq> []"
    then obtain h ec ws where "sb_fired s = (h, ec) # ws" by (auto simp: neq_Nil_conv)
    then have "next_wait s = Some (stop_waited h ec (s\<lparr>sb_fired := ws\<rparr>))" by (simp add: next_wait_def)
    then show ?thesis by (blast intro: waited)
  qed
next
  case False
  show ?thesis
  proof (cases "se_jobs s")
    case Nil
    with False have "0 < length (se_active s)" by simp
    with some_lawful_io show ?thesis by (blast intro: completion)
  next
    case (Cons j js)
    then obtain r where "next_job undefined s = Some r" by (simp add: next_job_def)
    with next_job_defined [OF assms(1,2) this] show ?thesis by (blast intro: job)
  qed
qed

lemma at_rest_answered:
  "session_inv s \<Longrightarrow> \<not> se_threw s \<Longrightarrow> at_rest s \<Longrightarrow> sb_tasks s = [] \<and> map fst (se_done s) = se_accepted s"
  by (simp add: session_inv_def at_rest_def drivers_def)

lemma at_rest_stuck: "at_rest s \<Longrightarrow> \<not> internal s s'"
  by (auto simp: at_rest_def next_job_def next_wait_def elim!: internal.cases)

section \<open>The session never accepts a request by itself\<close>

definition requests :: "session \<Rightarrow> nat list \<times> nat list" where
  "requests s = (se_accepted s, se_rejected s)"

lemma launch_requests: "(\<And>ec s. requests (k ec s) = requests s) \<Longrightarrow> requests (launch who r k s) = requests s"
  by (cases r; cases "snd (snd r)") (simp_all add: requests_def Let_def)

lemma pq_complete_requests [simp]: "requests (pq_complete op ec s) = requests s"
  by (simp add: requests_def pq_complete_def post_job_def)

lemma pq_enter_requests: "(\<And>ec s. requests (body ec op s) = requests s) \<Longrightarrow> requests (pq_enter body ec op s) = requests s"
  by (simp add: pq_enter_def)

lemma set_running_requests [simp]: "requests (set_running b s) = requests s"
  by (simp add: requests_def set_running_def)

lemma pq_closed_requests: "requests (pq_closed ec op s) = requests s"
  by (simp add: pq_closed_def) (simp add: requests_def post_job_def)

lemma pq_processed_requests: "requests (pq_processed i ec op s) = requests s"
  by (simp add: pq_processed_def Let_def launch_requests pq_enter_requests pq_closed_requests)

lemma pq_process_requests: "requests (pq_process i op s) = requests s"
  by (simp add: pq_process_def Let_def launch_requests pq_enter_requests pq_processed_requests)

lemma pq_connected_requests: "requests (pq_connected i ec op s) = requests s"
  by (simp add: pq_connected_def pq_process_requests)

lemma pq_call_requests: "requests (pq_call i ec op s) = requests s"
  by (simp add: pq_call_def pq_body_def pq_start_def Let_def launch_requests pq_enter_requests
      pq_processed_requests pq_process_requests pq_connected_requests pq_closed_requests split: coro.split)

lemma fold_task_cancel_requests: "requests (fold task_cancel ks s) = requests s"
  by (simp add: fold_task_cancel requests_def)

lemma job_requests:
  assumes "run_job i j s = Inr s'"
  shows "requests s' = requests s"
proof (cases j)
  case Advance_task
  with assms obtain k ks where ks: "sb_tasks s = k # ks"
    by (cases "sb_tasks s") (auto simp: advance_task_def pop_task_def has_tasks_def pending_tasks_def)
  have eq: "requests (s\<lparr>sb_tasks := ks\<rparr>) = requests s" by (simp add: requests_def)
  from assms Advance_task ks show ?thesis
    by (auto simp: session_task.advance_task_eq process_task_def task_run_def pq_call_requests eq Let_def
        split: if_splits)
      (simp add: requests_def timer_cancel_def fold_task_cancel)
qed (use assms in \<open>auto simp: process_task_def task_run_def pq_call_requests\<close>)

lemma next_job_requests: "next_job i s = Some (Inr s') \<Longrightarrow> requests s' = requests s"
  by (auto simp: next_job_def requests_def split: list.splits dest!: job_requests)

lemma stop_closed_requests: "requests (stop_closed h ec s) = requests s"
  by (simp add: stop_closed_def requests_def reply_def async_wait_for_tasks_cancellation_def
      timer_cancel_def Let_def)

lemma reply_requests [simp]: "requests (reply h ec s) = requests s"
  by (simp add: requests_def reply_def)

lemma complete_io_requests: "requests (complete_io n i s) = requests s"
proof -
  obtain w c q where nth: "se_active s ! n = (w, c, q)" by (metis prod.exhaust)
  have "requests (resume_waiter i w ec u) = requests u" for ec u
    by (cases w) (simp_all add: pq_call_requests stop_closed_requests)
  then show ?thesis by (simp add: complete_io_def nth launch_requests) (simp add: requests_def)
qed

lemma internal_requests: "internal s s' \<Longrightarrow> requests s' = requests s"
  by (induction rule: internal.induct)
    (auto simp: next_job_requests complete_io_requests next_wait_def stop_waited_def
      split: list.splits, simp_all add: requests_def timer_expires_def)

lemma internal_run_requests: "internal\<^sup>*\<^sup>* s s' \<Longrightarrow> requests s' = requests s"
  by (induction rule: rtranclp_induct) (auto simp: internal_requests)

lemma internal_run_inv: "internal\<^sup>*\<^sup>* s s' \<Longrightarrow> session_inv s \<Longrightarrow> session_inv s'"
  by (induction rule: rtranclp_induct) (auto intro: internal_inv)

end
