(* ===== verification/Session_Spec.thy ===== *)
theory Session_Spec
  imports Session_Live Session_History "HOL-Library.Sublist"
begin

text \<open>
  What a session promises its user, as an abstract queue of requests, and the proof that the
  detailed session implements it: every step of the session is a number of steps of the
  queue. What a stopped session still does, and which sessions never lose a handler to an
  exception.
\<close>

section \<open>What a step leaves alone\<close>

text \<open>
  Answers are only ever added, the endpoint stays, and an exception can leave a handler only
  where the overload of \<open>set_option\<close> that throws is called: not on a \<open>Secure\<close> endpoint.
\<close>

fun calm_endpoint :: "endpoint \<Rightarrow> bool" where
  "calm_endpoint (Secure e) = True"
| "calm_endpoint _ = False"

definition grows :: "session \<Rightarrow> session \<Rightarrow> bool" where
  "grows s s' \<longleftrightarrow> prefix (se_done s) (se_done s') \<and> se_endpoint s' = se_endpoint s
     \<and> (se_threw s \<longrightarrow> se_threw s')
     \<and> (se_threw s' \<longrightarrow> se_threw s \<or> \<not> calm_endpoint (se_endpoint s))"

lemma grows_refl [simp]: "grows s s"
  by (simp add: grows_def)

lemma grows_trans [trans]: "grows s s' \<Longrightarrow> grows s' s'' \<Longrightarrow> grows s s''"
  unfolding grows_def by (metis prefix_order.trans)

lemma grows_same:
  "se_done s' = se_done s \<Longrightarrow> se_endpoint s' = se_endpoint s \<Longrightarrow> se_threw s' = se_threw s \<Longrightarrow> grows s s'"
  by (simp add: grows_def)

definition outcome_calm :: "endpoint \<Rightarrow> op_point outcome \<Rightarrow> bool" where
  "outcome_calm ep r \<longleftrightarrow> calm_endpoint ep \<longrightarrow> (\<forall>ec. snd (snd r) \<noteq> Threw ec)"

lemma at_point_calm:
  "outcome_calm ep (at_point w r) \<longleftrightarrow> calm_endpoint ep \<longrightarrow> (\<forall>ec. snd (snd r) \<noteq> Threw ec)"
  by (cases r; cases "snd (snd r)") (auto simp: outcome_calm_def)

lemma resume_outer_calm:
  "(\<And>ec. snd (snd r) \<noteq> Threw ec) \<Longrightarrow> (\<And>ec t x. snd (snd (k ec t)) \<noteq> Threw x)
   \<Longrightarrow> snd (snd (resume_outer w k r)) \<noteq> Threw x"
  by (cases "(w, k, r)" rule: resume_outer.cases) (auto split: prod.split, metis snd_conv)

lemma ssl_ops_calm:
  "snd (snd (basic_connect Ssl e c i t)) \<noteq> Threw ec" "snd (snd (basic_close Ssl gr c i t)) \<noteq> Threw ec"
  "snd (snd (transport_op rq co i t)) \<noteq> Threw ec"
proof -
  have conn: "snd (snd (ssl_connect d c' j u)) \<noteq> Threw x" for d c' j u x by (cases c') simp_all
  have clos: "snd (snd (ssl_close c' j u)) \<noteq> Threw x" for c' j u x by (cases c') simp_all
  have rconn: "snd (snd (resume_outer Inner connect_done (ssl_connect d c' j u))) \<noteq> Threw x" for d c' j u x
    by (rule resume_outer_calm) (simp_all add: conn connect_done_def del: ssl_connect.simps)
  have rclos: "snd (snd (resume_outer Inner close_done (ssl_close c' j u))) \<noteq> Threw x" for c' j u x
    by (rule resume_outer_calm) (simp_all add: clos close_done_def del: ssl_close.simps)
  show "snd (snd (basic_connect Ssl e c i t)) \<noteq> Threw ec"
  proof (cases c)
    case (Outer c')
    then show ?thesis using rconn
      by (cases c') (simp_all add: connect_done_def Let_def del: ssl_connect.simps)
  next
    case (Inner c')
    then show ?thesis using rconn by (simp del: ssl_connect.simps)
  qed
  have pair: "snd (snd (case r of (t', ef, p) \<Rightarrow> (t', e # ef, p))) = snd (snd r)" for r :: "nested outcome" and e
    by (cases r) simp
  show "snd (snd (basic_close Ssl gr c i t)) \<noteq> Threw ec"
  proof (cases c)
    case (Outer c')
    then show ?thesis using rclos
      by (cases c') (simp_all add: close_done_def Let_def pair del: ssl_close.simps)
  next
    case (Inner c')
    then show ?thesis using rclos by (simp del: ssl_close.simps)
  qed
  show "snd (snd (transport_op rq co i t)) \<noteq> Threw ec" by (cases co) (simp_all add: Let_def)
qed

lemma body_calm:
  assumes "op_good ep c"
  shows "outcome_calm ep (transport_body ep c i t)"
  using assms
  by (cases rule: op_good_cases; cases ep)
    (simp_all add: at_point_calm ssl_ops_calm del: body_simps)

lemma starts_calm [simp]:
  "outcome_calm ep (async_connect ep i t)" "outcome_calm ep (async_close ep gr i t)"
  "outcome_calm ep (async_process_one ep rq i t)"
  unfolding async_connect_def async_close_def async_process_one_def
  by (rule body_calm [OF entry_points_good(1)] body_calm [OF entry_points_good(2)]
      body_calm [OF entry_points_good(3)])+

lemma launch_grows:
  assumes calm: "outcome_calm (se_endpoint s) r" and k: "\<And>ec u. grows u (k ec u)"
  shows "grows s (launch who r k s)"
proof -
  obtain t ef p where r: "r = (t, ef, p)" by (metis prod.exhaust)
  let ?s = "s\<lparr>se_transport := t, se_log := se_log s @ waiter_tag who ef\<rparr>"
  have s: "grows s ?s" by (simp add: grows_def)
  show ?thesis
  proof (cases p)
    case (Completed ec)
    with r have "launch who r k s = k ec ?s" by simp
    with grows_trans [OF s k] show ?thesis by simp
  next
    case (Threw ec)
    with r calm show ?thesis by (auto simp: grows_def outcome_calm_def)
  qed (use r s in \<open>simp_all add: grows_def\<close>)
qed

lemma set_running_grows [simp]: "grows s (set_running b s)"
  by (simp add: grows_def set_running_def)

lemma pq_complete_grows [simp]: "grows s (pq_complete op ec s)"
  by (simp add: grows_def pq_complete_def post_job_def)

lemma pq_complete_stopped_grows [simp]: "grows s (pq_complete op ec (set_running b s))"
  by (rule grows_trans [OF set_running_grows pq_complete_grows])

lemma pq_enter_grows: "(\<And>ec u. grows u (body ec op u)) \<Longrightarrow> grows s (pq_enter body ec op s)"
  by (simp add: pq_enter_def)

lemma pq_closed_grows [simp]: "grows s (pq_closed ec op s)"
  by (simp add: pq_closed_def) (simp add: grows_def post_job_def)

lemma pq_processed_grows [simp]: "grows s (pq_processed i ec op s)"
  by (simp add: pq_processed_def Let_def launch_grows pq_enter_grows)

lemma pq_process_grows [simp]: "grows s (pq_process i op s)"
  by (simp add: pq_process_def Let_def launch_grows pq_enter_grows)

lemma pq_connected_grows [simp]: "grows s (pq_connected i ec op s)"
  by (simp add: pq_connected_def)

lemma pq_call_grows: "grows s (pq_call i ec op s)"
  by (simp add: pq_call_def pq_body_def pq_start_def Let_def launch_grows pq_enter_grows split: coro.split)

lemma task_run_grows: "grows s (task_run i k s)"
  by (simp add: task_run_def pq_call_grows)

lemma process_task_grows: "grows s (process_task (task_run i) s)"
  by (simp add: process_task_def task_run_grows)

lemma stop_closed_grows: "grows s (stop_closed h ec s)"
  by (simp add: stop_closed_def grows_def reply_def async_wait_for_tasks_cancellation_def
      timer_cancel_def Let_def)

lemma reply_grows: "grows s (reply h ec s)"
  by (simp add: grows_def reply_def)

lemma next_job_grows:
  assumes "next_job i s = Some (Inr s')"
  shows "grows s s'"
proof -
  from assms obtain j js where j: "se_jobs s = j # js" "run_job i j (s\<lparr>se_jobs := js\<rparr>) = Inr s'"
    by (auto simp: next_job_def split: list.splits)
  have u: "grows s (s\<lparr>se_jobs := js\<rparr>)" by (simp add: grows_def)
  have "grows (s\<lparr>se_jobs := js\<rparr>) s'"
  proof (cases j)
    case Advance_task
    with j(2) obtain k ks where ks: "sb_tasks s = k # ks"
      by (cases "sb_tasks s") (auto simp: advance_task_def pop_task_def has_tasks_def pending_tasks_def)
    have t: "grows (s\<lparr>se_jobs := js\<rparr>) (s\<lparr>se_jobs := js, sb_tasks := ks\<rparr>)" by (simp add: grows_def)
    show ?thesis
    proof (cases "running s")
      case True
      with j ks Advance_task have "s' = process_task (task_run i) (s\<lparr>se_jobs := js, sb_tasks := ks\<rparr>)"
        by (simp add: session_task.advance_task_eq running_def)
      with t process_task_grows grows_trans show ?thesis by blast
    next
      case False
      with j ks Advance_task show ?thesis
        by (auto simp: session_task.advance_task_eq running_def fold_task_cancel grows_def timer_cancel_def)
    qed
  qed (use j(2) process_task_grows pq_call_grows in auto)
  with u show ?thesis by (rule grows_trans)
qed

lemma complete_io_grows:
  assumes pg: "points_good s" and n: "n < length (se_active s)"
  shows "grows s (complete_io n i s)"
proof -
  obtain w c q where nth: "se_active s ! n = (w, c, q)" by (metis prod.exhaust)
  let ?s = "s\<lparr>se_active := take n (se_active s) @ drop (Suc n) (se_active s)\<rparr>"
  have "(w, c, q) \<in> set (se_active s)" using n nth by (metis nth_mem)
  with pg have "op_good (se_endpoint s) c" by (auto simp: points_good_def)
  then have "outcome_calm (se_endpoint ?s) (transport_body (se_endpoint s) c i (io_apply q i (se_transport s)))"
    using body_calm by simp
  moreover have "grows u (resume_waiter i w ec u)" for ec u
    by (cases w) (simp_all add: pq_call_grows reply_grows stop_closed_grows)
  ultimately have "grows ?s (complete_io n i s)"
    by (simp add: complete_io_def nth launch_grows)
  moreover have "grows s ?s" by (simp add: grows_def)
  ultimately show ?thesis using grows_trans by blast
qed

lemma internal_grows: "internal s s' \<Longrightarrow> points_good s \<Longrightarrow> grows s s'"
proof (induction rule: internal.induct)
  case (expiry s)
  show ?case by (simp add: grows_def timer_expires_def)
next
  case (waited s s')
  then show ?case by (auto simp: next_wait_def stop_waited_def reply_def grows_def split: list.splits)
qed (auto intro: next_job_grows complete_io_grows)

lemma user_grows: "user s s' \<Longrightarrow> grows s s'"
proof (induction rule: user.induct)
  case (push h s rq)
  show ?case by (simp add: push_op_def push_task_def post_job_def grows_def Let_def)
next
  case (start s i h)
  have "grows (set_running True s) (start_op i h s)"
    unfolding start_op_def async_transport_connect_def Let_def by (rule launch_grows) (simp_all add: reply_grows)
  with set_running_grows show ?case by (rule grows_trans)
next
  case (stop s i gr h)
  have "grows (set_running False s) (stop_op i gr h s)"
    unfolding stop_op_def async_transport_close_def Let_def by (rule launch_grows) (simp_all add: stop_closed_grows)
  with set_running_grows show ?case by (rule grows_trans)
qed

section \<open>The abstract queue\<close>

text \<open>
  What the user sees: requests wait in the order they were accepted and are answered from
  the front, one answer each.
\<close>

record request_queue =
  q_waiting :: "nat list"
  q_answered :: "nat list"

inductive queue_step :: "request_queue \<Rightarrow> request_queue \<Rightarrow> bool" where
  accept: "h \<notin> set (q_waiting q) \<Longrightarrow> h \<notin> set (q_answered q)
    \<Longrightarrow> queue_step q (q\<lparr>q_waiting := q_waiting q @ [h]\<rparr>)"
| answer: "q_waiting q = h # hs
    \<Longrightarrow> queue_step q (q\<lparr>q_waiting := hs, q_answered := q_answered q @ [h]\<rparr>)"

text \<open>
  The front task stays in the queue after its answer was posted, until the posted step to the
  next task runs.
\<close>

definition waiting :: "session \<Rightarrow> nat list" where
  "waiting s = map ts_id (if Advance_task \<in> set (se_jobs s) then tl (sb_tasks s) else sb_tasks s)"

definition abs_queue :: "session \<Rightarrow> request_queue" where
  "abs_queue s = \<lparr>q_waiting = waiting s, q_answered = map fst (se_done s)\<rparr>"

lemma waiting_drivers:
  "waiting s = map ts_id (if D_advance \<in> set (drivers s) then tl (sb_tasks s) else sb_tasks s)"
proof -
  have "D_advance \<notin> set (active_drivers as)" for as
  proof (induction as rule: active_drivers.induct)
    case (2 w c q as)
    then show ?case by (cases w) auto
  qed simp
  moreover have "job_driver j = D_advance \<longleftrightarrow> j = Advance_task" for j
    by (cases j) auto
  ultimately have "D_advance \<in> set (drivers s) \<longleftrightarrow> Advance_task \<in> set (se_jobs s)"
    unfolding drivers_def set_append set_map Un_iff image_iff by metis
  then show ?thesis by (simp add: waiting_def)
qed

lemma consistent_waiting:
  "consistent ks ds fin acc \<Longrightarrow> fin @ map ts_id (if D_advance \<in> set ds then tl ks else ks) = acc"
proof (cases ds)
  case (Cons d ds')
  moreover assume "consistent ks ds fin acc"
  ultimately show ?thesis by (cases d) auto
qed simp

lemma answered_waiting:
  "session_inv s \<Longrightarrow> \<not> se_threw s \<Longrightarrow> map fst (se_done s) @ waiting s = se_accepted s"
  unfolding session_inv_def waiting_drivers using consistent_waiting by blast

lemma queue_answers:
  "queue_step\<^sup>*\<^sup>* \<lparr>q_waiting = xs @ ys, q_answered = zs\<rparr> \<lparr>q_waiting = ys, q_answered = zs @ xs\<rparr>"
proof (induction xs arbitrary: zs)
  case (Cons x xs)
  have "queue_step \<lparr>q_waiting = (x # xs) @ ys, q_answered = zs\<rparr>
      \<lparr>q_waiting = xs @ ys, q_answered = zs @ [x]\<rparr>"
    using queue_step.answer [of "\<lparr>q_waiting = (x # xs) @ ys, q_answered = zs\<rparr>" x "xs @ ys"] by simp
  also have "queue_step\<^sup>*\<^sup>* \<dots> \<lparr>q_waiting = ys, q_answered = (zs @ [x]) @ xs\<rparr>" by (rule Cons.IH)
  finally show ?case by simp
qed simp

text \<open>A step that accepts nothing only moves requests from the front to the answers.\<close>

lemma grows_refines:
  assumes inv: "session_inv s" "session_inv s'" and g: "grows s s'" and ok: "\<not> se_threw s'"
    and acc: "se_accepted s' = se_accepted s"
  shows "queue_step\<^sup>*\<^sup>* (abs_queue s) (abs_queue s')"
proof -
  from g ok have ok0: "\<not> se_threw s" by (simp add: grows_def)
  from g obtain l where l: "se_done s' = se_done s @ l" by (auto simp: grows_def prefix_def)
  have "waiting s = map fst l @ waiting s'"
    using answered_waiting [OF inv(1) ok0] answered_waiting [OF inv(2) ok] acc l
    by (metis append.assoc map_append same_append_eq)
  with l queue_answers [of "map fst l" "waiting s'" "map fst (se_done s)"] show ?thesis
    by (simp add: abs_queue_def)
qed

lemma push_refines:
  assumes inv: "session_inv s" and ok: "\<not> se_threw s" and new: "h \<notin> set (se_accepted s)"
  shows "queue_step\<^sup>*\<^sup>* (abs_queue s) (abs_queue (push_op h rq s))"
proof (cases "running s")
  case True
  let ?s = "push_op h rq s"
  have inv': "session_inv ?s" using inv by (rule push_op_inv)
  have "grows s ?s" by (simp add: push_op_def push_task_def post_job_def grows_def Let_def)
  moreover have d: "se_done ?s = se_done s" "se_threw ?s = se_threw s" "se_accepted ?s = se_accepted s @ [h]"
    using True by (simp_all add: push_op_def push_task_def post_job_def Let_def)
  ultimately have "waiting ?s = waiting s @ [h]"
    using answered_waiting [OF inv ok] answered_waiting [OF inv'] ok
    by (metis append.assoc same_append_eq)
  moreover have "h \<notin> set (waiting s)" "h \<notin> set (map fst (se_done s))"
    using answered_waiting [OF inv ok] new by (auto simp flip: answered_waiting [OF inv ok])
  ultimately show ?thesis
    using queue_step.accept [of h "abs_queue s"] d by (simp add: abs_queue_def)
qed (simp add: push_op_def abs_queue_def waiting_def)

lemma start_stop_accept:
  "se_accepted (start_op i h s) = se_accepted s" "se_accepted (stop_op i gr h s) = se_accepted s"
proof -
  have "requests (start_op i h s) = requests s" "requests (stop_op i gr h s) = requests s"
    by (simp_all add: start_op_def stop_op_def Let_def launch_requests stop_closed_requests)
  then show "se_accepted (start_op i h s) = se_accepted s" "se_accepted (stop_op i gr h s) = se_accepted s"
    by (simp_all add: requests_def)
qed

section \<open>A stopped session\<close>

text \<open>
  Once its running flag is cleared, a session sends nothing more and answers every request it
  still holds with \<open>operation_aborted\<close>.
\<close>

definition only_aborts :: "session \<Rightarrow> session \<Rightarrow> bool" where
  "only_aborts s s' \<longleftrightarrow> \<not> running s'
     \<and> (\<exists>l. se_done s' = se_done s @ map (\<lambda>h. (h, Operation_aborted)) l)
     \<and> (\<forall>h. sends h (se_log s') = sends h (se_log s))"

lemma only_aborts_trans [trans]: "only_aborts s s' \<Longrightarrow> only_aborts s' s'' \<Longrightarrow> only_aborts s s''"
  unfolding only_aborts_def by (metis append.assoc map_append)

lemma only_aborts_same:
  "\<not> running s' \<Longrightarrow> se_done s' = se_done s \<Longrightarrow> se_log s' = se_log s \<Longrightarrow> only_aborts s s'"
  by (simp add: only_aborts_def)

lemma stopped_call:
  "\<not> running s \<Longrightarrow> pq_call i ec op s = pq_complete op Operation_aborted s"
  by (simp add: pq_call_def pq_enter_def)

lemma stopped_complete: "\<not> running s \<Longrightarrow> only_aborts s (pq_complete op Operation_aborted s)"
  unfolding only_aborts_def
  by (auto simp: pq_complete_def post_job_def running_def intro: exI [of _ "[ts_id (pq_task op)]"])

lemma stopped_process_task: "\<not> running s \<Longrightarrow> only_aborts s (process_task (task_run i) s)"
  by (simp add: process_task_def task_run_def stopped_call stopped_complete only_aborts_same)

lemma stopped_stop_closed: "\<not> running s \<Longrightarrow> only_aborts s (stop_closed h ec s)"
  by (rule only_aborts_same)
    (simp_all add: stop_closed_def reply_def async_wait_for_tasks_cancellation_def timer_cancel_def
      running_def Let_def)

lemma stopped_reply: "\<not> running s \<Longrightarrow> only_aborts s (reply h ec s)"
  by (rule only_aborts_same) (simp_all add: reply_def running_def)

lemma stopped_launch:
  assumes stop: "\<not> running s" and send: "\<And>op. who = For_task op \<Longrightarrow> send_count (outcome_effects r) = 0"
    and k: "\<And>ec u. \<not> running u \<Longrightarrow> only_aborts u (k ec u)"
  shows "only_aborts s (launch who r k s)"
proof -
  obtain t ef p where r: "r = (t, ef, p)" by (metis prod.exhaust)
  let ?s = "s\<lparr>se_transport := t, se_log := se_log s @ waiter_tag who ef\<rparr>"
  have "sends h (waiter_tag who ef) = 0" for h
    using send r by (cases who) simp_all
  then have s: "only_aborts s ?s" using stop by (simp add: only_aborts_def running_def)
  have stop': "\<not> running ?s" using stop by (simp add: running_def)
  show ?thesis
  proof (cases p)
    case (Completed ec)
    with r have "launch who r k s = k ec ?s" by simp
    with only_aborts_trans [OF s k [OF stop']] show ?thesis by simp
  qed (use r s in \<open>simp_all add: only_aborts_def running_def\<close>)
qed

lemma stopped_job:
  assumes stop: "\<not> running s" and j: "next_job i s = Some (Inr s')"
  shows "only_aborts s s'"
proof -
  from j obtain j js where j: "se_jobs s = j # js" "run_job i j (s\<lparr>se_jobs := js\<rparr>) = Inr s'"
    by (auto simp: next_job_def split: list.splits)
  have u: "only_aborts s (s\<lparr>se_jobs := js\<rparr>)" using stop by (simp add: only_aborts_def running_def)
  have stop': "\<not> running (s\<lparr>se_jobs := js\<rparr>)" using stop by (simp add: running_def)
  have "only_aborts (s\<lparr>se_jobs := js\<rparr>) s'"
  proof (cases j)
    case Advance_task
    with j(2) obtain k ks where ks: "sb_tasks s = k # ks"
      by (cases "sb_tasks s") (auto simp: advance_task_def pop_task_def has_tasks_def pending_tasks_def)
    with j Advance_task stop have "s' = timer_cancel ((fold task_cancel ks (s\<lparr>se_jobs := js\<rparr>))\<lparr>sb_tasks := []\<rparr>)"
      by (simp add: session_task.advance_task_eq running_def)
    with stop show ?thesis
      by (auto simp: only_aborts_def timer_cancel_def fold_task_cancel running_def
          intro: exI [of _ "map ts_id ks"])
  qed (use j(2) stop' stopped_process_task stopped_call stopped_complete in auto)
  with u show ?thesis by (rule only_aborts_trans)
qed

lemma stopped_completion:
  assumes stop: "\<not> running s" and m: "matched s" and n: "n < length (se_active s)"
  shows "only_aborts s (complete_io n i s)"
proof -
  obtain w c q where nth: "se_active s ! n = (w, c, q)" by (metis prod.exhaust)
  let ?s = "s\<lparr>se_active := take n (se_active s) @ drop (Suc n) (se_active s)\<rparr>"
  have "(w, c, q) \<in> set (se_active s)" using n nth by (metis nth_mem)
  with m have mc: "matches w c" unfolding matched_def by blast
  have "only_aborts ?s (launch w (transport_body (se_endpoint s) c i (io_apply q i (se_transport s)))
      (resume_waiter i w) ?s)"
  proof (rule stopped_launch)
    show "\<not> running ?s" using stop by (simp add: running_def)
    show "only_aborts u (resume_waiter i w ec u)" if "\<not> running u" for ec u
      using that by (cases w) (simp_all add: stopped_call stopped_complete stopped_stop_closed stopped_reply)
  qed (use mc resumed_sends in blast)
  moreover have "only_aborts s ?s" using stop by (simp add: only_aborts_def running_def)
  ultimately show ?thesis using only_aborts_trans unfolding complete_io_def nth by fastforce
qed

lemma stopped_step: "internal s s' \<Longrightarrow> matched s \<Longrightarrow> \<not> running s \<Longrightarrow> only_aborts s s'"
proof (induction rule: internal.induct)
  case (expiry s)
  then show ?case by (simp add: only_aborts_def timer_expires_def running_def)
next
  case (waited s s')
  then show ?case
    by (auto simp: next_wait_def stop_waited_def only_aborts_def reply_def running_def split: list.splits)
qed (auto intro: stopped_job stopped_completion)

lemma stopped_run:
  "internal\<^sup>*\<^sup>* s s' \<Longrightarrow> history s \<Longrightarrow> \<not> running s \<Longrightarrow> history s' \<and> only_aborts s s'"
proof (induction rule: rtranclp_induct)
  case base
  then show ?case by (simp add: only_aborts_same)
next
  case (step u v)
  then have "history u" "only_aborts s u" by auto
  moreover from this have "only_aborts u v"
    using stopped_step [OF step(2)] by (auto simp: history_def only_aborts_def)
  ultimately show ?case using internal_history [OF step(2)] only_aborts_trans by blast
qed

lemma stop_op_aborts: "only_aborts s (stop_op i gr h s)"
proof -
  let ?s = "set_running False s"
  have "only_aborts ?s (stop_op i gr h s)"
    unfolding stop_op_def async_transport_close_def Let_def
    by (rule stopped_launch) (simp_all add: stopped_stop_closed running_def set_running_def)
  moreover have "only_aborts s ?s" by (simp add: only_aborts_def running_def set_running_def)
  ultimately show ?thesis using only_aborts_trans by blast
qed

section \<open>Coming to rest\<close>

lemma internal_run_grows: "internal\<^sup>*\<^sup>* s s' \<Longrightarrow> session_inv s \<Longrightarrow> grows s s'"
proof (induction rule: rtranclp_induct)
  case (step u v)
  then have "session_inv u" by (blast intro: internal_run_inv)
  then have "grows u v" using internal_grows [OF step(2)] by (simp add: session_inv_def)
  with step.IH [OF step.prems] show ?case by (rule grows_trans)
qed simp

lemma comes_to_rest: "session_inv s \<Longrightarrow> \<exists>s'. internal\<^sup>*\<^sup>* s s' \<and> \<not> (\<exists>t. internal s' t)"
proof (induction s rule: measure_induct_rule [where f = work])
  case (less s)
  show ?case
  proof (cases "\<exists>t. internal s t")
    case True
    then obtain t where t: "internal s t" by blast
    with less.prems have "work t < work s" "session_inv t"
      using internal_work internal_inv by (auto simp: session_inv_def)
    with less.IH obtain s' where "internal\<^sup>*\<^sup>* t s'" "\<not> (\<exists>t. internal s' t)" by blast
    with t show ?thesis by (meson converse_rtranclp_into_rtranclp)
  qed blast
qed

lemma stuck_answered:
  assumes "session_inv s" "internal\<^sup>*\<^sup>* s s'" "\<not> (\<exists>t. internal s' t)" "\<not> se_threw s'"
  shows "sb_tasks s' = [] \<and> map fst (se_done s') = se_accepted s"
proof -
  have inv: "session_inv s'" by (rule internal_run_inv [OF assms(2,1)])
  with assms(3,4) progress have "at_rest s'" by blast
  with inv assms(4) at_rest_answered internal_run_requests [OF assms(2)] show ?thesis
    by (simp add: requests_def)
qed

lemma reachable_endpoint: "reachable ep s \<Longrightarrow> se_endpoint s = ep"
proof (induction rule: reachable.induct)
  case created
  show ?case by (simp add: new_session_def)
next
  case (internal_step s s')
  then have "grows s s'" using internal_grows reachable_inv [of ep s] by (simp add: session_inv_def)
  with internal_step show ?case by (simp add: grows_def)
next
  case (user_step s s')
  then show ?case using user_grows by (simp add: grows_def)
qed

lemma reachable_calm: "reachable ep s \<Longrightarrow> calm_endpoint ep \<Longrightarrow> \<not> se_threw s"
proof (induction rule: reachable.induct)
  case created
  show ?case by (simp add: new_session_def)
next
  case (internal_step s s')
  then have "grows s s'" using internal_grows reachable_inv [of ep s] by (simp add: session_inv_def)
  with internal_step reachable_endpoint [of ep s] show ?case by (auto simp: grows_def)
next
  case (user_step s s')
  then show ?case using user_grows reachable_endpoint [of ep s] by (auto simp: grows_def)
qed

section \<open>Which requests have been sent\<close>

lemma allowance_le: "allowance s h \<le> 2"
  using cap_le by (auto simp: allowance_def split: list.split)

text \<open>Only the front request, or one already answered, can have been sent.\<close>

lemma not_its_turn:
  assumes inv: "session_inv s" and ok: "\<not> se_threw s" and dist: "distinct (se_accepted s)"
    and h: "h \<notin> answered s" "waiting s = [] \<or> h \<noteq> hd (waiting s)"
  shows "allowance s h = 0"
proof -
  have cons: "consistent (sb_tasks s) (drivers s) (map fst (se_done s)) (se_accepted s)"
    using inv ok by (simp add: session_inv_def)
  have "filter (\<lambda>op. ts_id (pq_task op) = h) (ops_in (drivers s)) = []"
  proof (cases "drivers s")
    case (Cons d ds)
    with cons have ds: "ds = []" by (cases d) auto
    show ?thesis
    proof (cases d)
      case (D_op op)
      with cons Cons ds obtain ks where "sb_tasks s = pq_task op # ks" by auto
      with h(2) Cons ds D_op have "ts_id (pq_task op) \<noteq> h" by (auto simp: waiting_drivers)
      with Cons ds D_op show ?thesis by simp
    qed (use Cons ds in simp_all)
  qed simp
  with h(1) show ?thesis by (simp add: allowance_def)
qed

end
