(* ===== verification/Session_Run.thy ===== *)
theory Session_Run
  imports Session_Spec
begin

text \<open>
  An executable form of the session's steps: an event names the step and carries what the
  environment contributes to it, and \<open>play\<close> performs it when it is enabled. Concrete runs of
  the session are evaluated with it.
\<close>

datatype event =
    Run_job io
  | Io_completes nat io
  | Timer_expires
  | Wait_ends
  | Push nat request_head
  | Start io nat
  | Stop io GracefulShutdown nat

fun from_user :: "event \<Rightarrow> bool" where
  "from_user (Push h rq) = True"
| "from_user (Start i h) = True"
| "from_user (Stop i gr h) = True"
| "from_user _ = False"

fun play :: "event \<Rightarrow> session \<Rightarrow> session option" where
  "play (Run_job i) s = (case next_job i s of Some (Inr s') \<Rightarrow> Some s' | _ \<Rightarrow> None)"
| "play (Io_completes n i) s =
     (if n < length (se_active s) \<and> io_lawful (snd (snd (se_active s ! n))) i
      then Some (complete_io n i s) else None)"
| "play Timer_expires s = (if sb_waits s \<noteq> [] then Some (timer_expires s) else None)"
| "play Wait_ends s = next_wait s"
| "play (Push h rq) s =
     (if h \<in> set (se_accepted s) \<or> h \<in> set (se_rejected s) then None else Some (push_op h rq s))"
| "play (Start i h) s = Some (start_op i h s)"
| "play (Stop i gr h) s = Some (stop_op i gr h s)"

fun plays :: "event list \<Rightarrow> session \<Rightarrow> session option" where
  "plays [] s = Some s"
| "plays (e # es) s = (case play e s of Some s' \<Rightarrow> plays es s' | None \<Rightarrow> None)"

lemma play_internal: "play e s = Some s' \<Longrightarrow> \<not> from_user e \<Longrightarrow> internal s s'"
  by (cases e) (auto intro: internal.intros split: option.splits sum.splits if_splits)

lemma play_user: "play e s = Some s' \<Longrightarrow> from_user e \<Longrightarrow> user s s'"
  by (cases e) (auto intro: user.intros split: if_splits)

lemma internal_play: "internal s s' \<Longrightarrow> \<exists>e. \<not> from_user e \<and> play e s = Some s'"
proof (induction rule: internal.induct)
  case (job i s s')
  then show ?case by (intro exI [of _ "Run_job i"]) simp
next
  case (completion n s i)
  then show ?case by (intro exI [of _ "Io_completes n i"]) simp
next
  case (expiry s)
  then show ?case by (intro exI [of _ Timer_expires]) simp
next
  case (waited s s')
  then show ?case by (intro exI [of _ Wait_ends]) simp
qed

lemma user_play: "user s s' \<Longrightarrow> \<exists>e. from_user e \<and> play e s = Some s'"
proof (induction rule: user.induct)
  case (push h s rq)
  then show ?case by (intro exI [of _ "Push h rq"]) simp
next
  case (start s i h)
  then show ?case by (intro exI [of _ "Start i h"]) simp
next
  case (stop s i gr h)
  then show ?case by (intro exI [of _ "Stop i gr h"]) simp
qed

lemma plays_append: "plays (es @ es') s = (case plays es s of Some s' \<Rightarrow> plays es' s' | None \<Rightarrow> None)"
  by (induction es arbitrary: s) (auto split: option.split)

lemma plays_reachable: "reachable ep s \<Longrightarrow> plays es s = Some s' \<Longrightarrow> reachable ep s'"
proof (induction es arbitrary: s)
  case (Cons e es)
  from Cons.prems(2) obtain u where u: "play e s = Some u" "plays es u = Some s'"
    by (auto split: option.splits)
  have "reachable ep u"
    using Cons.prems(1) play_internal [OF u(1)] play_user [OF u(1)]
    by (cases "from_user e") (auto intro: reachable.intros)
  with Cons.IH u(2) show ?case by blast
qed simp

lemma plays_internal:
  "\<forall>e \<in> set es. \<not> from_user e \<Longrightarrow> plays es s = Some s' \<Longrightarrow> internal\<^sup>*\<^sup>* s s'"
proof (induction es arbitrary: s)
  case (Cons e es)
  then obtain u where u: "play e s = Some u" "plays es u = Some s'" by (auto split: option.splits)
  have "internal s u" using play_internal [OF u(1)] Cons.prems(1) by simp
  also have "internal\<^sup>*\<^sup>* u s'" using Cons u(2) by simp
  finally show ?case .
qed simp

section \<open>Concrete outcomes and sessions\<close>

definition io_fine :: io where
  "io_fine = \<lparr>io_ec = Success, io_open = True, io_rest = [], io_status = 200,
     io_option = Success, io_sni = True, io_err = 0, io_opened = True\<rparr>"

definition io_lost :: io where
  "io_lost = io_fine\<lparr>io_ec := Eof\<rparr>"

definition demo_request :: request_head where
  "demo_request = \<lparr>rq_method = Get, rq_target = ''/'', rq_version = 11, rq_set = []\<rparr>"

definition demo_endpoint :: endpoint where
  "demo_endpoint = Secure \<lparr>ep_domain = ''a.org'', ep_port = 443\<rparr>"

text \<open>One request: post, connect (resolve, connect, handshake), write, read, next task.\<close>

definition demo_events :: "event list" where
  "demo_events = [Run_job io_fine, Io_completes 0 io_fine, Io_completes 0 io_fine,
     Io_completes 0 io_fine, Io_completes 0 io_fine, Io_completes 0 io_fine, Run_job io_fine]"

definition demo_done :: session where
  "demo_done = the (plays demo_events (push_op 1 demo_request (new_session demo_endpoint)))"

lemma demo_pushed_reachable: "reachable demo_endpoint (push_op 1 demo_request (new_session demo_endpoint))"
  by (rule user_step [OF created push]) (simp_all add: new_session_def)

lemma demo_plays:
  "plays demo_events (push_op 1 demo_request (new_session demo_endpoint)) = Some demo_done"
  by code_simp

lemma demo_facts:
  "se_done demo_done = [(1, Success)]" "at_rest demo_done" "se_threw demo_done = False"
  "se_accepted demo_done = [1]" "waiting demo_done = []" "sends 1 (se_log demo_done) = 1" "running demo_done"
  by code_simp+

lemma demo_reachable: "reachable demo_endpoint demo_done"
  by (rule plays_reachable [OF demo_pushed_reachable demo_plays])

lemma demo_internal: "internal\<^sup>*\<^sup>* (push_op 1 demo_request (new_session demo_endpoint)) demo_done"
  by (rule plays_internal [OF _ demo_plays]) (simp add: demo_events_def)

text \<open>A first exchange whose answer is lost: the request is sent again.\<close>

definition lost_events :: "event list" where
  "lost_events = Push 1 demo_request # Run_job io_fine #
     replicate 4 (Io_completes 0 io_fine) @ [Io_completes 0 io_lost, Io_completes 0 io_fine, Run_job io_fine]
     @ replicate 5 (Io_completes 0 io_fine)"

definition lost_done :: session where
  "lost_done = the (plays lost_events (new_session demo_endpoint))"

lemma lost_plays: "plays lost_events (new_session demo_endpoint) = Some lost_done"
  by code_simp

lemma lost_facts: "se_done lost_done = [(1, Success)]" "sends 1 (se_log lost_done) = 2"
  "\<not> se_threw lost_done" "se_accepted lost_done = [1]"
  by code_simp+

lemma lost_reachable: "reachable demo_endpoint lost_done"
  by (rule plays_reachable [OF created lost_plays])

text \<open>A request that is pushed while an explicit start is connecting.\<close>

definition raced_events :: "event list" where
  "raced_events = [Start io_fine 5, Io_completes 0 io_fine, Push 1 demo_request, Run_job io_fine]"

definition raced :: session where
  "raced = the (plays raced_events (new_session demo_endpoint))"

lemma raced_plays: "plays raced_events (new_session demo_endpoint) = Some raced"
  by code_simp

lemma raced_facts: "\<not> tr_secured (se_transport raced)"
  "map (snd \<circ> snd) (se_active raced) = [Lowest_connect, Async_write Next_layer demo_request]"
  by code_simp+

text \<open>Two handlers stop a session that is in the middle of an exchange.\<close>

definition stops_events :: "event list" where
  "stops_events = Push 1 demo_request # Run_job io_fine #
     replicate 3 (Io_completes 0 io_fine) @ [Stop io_fine Yes 10, Stop io_fine Yes 11,
       Io_completes 1 io_fine, Io_completes 1 io_fine, Wait_ends]"

definition stops_done :: session where
  "stops_done = the (plays stops_events (new_session demo_endpoint))"

lemma stops_plays: "plays stops_events (new_session demo_endpoint) = Some stops_done"
  by code_simp

lemma stops_facts: "se_replies stops_done = [(10, Success)]" "se_done stops_done = []"
  "map ts_id (sb_tasks stops_done) = [1]" "running stops_done = False"
  by code_simp+

end
