(* ===== verification/Session_Stops.thy ===== *)
theory Session_Stops
  imports Session_Run "HOL-Library.Multiset"
begin

text \<open>
  No handler of a start or a stop is forgotten and none is called twice: from the moment the
  operation begins, its handler is once with the operation of the transport it waits for, with
  the timer, or among those called. What comes to rest has called it.
\<close>

section \<open>Handlers owed\<close>

fun waiter_handlers :: "waiter \<Rightarrow> nat list" where
  "waiter_handlers (For_task op) = []"
| "waiter_handlers (For_start h) = [h]"
| "waiter_handlers (For_stop h) = [h]"

definition active_handlers :: "(waiter \<times> op_point \<times> io_call) list \<Rightarrow> nat list" where
  "active_handlers as = concat (map (waiter_handlers \<circ> fst) as)"

definition owed :: "session \<Rightarrow> nat multiset" where
  "owed s = mset (active_handlers (se_active s)) + mset (sb_waits s) + mset (map fst (sb_fired s))
     + mset (map fst (se_replies s))"

definition adds :: "nat list \<Rightarrow> session \<Rightarrow> session \<Rightarrow> bool" where
  "adds hs s s' \<longleftrightarrow> se_threw s' \<or> \<not> se_threw s \<and> owed s' = mset hs + owed s"

definition awaits :: "nat \<Rightarrow> session \<Rightarrow> bool" where
  "awaits h s \<longleftrightarrow> se_threw s \<or> h \<in># owed s"

lemma active_handlers_simps [simp]:
  "active_handlers [] = []" "active_handlers ((w, p) # as) = waiter_handlers w @ active_handlers as"
  "active_handlers (as @ bs) = active_handlers as @ active_handlers bs"
  by (simp_all add: active_handlers_def)

lemma adds_trans [trans]: "adds hs s s' \<Longrightarrow> adds [] s' s'' \<Longrightarrow> adds hs s s''"
  by (auto simp: adds_def)

lemma adds_trans' [trans]: "adds [] s s' \<Longrightarrow> adds hs s' s'' \<Longrightarrow> adds hs s s''"
  by (auto simp: adds_def)

lemma adds_same:
  "se_active s' = se_active s \<Longrightarrow> sb_waits s' = sb_waits s \<Longrightarrow> sb_fired s' = sb_fired s
   \<Longrightarrow> se_replies s' = se_replies s \<Longrightarrow> se_threw s' = se_threw s \<Longrightarrow> adds [] s s'"
  by (simp add: adds_def owed_def)

lemma adds_refl [simp]: "adds [] s s"
  by (rule adds_same) simp_all

lemma adds_awaits: "adds hs s s' \<Longrightarrow> awaits h s \<or> h \<in> set hs \<Longrightarrow> awaits h s'"
  by (auto simp: adds_def awaits_def)

lemma timer_cancel_adds: "adds [] s (timer_cancel s)"
  by (simp add: adds_def owed_def timer_cancel_def comp_def)

lemma reply_adds: "adds [h] s (reply h ec s)"
  by (simp add: adds_def owed_def reply_def)

section \<open>Operations of the transport\<close>

lemma launch_adds:
  assumes k: "\<And>ec u. adds (waiter_handlers who) u (k ec u)"
    and live: "waiter_handlers who = [] \<or> snd (snd r) \<noteq> Inert"
  shows "adds (waiter_handlers who) s (launch who r k s)"
proof -
  obtain t ef p where r: "r = (t, ef, p)" by (metis prod.exhaust)
  have "adds [] s (s\<lparr>se_transport := t, se_log := se_log s @ waiter_tag who ef\<rparr>)"
    by (rule adds_same) simp_all
  from adds_trans' [OF this k] show ?thesis
    using live unfolding r by (cases p) (auto simp: adds_def owed_def)
qed

lemmas launch_task_adds = launch_adds [of "For_task op" for op, simplified]

lemma pq_complete_adds [simp]: "adds [] s (pq_complete op ec s)"
  "adds [] s (pq_complete op ec (set_running b s))"
  by (rule adds_same; simp add: pq_complete_def post_job_def set_running_def)+

lemma pq_enter_adds: "(\<And>ec u. adds [] u (body ec op u)) \<Longrightarrow> adds [] s (pq_enter body ec op s)"
  by (simp add: pq_enter_def)

lemma pq_closed_adds [simp]: "adds [] s (pq_closed ec op s)"
proof -
  have "adds [] s (post_job j s)" for j by (rule adds_same) (simp_all add: post_job_def)
  then show ?thesis by (simp add: pq_closed_def)
qed

lemma pq_processed_adds [simp]: "adds [] s (pq_processed i ec op s)"
  by (simp add: pq_processed_def Let_def launch_task_adds pq_enter_adds)

lemma pq_process_adds [simp]: "adds [] s (pq_process i op s)"
  by (simp add: pq_process_def Let_def launch_task_adds pq_enter_adds)

lemma pq_connected_adds [simp]: "adds [] s (pq_connected i ec op s)"
  by (simp add: pq_connected_def)

lemma pq_call_adds: "adds [] s (pq_call i ec op s)"
  by (simp add: pq_call_def pq_body_def pq_start_def Let_def launch_task_adds pq_enter_adds split: coro.split)

lemma process_task_adds: "adds [] s (process_task (task_run i) s)"
  by (simp add: process_task_def task_run_def pq_call_adds)

lemma stop_closed_adds: "adds [h] s (stop_closed h ec s)"
proof (cases "has_tasks s")
  case True
  have "adds [h] (timer_cancel s) (async_wait_for_tasks_cancellation h s)"
    by (simp add: async_wait_for_tasks_cancellation_def Let_def adds_def owed_def)
  with True adds_trans' [OF timer_cancel_adds] show ?thesis by (simp add: stop_closed_def)
qed (simp add: stop_closed_def reply_adds)

lemma resume_waiter_adds: "adds (waiter_handlers w) s (resume_waiter i w ec s)"
  by (cases w) (simp_all add: pq_call_adds reply_adds stop_closed_adds)

section \<open>The steps of the session\<close>

lemma next_job_adds:
  assumes "next_job i s = Some (Inr s')"
  shows "adds [] s s'"
proof -
  from assms obtain j js where j: "se_jobs s = j # js" "run_job i j (s\<lparr>se_jobs := js\<rparr>) = Inr s'"
    by (auto simp: next_job_def split: list.splits)
  have u: "adds [] s (s\<lparr>se_jobs := js\<rparr>)" by (rule adds_same) simp_all
  have "adds [] (s\<lparr>se_jobs := js\<rparr>) s'"
  proof (cases j)
    case Advance_task
    with j(2) obtain k ks where ks: "sb_tasks s = k # ks"
      by (cases "sb_tasks s") (auto simp: advance_task_def pop_task_def has_tasks_def pending_tasks_def)
    show ?thesis
    proof (cases "running s")
      case True
      have "adds [] (s\<lparr>se_jobs := js\<rparr>) (s\<lparr>se_jobs := js, sb_tasks := ks\<rparr>)"
        by (rule adds_same) simp_all
      also have "adds [] \<dots> (process_task (task_run i) (s\<lparr>se_jobs := js, sb_tasks := ks\<rparr>))"
        by (rule process_task_adds)
      finally show ?thesis
        using True j ks Advance_task by (simp add: session_task.advance_task_eq running_def)
    next
      case False
      let ?s = "(fold task_cancel ks (s\<lparr>se_jobs := js\<rparr>))\<lparr>sb_tasks := []\<rparr>"
      have "adds [] (s\<lparr>se_jobs := js\<rparr>) ?s" by (rule adds_same) (simp_all add: fold_task_cancel)
      also have "adds [] \<dots> (timer_cancel ?s)" by (rule timer_cancel_adds)
      finally show ?thesis
        using False j ks Advance_task by (auto simp: session_task.advance_task_eq running_def)
    qed
  qed (use j(2) process_task_adds pq_call_adds in auto)
  with u show ?thesis by (rule adds_trans)
qed

lemma body_live: "op_good ep c \<Longrightarrow> snd (snd (transport_body ep c i t)) \<noteq> Inert"
  using top.step_live by (metis prod.collapse)

lemma complete_io_adds:
  assumes pg: "points_good s" and n: "n < length (se_active s)"
  shows "adds [] s (complete_io n i s)"
proof -
  obtain w c q where nth: "se_active s ! n = (w, c, q)" by (metis prod.exhaust)
  let ?s = "s\<lparr>se_active := take n (se_active s) @ drop (Suc n) (se_active s)\<rparr>"
  have "(w, c, q) \<in> set (se_active s)" using n nth by (metis nth_mem)
  with pg have "op_good (se_endpoint s) c" by (auto simp: points_good_def)
  then have more: "adds (waiter_handlers w) ?s (complete_io n i s)"
    unfolding complete_io_def nth prod.case by (intro launch_adds resume_waiter_adds disjI2 body_live)
  have "active_handlers (se_active s)
      = active_handlers (take n (se_active s)) @ waiter_handlers w @ active_handlers (drop (Suc n) (se_active s))"
    using id_take_nth_drop [OF n] unfolding nth by (metis active_handlers_simps(2,3))
  then have "owed s = mset (waiter_handlers w) + owed ?s" by (simp add: owed_def)
  with more show ?thesis by (simp add: adds_def)
qed

lemma internal_adds: "internal s s' \<Longrightarrow> points_good s \<Longrightarrow> adds [] s s'"
proof (induction rule: internal.induct)
  case (expiry s)
  show ?case by (simp add: adds_def owed_def timer_expires_def comp_def)
next
  case (waited s s')
  then show ?case
    by (auto simp: next_wait_def stop_waited_def reply_def adds_def owed_def split: list.splits)
qed (auto intro: next_job_adds complete_io_adds)

lemma push_op_adds: "adds [] s (push_op h rq s)"
  by (rule adds_same) (simp_all add: push_op_def push_task_def post_job_def Let_def)

lemma set_running_adds: "adds [] s (set_running b s)"
  by (rule adds_same) (simp_all add: set_running_def)

lemma stop_op_adds: "adds [h] s (stop_op i gr h s)"
proof -
  have "adds (waiter_handlers (For_stop h)) (set_running False s) (stop_op i gr h s)"
    unfolding stop_op_def async_transport_close_def Let_def async_close_def
    by (intro launch_adds disjI2 body_live entry_points_good) (simp add: stop_closed_adds)
  with adds_trans' [OF set_running_adds] show ?thesis by simp
qed

lemma start_op_adds: "adds [h] s (start_op i h s)"
proof -
  have "adds (waiter_handlers (For_start h)) (set_running True s) (start_op i h s)"
    unfolding start_op_def async_transport_connect_def Let_def async_connect_def
    by (intro launch_adds disjI2 body_live entry_points_good) (simp add: reply_adds)
  with adds_trans' [OF set_running_adds] show ?thesis by simp
qed

text \<open>At rest, every handler has been called.\<close>

lemma at_rest_owed: "at_rest s \<Longrightarrow> owed s = mset (map fst (se_replies s))"
  by (simp add: owed_def at_rest_def)

lemma at_rest_replied: "awaits h s \<Longrightarrow> \<not> se_threw s \<Longrightarrow> at_rest s \<Longrightarrow> \<exists>ec. (h, ec) \<in> set (se_replies s)"
  by (auto simp: awaits_def at_rest_owed)

section \<open>A whole history\<close>

text \<open>The handlers of the starts and stops among the events of a history.\<close>

fun event_handlers :: "event \<Rightarrow> nat list" where
  "event_handlers (Start i h) = [h]"
| "event_handlers (Stop i gr h) = [h]"
| "event_handlers _ = []"

lemma play_adds:
  assumes "play e s = Some s'" "points_good s"
  shows "adds (event_handlers e) s s'"
proof (cases "from_user e")
  case True
  with assms(1) show ?thesis
    by (cases e) (auto simp: push_op_adds start_op_adds stop_op_adds split: if_splits)
next
  case False
  then have "event_handlers e = []" by (cases e) simp_all
  with internal_adds [OF play_internal [OF assms(1) False] assms(2)] show ?thesis by simp
qed

lemma plays_owed:
  assumes "plays es s = Some s'" "reachable ep s" "\<not> se_threw s'"
  shows "\<not> se_threw s \<and> owed s' = mset (concat (map event_handlers es)) + owed s"
  using assms(1,2)
proof (induction es arbitrary: s)
  case (Cons e es)
  from Cons.prems(1) obtain u where u: "play e s = Some u" "plays es u = Some s'"
    by (auto split: option.splits)
  have "points_good s" using reachable_inv [OF Cons.prems(2)] by (simp add: session_inv_def)
  with play_adds [OF u(1)] have "adds (event_handlers e) s u" .
  moreover have "reachable ep u" using plays_reachable [OF Cons.prems(2), of "[e]"] u(1) by simp
  ultimately show ?case using Cons.IH [OF u(2)] by (auto simp: adds_def)
qed (use assms(3) in simp)

end
