(* ===== verification/Session_Pool.thy ===== *)
theory Session_Pool
  imports Session_Stops "HOL-Library.Multiset"
begin

text \<open>
  What a client relies on of the sessions in its table, as a contract: the key it looks them
  up by, whether they still run, which requests they hold, and how pushing, stopping and
  their own steps change that. The lemmas on a whole table of sessions are proved once from it.
\<close>

section \<open>The contract\<close>

text \<open>
  \<open>holds\<close> are the requests a session was ever given, \<open>valid\<close> the states it can be in. A session
  that does not run is not started again by a push, a stop or a step of its own, and a stop
  that has begun is not forgotten.
\<close>

locale session_pool = session_key eq for eq :: "'e \<Rightarrow> 'e \<Rightarrow> bool" +
  fixes key :: "'s \<Rightarrow> 'e" and live :: "'s \<Rightarrow> bool" and holds :: "'s \<Rightarrow> nat multiset" and valid :: "'s \<Rightarrow> bool"
    and waits :: "nat \<Rightarrow> 's \<Rightarrow> bool"
    and push :: "nat \<Rightarrow> 'r \<Rightarrow> 's \<Rightarrow> 's" and stop :: "'i \<Rightarrow> 'g \<Rightarrow> nat \<Rightarrow> 's \<Rightarrow> 's"
    and step :: "'s \<Rightarrow> 's \<Rightarrow> bool"
  assumes push_holds: "holds (push h rq s) = holds s + {#h#}"
    and push_key: "key (push h rq s) = key s"
    and push_live: "live (push h rq s) \<Longrightarrow> live s"
    and push_valid: "valid s \<Longrightarrow> h \<notin># holds s \<Longrightarrow> valid (push h rq s)"
    and stop_dead: "\<not> live (stop i gr h s)"
    and stop_frame: "valid s \<Longrightarrow> valid (stop i gr h s) \<and> holds (stop i gr h s) = holds s \<and> key (stop i gr h s) = key s"
    and push_waits: "waits g s \<Longrightarrow> waits g (push h rq s)"
    and stop_waits: "waits h (stop i gr h s)"
    and stop_keeps_waits: "waits g s \<Longrightarrow> waits g (stop i gr h s)"
    and step_waits: "valid s \<Longrightarrow> step s s' \<Longrightarrow> waits g s \<Longrightarrow> waits g s'"
    and step_live: "valid s \<Longrightarrow> step s s' \<Longrightarrow> live s' \<Longrightarrow> live s"
    and step_frame: "valid s \<Longrightarrow> step s s' \<Longrightarrow> valid s' \<and> holds s' = holds s \<and> key s' = key s"
begin

lemma table_same:
  "n < length ss \<Longrightarrow> holds s = holds (ss ! n) \<Longrightarrow> sum_list (map holds (ss[n := s])) = sum_list (map holds ss)"
  using sum_list_map_update [of n ss holds s] by simp

lemma table_push:
  "n < length ss \<Longrightarrow> sum_list (map holds (ss[n := push h rq (ss ! n)])) = sum_list (map holds ss) + {#h#}"
  using sum_list_map_update [of n ss holds "push h rq (ss ! n)"] by (simp add: push_holds ac_simps)

lemma table_member: "s \<in> set ss \<Longrightarrow> holds s \<subseteq># sum_list (map holds ss)"
proof (induction ss)
  case (Cons t ss)
  then show ?case by (auto simp: subset_mset.add_increasing)
qed simp

text \<open>A request that the table holds less often than a set of distinct requests is new to all.\<close>

lemma table_new:
  assumes "distinct hs" "mset hs = sum_list (map holds ss) + M" "h \<in># M" "s \<in> set ss"
  shows "h \<notin># holds s"
proof
  assume "h \<in># holds s"
  then have "h \<in># sum_list (map holds ss)" using table_member [OF assms(4)] by (meson mset_subset_eqD)
  then have "0 < count (sum_list (map holds ss)) h" "0 < count M h" using assms(3) by simp_all
  moreover have "count (sum_list (map holds ss)) h + count M h \<le> 1"
    using assms(1,2) distinct_count_atmost_1 [of hs] by (metis count_union le_numeral_extra(4) zero_le_one)
  ultimately show False by linarith
qed

text \<open>Equal keys have the same session.\<close>

lemma table_class:
  "eq a b \<Longrightarrow> filter (\<lambda>s. eq a (key s) \<and> P s) ss = filter (\<lambda>s. eq b (key s) \<and> P s) ss"
  using eq_class [of a b] by (intro filter_cong) auto

end

section \<open>The sessions keep it\<close>

definition requests_of :: "session \<Rightarrow> nat multiset" where
  "requests_of s = mset (se_accepted s) + mset (se_rejected s)"

definition valid_session :: "session \<Rightarrow> bool" where
  "valid_session s \<longleftrightarrow> unstarted (se_endpoint s) s"

lemma valid_reachable: "valid_session s \<Longrightarrow> reachable (se_endpoint s) s"
  by (simp add: valid_session_def unstarted_reachable)

lemma requests_of_cong: "requests s = requests t \<Longrightarrow> requests_of s = requests_of t"
  by (simp add: requests_def requests_of_def)

lemma push_op_facts:
  "running (push_op h rq s) = running s" "requests_of (push_op h rq s) = requests_of s + {#h#}"
  "se_endpoint (push_op h rq s) = se_endpoint s"
  "\<not> running s \<Longrightarrow> se_rejected (push_op h rq s) = se_rejected s @ [h] \<and> se_accepted (push_op h rq s) = se_accepted s"
  by (auto simp: push_op_def push_task_def post_job_def requests_of_def running_def Let_def)

lemma push_op_valid:
  assumes "valid_session s" "h \<notin># requests_of s"
  shows "valid_session (push_op h rq s)"
  using unstarted_push [OF assms(1) [unfolded valid_session_def], of h rq] assms(2)
  by (simp add: valid_session_def push_op_facts(3) requests_of_def)

lemma stop_op_stops: "\<not> running (stop_op i gr h s)"
  using stop_op_aborts [of s i gr h] by (simp add: only_aborts_def)

lemma stop_op_keeps:
  assumes "valid_session s"
  shows "valid_session (stop_op i gr h s) \<and> requests_of (stop_op i gr h s) = requests_of s
    \<and> se_endpoint (stop_op i gr h s) = se_endpoint s"
proof -
  have r: "unstarted (se_endpoint s) (stop_op i gr h s)"
    by (rule unstarted_stop [OF assms [unfolded valid_session_def]])
  moreover have "requests_of (stop_op i gr h s) = requests_of s"
    by (rule requests_of_cong) (simp add: stop_op_def Let_def launch_requests stop_closed_requests)
  ultimately show ?thesis using reachable_endpoint [OF unstarted_reachable [OF r]] by (simp add: valid_session_def)
qed

lemma internal_keeps:
  assumes "valid_session s" "internal s s'"
  shows "valid_session s' \<and> requests_of s' = requests_of s \<and> se_endpoint s' = se_endpoint s"
proof -
  have "unstarted (se_endpoint s) s'"
    by (rule unstarted_internal_step [OF assms(1) [unfolded valid_session_def] assms(2)])
  moreover from this have "se_endpoint s' = se_endpoint s" by (rule reachable_endpoint [OF unstarted_reachable])
  ultimately show ?thesis
    using requests_of_cong [OF internal_requests [OF assms(2)]] by (simp add: valid_session_def)
qed

lemma running_before:
  assumes "reachable ep s" "internal s s'" "running s'"
  shows "running s"
  using stopped_step [OF assms(2)] reachable_history [OF assms(1)] assms(3)
  by (auto simp: history_def only_aborts_def)

lemma internal_dead: "valid_session s \<Longrightarrow> internal s s' \<Longrightarrow> running s' \<Longrightarrow> running s"
  by (rule running_before [OF valid_reachable])

lemma push_op_awaits: "awaits g s \<Longrightarrow> awaits g (push_op h rq s)"
  using adds_awaits [OF push_op_adds] by blast

lemma stop_op_keeps_awaits: "awaits g s \<Longrightarrow> awaits g (stop_op i gr h s)"
  using adds_awaits [OF stop_op_adds] by blast

lemma stop_op_awaits: "awaits h (stop_op i gr h s)"
  using adds_awaits [OF stop_op_adds] by simp

lemma internal_awaits: "valid_session s \<Longrightarrow> internal s s' \<Longrightarrow> awaits g s \<Longrightarrow> awaits g s'"
  using adds_awaits [OF internal_adds] reachable_inv [of "se_endpoint s" s]
  by (auto simp: session_inv_def dest: valid_reachable)

interpretation pool: session_pool endpoint_eq se_endpoint running requests_of valid_session awaits
    push_op stop_op internal
  by unfold_locales
    (simp_all add: push_op_facts push_op_valid stop_op_stops stop_op_keeps internal_keeps internal_dead
      push_op_awaits stop_op_awaits stop_op_keeps_awaits internal_awaits)

lemma new_session_valid: "valid_session (new_session ep)" "requests_of (new_session ep) = {#}"
  using unstarted_created [of ep] by (simp_all add: valid_session_def requests_of_def new_session_def)

end
