(* ===== verification/Session_Steady.thy ===== *)
theory Session_Steady
  imports Session_Pool
begin

text \<open>
  What a session does with its transport while it runs undisturbed: its own code never starts
  two operations at once, leaves a timer armed exactly as long as an operation is under way,
  and writes a request to a TLS stream only after the handshake. All this is for sessions on
  which nobody calls \<open>async_start\<close> (\<open>unstarted\<close>), such as those of a client.
\<close>

text \<open>
  A running session has asked for no call to be cancelled, so \<open>operation_aborted\<close> is not among
  what its calls end with, and no request is answered with it.
\<close>

definition undisturbed :: "session \<Rightarrow> bool" where
  "undisturbed s \<longleftrightarrow> running s \<and> Operation_aborted \<notin> snd ` set (se_done s)"

section \<open>The contracts of the transport's operations\<close>

fun connecting :: "op_point \<Rightarrow> io_call \<Rightarrow> transport \<Rightarrow> bool" where
  "connecting (At_connect c) q t = connect_inv c q t"
| "connecting (At_tunnel c) q t = tconn_inv c q t"
| "connecting _ q t = False"

definition connected :: "endpoint \<Rightarrow> error_code \<Rightarrow> transport \<Rightarrow> bool" where
  "connected ep ec t \<longleftrightarrow> \<not> failed ec \<longrightarrow> \<not> tr_timer t \<and> (is_secure ep \<longrightarrow> tr_secured t)"

fun exchanging :: "endpoint \<Rightarrow> op_point \<Rightarrow> io_call \<Rightarrow> transport \<Rightarrow> bool" where
  "exchanging ep (At_process rq c) q t \<longleftrightarrow> process_inv c q t \<and> (is_secure ep \<longrightarrow> tr_secured t)
     \<and> q \<noteq> Async_handshake \<and> q \<noteq> Lowest_connect"
| "exchanging ep _ q t \<longleftrightarrow> False"

definition exchanged :: "endpoint \<Rightarrow> error_code \<Rightarrow> transport \<Rightarrow> bool" where
  "exchanged ep ec t \<longleftrightarrow> \<not> tr_timer t \<and> (is_secure ep \<longrightarrow> tr_secured t)"

fun closing :: "op_point \<Rightarrow> io_call \<Rightarrow> transport \<Rightarrow> bool" where
  "closing (At_close gr c) q t \<longleftrightarrow> gr = Yes \<and> close_inv c q t"
| "closing _ q t \<longleftrightarrow> False"

definition closed :: "error_code \<Rightarrow> transport \<Rightarrow> bool" where
  "closed ec t \<longleftrightarrow> \<not> tr_timer t \<and> \<not> tr_open t"

lemmas contract_defs = connected_def exchanged_def closed_def is_secure_def

interpretation tconnecting: contract_op "transport_body ep" op_rank "op_good ep" connecting "connected ep"
  for ep
proof unfold_locales
  fix c q t i t' ef c' q' ec
  assume good: "op_good ep c" and I: "connecting c q t" and law: "io_lawful q i"
  {
    assume "transport_body ep c i (io_apply q i t) = (t', ef, Waiting c' q')"
    with good I law show "connecting c' q' t'"
      by (cases rule: op_good_cases)
        (auto simp: at_point_iffs simp del: body_simps intro: conn.inv_step tconn.inv_step)
  }
  {
    assume "transport_body ep c i (io_apply q i t) = (t', ef, Completed ec)"
    with good I law show "connected ep ec t'"
      by (cases rule: op_good_cases)
        (auto simp: at_point_iffs contract_defs connect_post_def tconn_post_def simp del: body_simps
          dest: conn.post_step tconn.post_step)
  }
qed

lemma exchange_keeps_secured:
  assumes "transport_op rq c i (io_apply q i t) = (t', ef, p)" "q \<noteq> Async_handshake"
  shows "tr_secured t' = tr_secured t"
proof -
  have "tr_secured (io_apply q i t) = tr_secured t" using assms(2) by (cases q) simp_all
  with assms(1) show ?thesis
    by (cases c) (auto simp: Let_def member_defs split: if_splits)
qed

interpretation texchanging: contract_op "transport_body ep" op_rank "op_good ep" "exchanging ep" "exchanged ep"
  for ep
proof unfold_locales
  fix c q t i t' ef c' q' ec
  assume good: "op_good ep c" and I: "exchanging ep c q t" and law: "io_lawful q i"
  from good I obtain rq d where c: "c = At_process rq d" "process_good d" "process_inv d q t"
    by (cases rule: op_good_cases) auto
  {
    assume "transport_body ep c i (io_apply q i t) = (t', ef, Waiting c' q')"
    then obtain d' where s: "c' = At_process rq d'" "transport_op rq d i (io_apply q i t) = (t', ef, Waiting d' q')"
      by (cases ep) (auto simp: c at_point_iffs simp del: body_simps)
    have "process_inv d' q' t'" by (rule proc.inv_step [OF c(2,3) law s(2)])
    moreover have "q' \<noteq> Async_handshake \<and> q' \<noteq> Lowest_connect"
      using s(2) by (cases d) (auto simp: Let_def split: if_splits)
    ultimately show "exchanging ep c' q' t'"
      using I exchange_keeps_secured [OF s(2)] by (simp add: c s)
  }
  {
    assume "transport_body ep c i (io_apply q i t) = (t', ef, Completed ec)"
    then have s: "transport_op rq d i (io_apply q i t) = (t', ef, Completed ec)"
      by (cases ep) (auto simp: c at_point_iffs simp del: body_simps)
    show "exchanged ep ec t'"
      using I proc.post_step [OF c(2,3) law s] exchange_keeps_secured [OF s]
      by (simp add: c process_post_def exchanged_def)
  }
qed

interpretation tclosing: contract_op "transport_body ep" op_rank "op_good ep" closing closed
  for ep
proof unfold_locales
  fix c q t i t' ef c' q' ec
  assume good: "op_good ep c" and I: "closing c q t" and law: "io_lawful q i"
  {
    assume "transport_body ep c i (io_apply q i t) = (t', ef, Waiting c' q')"
    with good I law show "closing c' q' t'"
      by (cases rule: op_good_cases; cases ep)
        (auto simp: at_point_iffs simp del: body_simps intro: clos.inv_step tclos.inv_step)
  }
  {
    assume "transport_body ep c i (io_apply q i t) = (t', ef, Completed ec)"
    with good I law show "closed ec t'"
      by (cases rule: op_good_cases; cases ep)
        (auto simp: at_point_iffs contract_defs close_post_def tclose_post_def simp del: body_simps
          dest: clos.post_step tclos.post_step)
  }
qed

text \<open>How each of them begins.\<close>

lemma connect_begins:
  "async_connect ep i t = (t', ef, p) \<Longrightarrow> \<exists>c q. p = Waiting c q \<and> connecting c q t'"
  by (cases ep) (auto simp: async_connect_eq Let_def member_defs)

lemma close_begins:
  "async_close ep Yes i t = (t', ef, p) \<Longrightarrow> \<exists>c q. p = Waiting c q \<and> closing c q t'"
  by (cases ep) (auto simp: async_close_eq Let_def member_defs split: if_splits)

lemma exchange_begins:
  assumes "async_process_one ep rq i t = (t', ef, p)" "is_secure ep \<longrightarrow> tr_secured t"
  shows "p = Completed Operation_aborted \<or> (\<exists>c q. p = Waiting c q \<and> exchanging ep c q t')"
  using assms by (auto simp: async_process_one_eq process_entry member_defs simp del: transport_op.simps split: if_splits)

section \<open>The invariant\<close>

text \<open>With no operation under way the timer is disarmed, and an open TLS stream is ready for use.\<close>

definition idle :: "session \<Rightarrow> bool" where
  "idle s \<longleftrightarrow> \<not> tr_timer (se_transport s)
     \<and> (is_secure (se_endpoint s) \<longrightarrow> is_open s \<longrightarrow> tr_secured (se_transport s))"

text \<open>The operation a task waits for, by the resume point of the task.\<close>

fun attended :: "endpoint \<Rightarrow> waiter \<times> op_point \<times> io_call \<Rightarrow> transport \<Rightarrow> bool" where
  "attended ep (For_task op, c, q) t =
     (case pq_coro op of
        Entry \<Rightarrow> False
      | Yield1 \<Rightarrow> connecting c q t
      | Yield2 \<Rightarrow> exchanging ep c q t
      | Yield3 \<Rightarrow> closing c q t)"
| "attended ep _ t = False"

text \<open>
  Either nothing is under way, or one operation, on behalf of a task. An exception that left
  the task's handler has taken the task with it: nothing moves the queue any more.
\<close>

definition steady :: "session \<Rightarrow> bool" where
  "steady s \<longleftrightarrow>
     (if se_threw s then se_active s = [] \<and> se_jobs s = [] \<and> sb_tasks s \<noteq> []
      else case se_active s of [] \<Rightarrow> idle s | [a] \<Rightarrow> attended (se_endpoint s) a (se_transport s) | _ \<Rightarrow> False)"

text \<open>The situation inside a step of a task's operation.\<close>

definition held :: "session \<Rightarrow> bool" where
  "held s \<longleftrightarrow> \<not> se_threw s \<and> se_active s = [] \<and> se_jobs s = [] \<and> sb_tasks s \<noteq> []"

definition settles :: "session \<Rightarrow> bool" where
  "settles s \<longleftrightarrow> (undisturbed s \<longrightarrow> steady s)"

lemmas steady_defs = steady_def held_def settles_def undisturbed_def idle_def is_open_def

lemma settles_stopped: "\<not> running s \<Longrightarrow> settles s"
  by (simp add: settles_def undisturbed_def)

lemma running_simps [simp]:
  "running (set_running b s) = b" "running (pq_complete op ec s) = running s"
  by (simp_all add: running_def set_running_def pq_complete_def post_job_def)

lemma complete_settles:
  "held s \<Longrightarrow> running s \<Longrightarrow> idle s \<or> ec = Operation_aborted \<Longrightarrow> settles (pq_complete op ec s)"
  by (auto simp: steady_defs pq_complete_def post_job_def)

lemma enter_settles:
  assumes "held s" "running s \<Longrightarrow> ec \<noteq> Operation_aborted \<Longrightarrow> settles (body ec op s)"
  shows "settles (pq_enter body ec op s)"
  using assms complete_settles [of s Operation_aborted op] settles_stopped
  by (cases "running s") (auto simp: pq_enter_def)

text \<open>
  Starting or resuming an operation for a task: it waits as the task's resume point says, its
  completion settles, or an exception escapes.
\<close>

lemma launch_settles:
  assumes s: "held s"
    and waits: "\<And>t ef c q. r = (t, ef, Waiting c q) \<Longrightarrow> attended (se_endpoint s) (For_task op, c, q) t"
    and ends: "\<And>t ef ec s'. r = (t, ef, Completed ec) \<Longrightarrow> held s' \<Longrightarrow> se_transport s' = t
      \<Longrightarrow> se_endpoint s' = se_endpoint s \<Longrightarrow> running s' = running s \<Longrightarrow> settles (k ec s')"
    and live: "outcome_good (se_endpoint s) r"
  shows "settles (launch (For_task op) r k s)"
proof (cases r)
  case (fields t ef p)
  let ?s = "s\<lparr>se_transport := t, se_log := se_log s @ waiter_tag (For_task op) ef\<rparr>"
  have h: "held ?s" using s by (simp add: held_def)
  show ?thesis
  proof (cases p)
    case (Waiting c q)
    with waits fields s show ?thesis by (auto simp: steady_defs)
  next
    case (Completed ec)
    with ends [OF _ h] fields show ?thesis by (simp add: running_def)
  next
    case Threw
    with fields s show ?thesis by (simp add: steady_defs)
  next
    case Inert
    with fields live show ?thesis by (simp add: outcome_good_def)
  qed
qed

lemma closed_settles:
  assumes "held s" "running s" "closed ec (se_transport s)"
  shows "settles (pq_closed ec op s)"
proof (cases "pq_first_round op")
  case True
  with assms show ?thesis by (simp add: pq_closed_def steady_defs closed_def post_job_def)
qed (simp add: pq_closed_def settles_stopped)

lemma processed_settles:
  assumes "held s" "running s" "exchanged (se_endpoint s) ec (se_transport s)"
  shows "settles (pq_processed i ec op s)"
proof (cases "failed ec")
  case True
  show ?thesis unfolding pq_processed_def Let_def if_P [OF True]
  proof (rule launch_settles [OF assms(1)])
    fix t ef ec' s'
    assume "async_close (se_endpoint s) Yes i (se_transport s) = (t, ef, Completed ec')"
    from close_begins [OF this]
    show "settles (pq_enter pq_closed ec' (op\<lparr>pq_last_ec := ec, pq_coro := Yield3\<rparr>) s')" by simp
  qed (auto dest: close_begins)
next
  case False
  then show ?thesis using assms by (simp add: pq_processed_def complete_settles idle_def exchanged_def)
qed

lemma process_settles:
  assumes "held s" "running s" "is_secure (se_endpoint s) \<longrightarrow> tr_secured (se_transport s)"
  shows "settles (pq_process i op s)"
  unfolding pq_process_def Let_def
proof (rule launch_settles [OF assms(1)])
  fix t ef ec s'
  assume r: "async_process_one (se_endpoint s) (ts_request (pq_task op)) i (se_transport s) = (t, ef, Completed ec)"
    and s': "held s'"
  have "ec = Operation_aborted" using exchange_begins [OF r assms(3)] by simp
  then show "settles (pq_enter (pq_processed i) ec (op\<lparr>pq_coro := Yield2\<rparr>) s')"
    by (intro enter_settles [OF s']) simp
qed (use assms(3) in \<open>auto dest: exchange_begins\<close>)

lemma connected_settles:
  assumes "held s" "running s" "connected (se_endpoint s) ec (se_transport s)"
  shows "settles (pq_connected i ec op s)"
  using assms process_settles [of s i op] settles_stopped by (auto simp: pq_connected_def connected_def)

lemma start_settles:
  assumes "held s" "running s" "idle s"
  shows "settles (pq_start i op s)"
proof (cases "is_open s")
  case True
  then show ?thesis using assms by (simp add: pq_start_def process_settles idle_def)
next
  case False
  have "settles (launch (For_task (op\<lparr>pq_coro := Yield1\<rparr>)) (async_connect (se_endpoint s) i (se_transport s))
      (\<lambda>ec. pq_enter (pq_connected i) ec (op\<lparr>pq_coro := Yield1\<rparr>)) s)"
  proof (rule launch_settles [OF assms(1)])
    fix t ef ec s'
    assume "async_connect (se_endpoint s) i (se_transport s) = (t, ef, Completed ec)"
    from connect_begins [OF this]
    show "settles (pq_enter (pq_connected i) ec (op\<lparr>pq_coro := Yield1\<rparr>) s')" by simp
  qed (auto dest: connect_begins)
  with False assms(2) show ?thesis by (simp add: pq_start_def Let_def)
qed

text \<open>What each resume point of a task relies on.\<close>

definition resumable :: "process_queue_op \<Rightarrow> error_code \<Rightarrow> session \<Rightarrow> bool" where
  "resumable op ec s \<longleftrightarrow>
     (case pq_coro op of
        Entry \<Rightarrow> idle s
      | Yield1 \<Rightarrow> connected (se_endpoint s) ec (se_transport s)
      | Yield2 \<Rightarrow> exchanged (se_endpoint s) ec (se_transport s)
      | Yield3 \<Rightarrow> closed ec (se_transport s))"

lemma call_settles:
  assumes "held s" "resumable op ec s"
  shows "settles (pq_call i ec op s)"
  unfolding pq_call_def
proof (rule enter_settles [OF assms(1)])
  assume "running s"
  with assms show "settles (pq_body i ec op s)"
    by (cases "pq_coro op")
      (simp_all add: pq_body_def resumable_def start_settles connected_settles processed_settles closed_settles)
qed

lemma task_run_settles: "held s \<Longrightarrow> idle s \<Longrightarrow> settles (task_run i k s)"
  by (simp add: task_run_def call_settles resumable_def)

section \<open>Every step keeps it\<close>

lemma steady_job:
  assumes st: "steady s" and inv: "session_inv s" and js: "se_jobs s = j # js"
  shows "js = [] \<and> \<not> se_threw s \<and> se_active s = [] \<and> idle s \<and> sb_tasks s \<noteq> []"
proof -
  have ok: "\<not> se_threw s" using st js by (auto simp: steady_def)
  with inv js have c: "map job_driver js @ active_drivers (se_active s) = []" "sb_tasks s \<noteq> []"
    by (cases j; auto simp: session_inv_def drivers_def)+
  have "se_active s = []"
  proof (cases "se_active s")
    case (Cons a as)
    with st ok have "attended (se_endpoint s) a (se_transport s)"
      by (auto simp: steady_def split: list.splits)
    then obtain op d q where "a = (For_task op, d, q)" by (auto elim: attended.elims)
    with c Cons show ?thesis by simp
  qed
  with c st ok show ?thesis by (simp add: steady_def)
qed

lemma next_job_settles:
  assumes st: "steady s" and inv: "session_inv s" and m: "matched s" and n: "next_job i s = Some (Inr s')"
  shows "settles s'"
proof -
  from n obtain j js where js: "se_jobs s = j # js" and r: "run_job i j (s\<lparr>se_jobs := js\<rparr>) = Inr s'"
    by (auto simp: next_job_def split: list.splits)
  note facts = steady_job [OF st inv js]
  let ?s = "s\<lparr>se_jobs := []\<rparr>"
  have h: "held ?s" "idle ?s" using facts by (simp_all add: held_def idle_def is_open_def)
  show ?thesis
  proof (cases j)
    case Process_task
    with r facts h task_run_settles [OF h] show ?thesis
      by (auto simp: process_task_def has_tasks_def pending_tasks_def)
  next
    case Advance_task
    obtain k ks where ks: "sb_tasks s = k # ks" using facts by (cases "sb_tasks s") auto
    let ?t = "?s\<lparr>sb_tasks := ks\<rparr>"
    show ?thesis
    proof (cases "running s")
      case True
      with r Advance_task facts ks have s': "s' = process_task (task_run i) ?t"
        by (simp add: session_task.advance_task_eq running_def)
      show ?thesis
      proof (cases ks)
        case Nil
        with h facts st show ?thesis by (simp add: s' process_task_def has_tasks_def pending_tasks_def steady_defs)
      next
        case (Cons k' ks')
        then have "held ?t" "idle ?t" using h by (simp_all add: held_def idle_def is_open_def)
        with Cons task_run_settles [of ?t i k'] show ?thesis
          by (simp add: s' process_task_def has_tasks_def pending_tasks_def)
      qed
    next
      case False
      with r Advance_task facts ks have "\<not> running s'"
        by (auto simp: session_task.advance_task_eq running_def timer_cancel_def fold_task_cancel)
      then show ?thesis by (rule settles_stopped)
    qed
  next
    case (Run_op op)
    then have "Run_op op \<in> set (se_jobs s)" using js by simp
    with m have "pq_coro op = Entry" unfolding matched_def by blast
    with h(2) have "resumable op Success ?s" by (simp add: resumable_def)
    then have "settles (pq_call i Success op ?s)" by (rule call_settles [OF h(1)])
    then show ?thesis using r facts Run_op by simp
  qed
qed

lemma attended_waits:
  assumes a: "attended ep (For_task op, c, q) t" and good: "op_good ep c" and law: "io_lawful q i"
    and step: "transport_body ep c i (io_apply q i t) = (t', ef, Waiting c' q')"
  shows "attended ep (For_task op, c', q') t'"
  using a tconnecting.inv_step [OF good _ law step] texchanging.inv_step [OF good _ law step]
    tclosing.inv_step [OF good _ law step]
  by (simp split: coro.splits)

lemma attended_ends:
  assumes a: "attended ep (For_task op, c, q) t" and good: "op_good ep c" and law: "io_lawful q i"
    and step: "transport_body ep c i (io_apply q i t) = (t', ef, Completed ec)"
    and s: "se_endpoint s = ep" "se_transport s = t'"
  shows "resumable op ec s"
  using a s tconnecting.post_step [OF good _ law step] texchanging.post_step [OF good _ law step]
    tclosing.post_step [OF good _ law step]
  by (simp add: resumable_def split: coro.splits)

lemma complete_io_settles:
  assumes st: "steady s" and inv: "session_inv s" and n: "n < length (se_active s)"
    and law: "io_lawful (snd (snd (se_active s ! n))) i"
  shows "settles (complete_io n i s)"
proof -
  have ok: "\<not> se_threw s" using st n by (auto simp: steady_def)
  with st n obtain op c q where act: "se_active s = [(For_task op, c, q)]"
    and att: "attended (se_endpoint s) (For_task op, c, q) (se_transport s)"
    by (auto simp: steady_def split: list.splits elim: attended.elims)
  have zero: "n = 0" using n act by simp
  have good: "op_good (se_endpoint s) c" using inv act by (simp add: session_inv_def points_good_def)
  have "se_jobs s = [] \<and> sb_tasks s \<noteq> []" using inv ok act by (auto simp: session_inv_def drivers_def)
  with ok have h: "held (s\<lparr>se_active := []\<rparr>)" by (simp add: held_def)
  note law' = law [unfolded zero act, simplified]
  have "settles (launch (For_task op) (transport_body (se_endpoint s) c i (io_apply q i (se_transport s)))
      (resume_waiter i (For_task op)) (s\<lparr>se_active := []\<rparr>))"
  proof (rule launch_settles [OF h])
    fix t ef ec s'
    assume "transport_body (se_endpoint s) c i (io_apply q i (se_transport s)) = (t, ef, Completed ec)"
      and "held s'" "se_transport s' = t" "se_endpoint s' = se_endpoint (s\<lparr>se_active := []\<rparr>)"
    then show "settles (resume_waiter i (For_task op) ec s')"
      using attended_ends [OF att good law'] by (simp add: call_settles)
  qed (use attended_waits [OF att good law'] body_outcome_good [OF good] in auto)
  then show ?thesis by (simp add: complete_io_def act zero)
qed

lemma steady_frame:
  assumes "steady s" "se_threw s' = se_threw s" "se_active s' = se_active s"
    "se_transport s' = se_transport s" "se_endpoint s' = se_endpoint s"
    and "se_threw s \<Longrightarrow> se_jobs s' = [] \<and> sb_tasks s' \<noteq> []"
  shows "steady s'"
  using assms by (cases "se_threw s") (auto simp: steady_def idle_def is_open_def split: list.splits)

lemma internal_settles:
  assumes "internal s s'" "steady s" "session_inv s" "matched s"
  shows "settles s'"
  using assms
proof (induction rule: internal.induct)
  case (expiry s)
  have "steady (timer_expires s)"
    by (rule steady_frame [OF expiry.prems(1)])
      (use expiry.prems(1) in \<open>simp_all add: timer_expires_def steady_def\<close>)
  then show ?case by (simp add: settles_def)
next
  case (waited s s')
  then obtain h ec ws where s': "s' = stop_waited h ec (s\<lparr>sb_fired := ws\<rparr>)"
    by (auto simp: next_wait_def split: list.splits)
  have "steady s'"
    by (rule steady_frame [OF waited.prems(1)])
      (use waited.prems(1) in \<open>simp_all add: s' stop_waited_def reply_def steady_def\<close>)
  then show ?case by (simp add: settles_def)
qed (auto intro: next_job_settles complete_io_settles)

lemma push_steady:
  assumes "steady s"
  shows "steady (push_op h rq s)"
  by (rule steady_frame [OF assms])
    (use assms in \<open>auto simp: push_op_def push_task_def post_job_def pending_tasks_def steady_def
      Let_def\<close>)

lemma undisturbed_before:
  assumes "reachable ep s" "internal s s'" "undisturbed s'"
  shows "undisturbed s"
proof -
  have "prefix (se_done s) (se_done s')"
    using internal_grows [OF assms(2)] reachable_inv [OF assms(1)] by (simp add: grows_def session_inv_def)
  then show ?thesis using assms(3) running_before [OF assms(1,2)] by (auto simp: undisturbed_def prefix_def)
qed

theorem unstarted_settles: "unstarted ep s \<Longrightarrow> settles s"
proof (induction rule: unstarted.induct)
  case unstarted_created
  then show ?case by (simp add: steady_defs new_session_def new_transport_def)
next
  case (unstarted_internal_step s s')
  note r = unstarted_reachable [OF unstarted_internal_step.hyps(1)]
  show ?case
  proof (cases "undisturbed s'")
    case True
    then show ?thesis
      using internal_settles unstarted_internal_step undisturbed_before [OF r] reachable_history [OF r]
      by (auto simp: settles_def history_def)
  qed (simp add: settles_def)
next
  case (unstarted_push s h rq)
  then show ?case
    by (auto simp: settles_def push_steady)
      (simp add: undisturbed_def push_op_def push_task_def post_job_def running_def Let_def split: if_splits)
next
  case (unstarted_stop s i gr h)
  then show ?case using stop_op_stops settles_stopped by blast
qed

section \<open>What the invariant says\<close>

lemma attended_timer: "attended ep a t \<Longrightarrow> tr_timer t"
proof (induction ep a t rule: attended.induct)
  case (1 ep op c q t)
  have "connecting c q t \<Longrightarrow> tr_timer t"
    by (cases "(c, q, t)" rule: connecting.cases) (auto elim: connect_inv.elims tconn_inv.elims)
  moreover have "exchanging ep c q t \<Longrightarrow> tr_timer t"
    by (cases "(ep, c, q, t)" rule: exchanging.cases) (auto elim: process_inv.elims)
  moreover have "closing c q t \<Longrightarrow> tr_timer t"
    by (cases "(c, q, t)" rule: closing.cases) (auto elim: close_inv.elims)
  ultimately show ?case using 1 by (simp split: coro.splits)
qed simp_all

lemma attended_secured: "attended ep (w, c, q) t \<Longrightarrow> moves_message q \<Longrightarrow> is_secure ep \<Longrightarrow> tr_secured t"
proof (induction ep "(w, c, q)" t rule: attended.induct)
  case (1 ep op t)
  have "connecting c q t \<Longrightarrow> \<not> moves_message q"
    by (cases "(c, q, t)" rule: connecting.cases) (auto elim: connect_inv.elims tconn_inv.elims)
  moreover have "closing c q t \<Longrightarrow> \<not> moves_message q"
    by (cases "(c, q, t)" rule: closing.cases) (auto elim: close_inv.elims)
  moreover have "exchanging ep c q t \<Longrightarrow> is_secure ep \<Longrightarrow> tr_secured t"
    by (cases "(ep, c, q, t)" rule: exchanging.cases) auto
  ultimately show ?case using 1 by (auto split: coro.splits)
qed auto

lemma undisturbed_steady: "unstarted ep s \<Longrightarrow> undisturbed s \<Longrightarrow> steady s"
  using unstarted_settles by (simp add: settles_def)

lemma one_operation:
  assumes "unstarted ep s" "undisturbed s"
  shows "length (se_active s) \<le> 1"
  using undisturbed_steady [OF assms] by (auto simp: steady_def split: list.splits if_splits)

lemma timer_iff_busy:
  assumes "unstarted ep s" "undisturbed s" "\<not> se_threw s"
  shows "tr_timer (se_transport s) \<longleftrightarrow> se_active s \<noteq> []"
  using undisturbed_steady [OF assms(1,2)] assms(3)
  by (auto simp: steady_def idle_def split: list.splits dest: attended_timer)

lemma message_secured:
  assumes "unstarted ep s" "undisturbed s" "is_secure ep" "(w, c, q) \<in> set (se_active s)" "moves_message q"
  shows "tr_secured (se_transport s)"
  using undisturbed_steady [OF assms(1,2)] assms(3-5) reachable_endpoint [OF unstarted_reachable [OF assms(1)]]
  by (auto simp: steady_def split: list.splits if_splits dest: attended_secured)

end
