(* ===== verification/Session_Properties.thy ===== *)
theory Session_Properties
  imports Session_Dialogue Session_Steady Session_Stops
begin

text \<open>
  The properties of the session, for every reachable state: whatever the user pushes, starts
  and stops, whatever the I/O layer answers, and in whatever order the pending completions
  arrive.
\<close>

text \<open>
  C1. The session implements the abstract queue: every step, its own or one of its user, is a
  sequence of steps that accept a request at the back and answer the request at the front.
\<close>

theorem session_refines_queue:
  assumes "reachable ep s" "internal s s' \<or> user s s'" "\<not> se_threw s'"
  shows "queue_step\<^sup>*\<^sup>* (abs_queue s) (abs_queue s')"
proof -
  have inv: "session_inv s" by (rule reachable_inv [OF assms(1)])
  show ?thesis using assms(2)
  proof
    assume "internal s s'"
    then have "grows s s'" "session_inv s'" "se_accepted s' = se_accepted s"
      using inv internal_grows internal_inv internal_requests
      by (auto simp: session_inv_def requests_def)
    with inv assms(3) show ?thesis by (intro grows_refines)
  next
    assume u: "user s s'"
    then have g: "grows s s'" "session_inv s'" using user_grows user_inv inv by auto
    then have ok: "\<not> se_threw s" using assms(3) by (auto simp: grows_def)
    from u show ?thesis
    proof cases
      case (push h rq)
      with push_refines [OF inv ok] show ?thesis by simp
    next
      case (start i h)
      show ?thesis by (rule grows_refines [OF inv g(2,1) assms(3)]) (simp add: start start_stop_accept)
    next
      case (stop i gr h)
      show ?thesis by (rule grows_refines [OF inv g(2,1) assms(3)]) (simp add: stop start_stop_accept)
    qed
  qed
qed

theorem session_refines_queue_witness:
  "queue_step\<^sup>*\<^sup>* (abs_queue (new_session demo_endpoint))
     (abs_queue (push_op 1 demo_request (new_session demo_endpoint)))"
  by (rule session_refines_queue [OF created disjI2 [OF push]])
    (simp_all add: new_session_def push_op_def push_task_def post_job_def Let_def)

text \<open>
  C7. Requests are answered in the order they were accepted and none is answered twice: the
  answers are those of the oldest requests, each with its own handler.
\<close>

theorem answers_in_order:
  assumes "reachable ep s" "\<not> se_threw s"
  shows "prefix (map fst (se_done s)) (se_accepted s) \<and> distinct (map fst (se_done s))"
proof -
  have "map fst (se_done s) @ waiting s = se_accepted s"
    by (rule answered_waiting [OF reachable_inv [OF assms(1)] assms(2)])
  moreover have "distinct (se_accepted s)"
    using reachable_history [OF assms(1)] by (simp add: history_def)
  ultimately show ?thesis by (metis distinct_append prefixI)
qed

theorem answers_in_order_witness:
  "prefix (map fst (se_done demo_done)) (se_accepted demo_done) \<and> distinct (map fst (se_done demo_done))"
  by (rule answers_in_order [OF demo_reachable]) (simp add: demo_facts)

text \<open>
  C12. The session cannot run for ever by itself: from any reachable state, the number of steps
  it takes without its user is bounded by \<open>work\<close>, which counts the calls still to be made.
\<close>

theorem session_settles:
  assumes "reachable ep s" "(internal ^^ n) s s'"
  shows "n \<le> work s"
  using internal_run_bounded [OF assms(2) reachable_inv [OF assms(1)]] by simp

theorem session_settles_witness:
  "1 \<le> work (push_op 1 demo_request (new_session demo_endpoint))"
proof (rule session_settles [OF demo_pushed_reachable])
  let ?s = "push_op 1 demo_request (new_session demo_endpoint)" and ?e = "Run_job io_fine"
  have "play ?e ?s \<noteq> None" by code_simp
  then have "play ?e ?s = Some (the (play ?e ?s))" by auto
  then have "internal ?s (the (play ?e ?s))" by (rule play_internal) simp
  then show "(internal ^^ 1) ?s (the (play ?e ?s))" by (subst relpowp_1)
qed

text \<open>
  C9. Nothing accepted is forgotten: when a session that was left to itself can do nothing more,
  and no exception has left a handler, its queue is empty and every request it ever accepted
  has been answered.
\<close>

theorem all_answered:
  assumes "reachable ep s" "internal\<^sup>*\<^sup>* s s'" "\<not> (\<exists>t. internal s' t)" "\<not> se_threw s'"
  shows "sb_tasks s' = [] \<and> map fst (se_done s') = se_accepted s"
  by (rule stuck_answered [OF reachable_inv [OF assms(1)] assms(2-4)])

theorem all_answered_witness:
  "sb_tasks demo_done = [] \<and>
   map fst (se_done demo_done) = se_accepted (push_op 1 demo_request (new_session demo_endpoint))"
  by (rule all_answered [OF demo_pushed_reachable demo_internal])
    (simp_all add: at_rest_stuck demo_facts)



text \<open>
  C23. The step to the next task never pops an empty queue, and its loop that cancels the
  remaining tasks ends: a posted function always completes normally.
\<close>

theorem next_job_total:
  assumes "reachable ep s" "\<not> se_threw s" "next_job i s = Some r"
  shows "\<exists>s'. r = Inr s'"
  by (rule next_job_defined [OF reachable_inv [OF assms(1)] assms(2,3)])

theorem next_job_total_witness:
  "\<exists>s'. the (next_job io_fine (push_op 1 demo_request (new_session demo_endpoint))) = Inr s'"
proof (rule next_job_total [OF demo_pushed_reachable])
  show "\<not> se_threw (push_op 1 demo_request (new_session demo_endpoint))" by code_simp
  have "next_job io_fine (push_op 1 demo_request (new_session demo_endpoint)) \<noteq> None" by code_simp
  then show "next_job io_fine (push_op 1 demo_request (new_session demo_endpoint)) =
      Some (the (next_job io_fine (push_op 1 demo_request (new_session demo_endpoint))))" by auto
qed

text \<open>
  C14. A request is written to the connection at most twice, and one that was answered without
  an error got a response, which was stored.
\<close>

theorem sent_at_most_twice:
  assumes "reachable ep s" "\<not> se_threw s"
  shows "sends h (se_log s) \<le> 2
    \<and> ((h, ec) \<in> set (se_done s) \<and> \<not> failed ec \<longrightarrow> responded h (se_log s))"
proof -
  have "answers_ok s" "sends h (se_log s) \<le> allowance s h"
    using reachable_history [OF assms(1)] assms(2) by (auto simp: history_def)
  with allowance_le [of s h] show ?thesis by (auto simp: answers_ok_def)
qed

theorem sent_at_most_twice_witness:
  "sends 1 (se_log lost_done) \<le> 2 \<and> responded 1 (se_log lost_done)"
  using sent_at_most_twice [OF lost_reachable lost_facts(3), of 1 Success] by (simp add: lost_facts)

text \<open>
  C8. Responses are never mixed up: a response that was stored for a request is the answer to the
  last message written before it, which is that request, as it was pushed, written for the same
  task. Between the two nothing is written and no other response is stored.
\<close>

theorem responses_match_requests:
  assumes "serving R ep s" "\<not> se_threw s" "se_log s = pre @ (h, Response_assigned Next_layer st) # post"
  shows "\<exists>pre' mid. pre = pre' @ (h, Issue (Async_write Next_layer (R h))) # mid
    \<and> (\<forall>(j, e) \<in> set mid. \<not> is_send e \<and> \<not> is_response e)"
proof -
  have "dialogue R None (se_log s)" using serving_polite [OF assms(1)] assms(2) by (simp add: polite_def in_dialogue_def)
  from response_answers [OF this [unfolded assms(3)]] show ?thesis by (fastforce simp: silent_def)
qed

definition demo_before_response :: "(nat \<times> effect) list" where
  "demo_before_response = takeWhile (\<lambda>(j, e). \<not> is_response e) (se_log demo_done)"

theorem responses_match_requests_witness:
  "(1, Issue (Async_write Next_layer demo_request)) \<in> set demo_before_response"
proof -
  have "serving (\<lambda>_. demo_request) demo_endpoint (push_op 1 demo_request (new_session demo_endpoint))"
    using serving_push [OF serving_created, of 1 demo_endpoint "\<lambda>_. demo_request"] by (simp add: new_session_def)
  then have s: "serving (\<lambda>_. demo_request) demo_endpoint demo_done" by (rule serving_run [OF _ demo_internal])
  have "se_log demo_done = demo_before_response @ (1, Response_assigned Next_layer 200) # []"
    unfolding demo_before_response_def by code_simp
  from responses_match_requests [OF s _ this] obtain pre' mid
    where eq: "demo_before_response = pre' @ (1, Issue (Async_write Next_layer demo_request)) # mid"
    by (auto simp: demo_facts)
  show ?thesis unfolding eq by simp
qed




text \<open>
  The bound of two writes is reached on a connection that was made for this very request: the
  session sends it a second time although nothing was reused.
\<close>

theorem first_connection_retried:
  "\<exists>s. reachable demo_endpoint s \<and> se_accepted s = [1] \<and> se_done s = [(1, Success)]
    \<and> sends 1 (se_log s) = 2"
  using lost_reachable lost_facts by blast

text \<open>
  C16. No request is written before its turn: one that is neither answered nor at the front of
  the queue has not been sent, in particular one the session never accepted.
\<close>

theorem no_request_overtakes:
  assumes "reachable ep s" "\<not> se_threw s" "h \<notin> fst ` set (se_done s)"
    and "waiting s = [] \<or> h \<noteq> hd (waiting s)"
  shows "sends h (se_log s) = 0"
proof -
  have "history s" by (rule reachable_history [OF assms(1)])
  with assms(2) have h: "sends h (se_log s) \<le> allowance s h" "session_inv s" "distinct (se_accepted s)"
    by (auto simp: history_def)
  have "allowance s h = 0"
    by (rule not_its_turn [OF h(2) assms(2) h(3)]) (use assms(3,4) in \<open>simp_all add: answered_def\<close>)
  with h(1) show ?thesis by simp
qed

theorem no_request_overtakes_witness: "sends 2 (se_log demo_done) = 0"
  by (rule no_request_overtakes [OF demo_reachable])
    (simp_all add: demo_facts)




definition stopped_events :: "event list" where
  "stopped_events = [Start io_fine 8, Stop io_fine Yes 9] @ replicate 4 (Io_completes 0 io_fine)"


text \<open>
  A stop does not hold a connection attempt whose resolver has just answered: connecting never asks
  whether the transport still runs. The stop reports success while the attempt goes on, and by
  then has disarmed its deadline; the attempt may succeed and leave a connection in a stopped session.
\<close>

lemma stop_misses_connect:
  "\<exists>s. reachable demo_endpoint s \<and> se_replies s = [(9, Success)] \<and> \<not> running s
    \<and> map (snd \<circ> snd) (se_active s) = [Lowest_connect] \<and> \<not> tr_timer (se_transport s)"
  "\<exists>s. reachable demo_endpoint s \<and> se_replies s = [(9, Success), (8, Success)] \<and> \<not> running s \<and> is_open s"
proof -
  have 1: "plays (take 4 stopped_events) (new_session demo_endpoint)
      = Some (the (plays (take 4 stopped_events) (new_session demo_endpoint)))"
    and 2: "plays stopped_events (new_session demo_endpoint)
      = Some (the (plays stopped_events (new_session demo_endpoint)))" by code_simp+
  show "\<exists>s. reachable demo_endpoint s \<and> se_replies s = [(9, Success)] \<and> \<not> running s
      \<and> map (snd \<circ> snd) (se_active s) = [Lowest_connect] \<and> \<not> tr_timer (se_transport s)"
    by (intro exI conjI, rule plays_reachable [OF created 1]) code_simp+
  show "\<exists>s. reachable demo_endpoint s \<and> se_replies s = [(9, Success), (8, Success)] \<and> \<not> running s \<and> is_open s"
    by (intro exI conjI, rule plays_reachable [OF created 2]) code_simp+
qed

text \<open>
  Two handlers that stop the same session: arming the timer for the second one ends the
  wait of the first one, which is told that the session has stopped while its task is still
  in the queue and unanswered.
\<close>

theorem second_stop_hastens_first:
  "\<exists>s. reachable demo_endpoint s \<and> se_replies s = [(10, Success)]
    \<and> map ts_id (sb_tasks s) = [1] \<and> se_done s = []"
  by (intro exI [of _ stops_done] conjI plays_reachable [OF created stops_plays] stops_facts)

text \<open>
  The executable steps are the steps of the session: an event that is enabled performs
  one, and every step is performed by an event.
\<close>

theorem play_equals_steps:
  "(internal s s' \<longleftrightarrow> (\<exists>e. \<not> from_user e \<and> play e s = Some s'))
    \<and> (user s s' \<longleftrightarrow> (\<exists>e. from_user e \<and> play e s = Some s'))"
proof (intro conjI iffI)
  show "internal s s'" if "\<exists>e. \<not> from_user e \<and> play e s = Some s'" using that play_internal by blast
  show "user s s'" if "\<exists>e. from_user e \<and> play e s = Some s'" using that play_user by blast
qed (fact internal_play user_play)+




end
