(* ===== verification/Transport_Properties.thy ===== *)
theory Transport_Properties
  imports Async_Transport
begin

text \<open>
  The properties of the transports: their operations finish, what they leave behind, and what
  the tunnel demands of the proxy before it starts the TLS handshake with the target.
\<close>

definition plain_endpoint :: endpoint where
  "plain_endpoint = Plain \<lparr>ep_domain = ''a.org'', ep_port = 80\<rparr>"

definition tunnel_to :: tunnel_endpoint where
  "tunnel_to = \<lparr>ep_proxy = \<lparr>ep_domain = ''p.org'', ep_port = 3128\<rparr>,
     ep_target = \<lparr>ep_domain = ''a.org'', ep_port = 443\<rparr>\<rparr>"

definition get_request :: request_head where
  "get_request = \<lparr>rq_method = Get, rq_target = ''/'', rq_version = 11, rq_set = []\<rparr>"

definition io_ok :: io where
  "io_ok = \<lparr>io_ec = Success, io_open = True, io_rest = ''x'', io_status = 200,
     io_option = Success, io_sni = True, io_err = 0, io_opened = True\<rparr>"

definition io_no_sni :: io where
  "io_no_sni = io_ok\<lparr>io_sni := False, io_err := 1\<rparr>"

text \<open>
  C33. Every operation of every transport finishes, by completing or by an exception, once a
  bounded number of calls have completed: five for a connect, one for a close, two for an
  exchange.
\<close>

theorem operations_finish:
  "(5 \<le> length is \<longrightarrow> finished (run (transport_body ep) (async_connect ep i t) is))
   \<and> (1 \<le> length is \<longrightarrow> finished (run (transport_body ep) (async_close ep gr i t) is))
   \<and> (2 \<le> length is \<longrightarrow> finished (run (transport_body ep) (async_process_one ep rq i t) is))"
proof (intro conjI impI)
  show "finished (run (transport_body ep) (async_connect ep i t) is)" if "5 \<le> length is"
    unfolding async_connect_def using that
    by (intro top.start_finishes) (cases ep; simp add: connect_point_def)+
  show "finished (run (transport_body ep) (async_close ep gr i t) is)" if "1 \<le> length is"
    unfolding async_close_def using that by (intro top.start_finishes) (cases ep; simp)+
  show "finished (run (transport_body ep) (async_process_one ep rq i t) is)" if "2 \<le> length is"
    unfolding async_process_one_def using that
    by (intro top.start_finishes) (cases ep; simp add: process_good_def)+
qed

theorem operations_finish_witness:
  "finished (run (transport_body plain_endpoint) (async_close plain_endpoint Yes io_ok new_transport) [io_ok])"
  using operations_finish [of "[io_ok]"] by simp

text \<open>
  However a connect ends, the transport is marked running; when it ends without an error
  the socket is open and the timer that limited it is disarmed.
\<close>

theorem connect_establishes:
  assumes "lawful_run (transport_body ep) (async_connect ep i t) is"
    and "run (transport_body ep) (async_connect ep i t) is = (t', ef, Completed ec)"
  shows "tr_running t' \<and> (\<not> failed ec \<longrightarrow> tr_open t' \<and> \<not> tr_timer t')"
proof (cases ep)
  case (Plain e)
  with assms basic_connect_whole [of Tcp e i t "is" t' ef ec] show ?thesis
    by (simp add: async_connect_eq run_lifts lawful_run_lifts at_point_Completed connect_post_def del: body_simps)
next
  case (Secure e)
  with assms basic_connect_whole [of Ssl e i t "is" t' ef ec] show ?thesis
    by (simp add: async_connect_eq run_lifts lawful_run_lifts at_point_Completed connect_post_def del: body_simps)
next
  case (Tunnel e)
  with assms tunnel_connect_whole [of e i t "is" t' ef ec] show ?thesis
    by (simp add: async_connect_eq run_lifts lawful_run_lifts at_point_Completed tconn_post_def del: body_simps)
qed

theorem connect_establishes_witness:
  "\<exists>t' ef. run (transport_body plain_endpoint) (async_connect plain_endpoint io_ok new_transport) [io_ok, io_ok]
     = (t', ef, Completed Success) \<and> tr_running t' \<and> tr_open t' \<and> \<not> tr_timer t'"
proof -
  let ?r = "run (transport_body plain_endpoint) (async_connect plain_endpoint io_ok new_transport) [io_ok, io_ok]"
  have "snd (snd ?r) = Completed Success" by code_simp
  then have r: "?r = (fst ?r, fst (snd ?r), Completed Success)" by (metis prod.collapse)
  have "lawful_run (transport_body plain_endpoint) (async_connect plain_endpoint io_ok new_transport) [io_ok, io_ok]"
    by code_simp
  from connect_establishes [OF this r] r show ?thesis by auto
qed

text \<open>
  C26. What the retry of a request relies on: once a close has completed, whatever it answered,
  connecting again starts from a closed socket and an empty buffer, so that nothing the old
  connection left unread is taken for the answer of the new one.
\<close>

theorem reconnects_fresh:
  assumes "lawful_run (transport_body ep) (async_close ep gr i t) is"
    and "run (transport_body ep) (async_close ep gr i t) is = (t1, ef, Completed ec)"
    and "async_connect ep j t1 = (t2, ef2, p)"
  shows "tr_running t2 \<and> tr_buffer t2 = [] \<and> \<not> tr_open t2"
  by (rule transport.reconnect_is_fresh [OF assms])

theorem reconnects_fresh_witness:
  "let t1 = fst (run (transport_body plain_endpoint)
       (async_close plain_endpoint No io_ok (new_transport\<lparr>tr_open := True, tr_buffer := ''old''\<rparr>)) []);
     t2 = fst (async_connect plain_endpoint io_ok t1)
   in tr_buffer t1 = ''old'' \<and> tr_running t2 \<and> tr_buffer t2 = [] \<and> \<not> tr_open t2"
proof -
  let ?c = "async_close plain_endpoint No io_ok (new_transport\<lparr>tr_open := True, tr_buffer := ''old''\<rparr>)"
  let ?r = "run (transport_body plain_endpoint) ?c []"
  have r: "snd (snd ?r) = Completed Success" "tr_buffer (fst ?r) = ''old''"
    "lawful_run (transport_body plain_endpoint) ?c []"
    by code_simp+
  from r(1) have "?r = (fst ?r, fst (snd ?r), Completed Success)" by (metis prod.collapse)
  from reconnects_fresh [OF r(3) this] r(2) show ?thesis
    unfolding Let_def by (metis prod.collapse)
qed

text \<open>
  An exchange on a transport that is being closed does nothing: at whatever point it is
  resumed, it issues no call, stores no response and completes with an error.
\<close>

theorem closing_stops_exchange:
  assumes "\<not> tr_running t"
  shows "\<exists>ec. failed ec \<and> transport_op rq c i t = (cancel_timer t, [], Completed ec)"
  using assms by auto

theorem closing_stops_exchange_witness:
  "\<exists>ec. failed ec \<and> transport_op get_request Yield2 io_ok (set_tr_running False new_transport)
     = (cancel_timer (set_tr_running False new_transport), [], Completed ec)"
  by (rule closing_stops_exchange) (simp add: set_tr_running_def)

text \<open>
  C27. The exchange over a transport and the one over a bare stream are the same protocol: on a
  running transport and for the same outcomes they make the same calls in the same order with
  the same parser, store the same response and end with the same code. They differ only in
  the timer.
\<close>

theorem exchanges_agree:
  assumes "tr_running t"
    and "run (transport_op rq) (transport_op rq Entry (entering i) t) is = (t', ef, Completed ec)"
  shows "\<exists>u. run (stream_op Next_layer rq) (stream_op Next_layer rq (Outer Entry) (entering i) t) is
       = (u, ef, Completed ec) \<and> t' = cancel_timer u"
proof -
  from assms obtain i1 is1 where i1: "is = i1 # is1" by (cases "is") (simp_all add: Let_def)
  show ?thesis
  proof (cases "failed (io_ec i1)")
    case True
    with assms i1 show ?thesis
      by (auto simp: Let_def stream_done_def cancel_timer_def setup_timer_def)
  next
    case False
    with assms i1 obtain i2 is2 where i2: "is1 = i2 # is2"
      by (cases is1) (simp_all add: Let_def frame setup_timer_def)
    with assms i1 False show ?thesis
      by (auto simp: Let_def stream_done_def parsers_agree cancel_timer_def setup_timer_def frame
          split: if_splits)
  qed
qed

theorem exchanges_agree_witness:
  "\<exists>u. run (stream_op Next_layer get_request)
       (stream_op Next_layer get_request (Outer Entry) (entering io_ok) new_transport) [io_ok, io_ok]
     = (u, fst (snd (run (transport_op get_request)
         (transport_op get_request Entry (entering io_ok) new_transport) [io_ok, io_ok])), Completed Success)"
proof -
  let ?r = "run (transport_op get_request) (transport_op get_request Entry (entering io_ok) new_transport)
      [io_ok, io_ok]"
  have "snd (snd ?r) = Completed Success" by code_simp
  then have r: "?r = (fst ?r, fst (snd ?r), Completed Success)" by (metis prod.collapse)
  have "tr_running new_transport" by (simp add: new_transport_def)
  from exchanges_agree [OF this r] show ?thesis by blast
qed

text \<open>
  C25. A tunnel is used only after the proxy granted it: the handshake with the target is issued
  right after a stored answer with status 200 to the CONNECT request that was written for the
  target, it is issued once, and it is the last call; and a connect that succeeds has made it.
\<close>

theorem tunnel_handshake_after_200:
  assumes "run (tunnel_connect ep) (tunnel_connect ep (T_coro Entry) (entering i) t) is = (t', ef, p)"
    and "Issue Async_handshake \<in> set ef \<or> p = Completed Success"
  shows "\<exists>pre. ef = pre @ [Response_assigned Next_next_layer 200, Issue Async_handshake]
    \<and> Issue Async_handshake \<notin> set pre
    \<and> Issue (Async_write Next_next_layer (connect_request ep)) \<in> set pre"
proof -
  have tr: "tunnel_trace ep ef p" by (rule tunnel_trace_run [OF assms(1)])
  have "handshaken ep ef"
  proof (cases "Issue Async_handshake \<in> set ef")
    case True
    with tr show ?thesis
      by (cases "(ep, ef, p)" rule: tunnel_trace.cases) auto
  next
    case False
    with tr assms(2) show ?thesis by auto
  qed
  then show ?thesis by (simp add: handshaken_def connect_sent_def)
qed

theorem tunnel_handshake_after_200_witness:
  "\<exists>pre. fst (snd (run (tunnel_connect tunnel_to)
       (tunnel_connect tunnel_to (T_coro Entry) (entering io_ok) new_transport) (replicate 5 io_ok)))
     = pre @ [Response_assigned Next_next_layer 200, Issue Async_handshake]"
proof -
  let ?r = "run (tunnel_connect tunnel_to)
      (tunnel_connect tunnel_to (T_coro Entry) (entering io_ok) new_transport) (replicate 5 io_ok)"
  have "snd (snd ?r) = Completed Success" by code_simp
  then have r: "?r = (fst ?r, fst (snd ?r), Completed Success)" by (metis prod.collapse)
  from tunnel_handshake_after_200 [OF r] show ?thesis by blast
qed

text \<open>
  When the TLS library refuses the host name, the tunnel's connect completes without
  disarming the timer that limited it, where the TLS transport disarms it with the same
  outcomes.
\<close>

theorem tunnel_sni_leaves_timer:
  assumes "\<not> failed (io_ec j)" "\<not> io_sni j"
  shows "\<exists>t' ef u ef2.
     run (tunnel_connect ep) (tunnel_connect ep (T_coro Entry) (entering i) t) [j]
       = (t', ef, Completed (err_to_code (io_err j))) \<and> tr_timer t'
     \<and> run (basic_connect Ssl e) (basic_connect Ssl e (Outer Entry) (entering i) t) [j]
       = (u, ef2, Completed (err_to_code (io_err j))) \<and> \<not> tr_timer u"
  using assms by (simp add: Let_def connect_done_def member_defs)

theorem tunnel_sni_leaves_timer_witness:
  "\<exists>t' ef. run (tunnel_connect tunnel_to)
       (tunnel_connect tunnel_to (T_coro Entry) (entering io_ok) new_transport) [io_no_sni]
     = (t', ef, Completed (Ssl_error 1)) \<and> tr_timer t'"
  using tunnel_sni_leaves_timer [of io_no_sni tunnel_to io_ok new_transport "ep_target tunnel_to"]
  by (simp add: io_no_sni_def io_ok_def err_to_code_def del: tunnel_connect.simps) blast

end
