(* ===== verification/Url.thy ===== *)
theory Url
  imports Endpoint
begin

text \<open>
  \<open>http/url.hpp\<close>, \<open>http/url.cpp\<close> and \<open>core/detail/endpoint.hpp\<close>: what the client
  reads off a URL. The URL itself is \<open>skyr::url\<close> of the skyr-url package, so the accessors
  the code calls are the parameter \<open>'u skyr\<close>; what the properties rely on is stated as
  \<open>skyr_ports\<close> and \<open>skyr_scheme\<close>.
\<close>

record 'u skyr =
  u_pathname :: "'u \<Rightarrow> string"
  u_search :: "'u \<Rightarrow> string"
  u_hash :: "'u \<Rightarrow> string"
  u_port :: "'u \<Rightarrow> string"
  u_port16 :: "'u \<Rightarrow> 16 word option"          \<comment> \<open>\<open>port<std::int16_t>()\<close>\<close>
  u_protocol :: "'u \<Rightarrow> string"
  u_scheme :: "'u \<Rightarrow> string"
  u_host :: "'u \<Rightarrow> string"
  u_hostname :: "'u \<Rightarrow> string"
  u_origin :: "'u \<Rightarrow> string"
  u_default_port :: "string \<Rightarrow> 16 word option" \<comment> \<open>static \<open>default_port\<close>\<close>

definition target :: "'u skyr \<Rightarrow> 'u \<Rightarrow> string" where
  "target S u = u_pathname S u @ u_search S u @ u_hash S u"

text \<open>
  \<open>safe_port\<close>. The 16 bits of the returned \<open>std::int16_t\<close> are a word. A protocol of length 0
  would make \<open>proto.size() - 1\<close> wrap to \<open>SIZE_MAX\<close> and the view read out of bounds.
\<close>

definition safe_port :: "'u skyr \<Rightarrow> 'u \<Rightarrow> 16 word result" where
  "safe_port S u =
     (if u_port S u = [] then
        (let proto = u_protocol S u in
         if proto = [] then Inl Undefined_behaviour
         else (case u_default_port S (take (length proto - 1) proto) of
                 Some p \<Rightarrow> Inr p
               | None \<Rightarrow> Inl (Domain_error ''cannot deduce port'')))
      else (case u_port16 S u of
              Some p \<Rightarrow> Inr p
            | None \<Rightarrow> Inl (Domain_error ''cannot deduce port'')))"

definition is_ssl_involved :: "'u skyr \<Rightarrow> 'u \<Rightarrow> bool" where
  "is_ssl_involved S u =
     (if u_protocol S u \<noteq> [] then u_protocol S u = ''https:''
      else (case u_port16 S u of Some p \<Rightarrow> sint p = 443 | None \<Rightarrow> False))"

text \<open>
  The query helpers forward to \<open>skyr::json\<close>; \<open>encode_query\<close> calls \<open>value()\<close> on an
  \<open>expected\<close>, which throws when there is none.
\<close>

definition decode_query :: "(string \<Rightarrow> 'j) \<Rightarrow> string \<Rightarrow> 'j" where
  "decode_query skyr_decode q = skyr_decode q"

definition encode_query :: "('j \<Rightarrow> string option) \<Rightarrow> 'j \<Rightarrow> string result" where
  "encode_query skyr_encode j =
     (case skyr_encode j of Some s \<Rightarrow> Inr s | None \<Rightarrow> Inl Bad_expected_access)"

section \<open>Endpoints of URLs\<close>

text \<open>
  \<open>to_endpoint\<close>: the conversion of \<open>std::int16_t\<close> to the \<open>std::uint16_t\<close> parameter of the
  endpoint keeps the 16 bits.
\<close>

definition to_endpoint :: "'u skyr \<Rightarrow> bool \<Rightarrow> 'u \<Rightarrow> base_endpoint result" where
  "to_endpoint S secure u =
     bind_result (safe_port S u) (\<lambda>p.
       if secure then
         if u_protocol S u \<noteq> ''https:''
         then Inl (Domain_error ''invalid url for secure endpoint'')
         else Inr \<lparr>ep_domain = u_hostname S u, ep_port = p\<rparr>
       else Inr \<lparr>ep_domain = u_hostname S u, ep_port = p\<rparr>)"

section \<open>What the code relies on of skyr-url\<close>

text \<open>
  The serialised scheme: \<open>protocol()\<close> is \<open>scheme()\<close> followed by a colon, and
  \<open>default_port\<close> knows the ports of the web schemes.
\<close>

definition skyr_scheme :: "'u skyr \<Rightarrow> bool" where
  "skyr_scheme S \<longleftrightarrow>
     (\<forall>u. u_protocol S u = u_scheme S u @ '':'')
     \<and> u_default_port S ''http'' = Some 80 \<and> u_default_port S ''https'' = Some 443"

text \<open>
  The port of a URL is absent or the decimal numeral of a number below 65536, and
  \<open>port<intT>()\<close> reads that numeral and casts it to the given type.
\<close>

definition skyr_ports :: "'u skyr \<Rightarrow> bool" where
  "skyr_ports S \<longleftrightarrow>
     (\<forall>u. u_port S u = [] \<or> (\<exists>n < 65536. u_port S u = to_dec n))
     \<and> (\<forall>u n. u_port S u = to_dec n \<longrightarrow> u_port16 S u = Some (word_of_nat n))"

lemma safe_port_explicit:
  "skyr_ports S \<Longrightarrow> u_port S u = to_dec n \<Longrightarrow> safe_port S u = Inr (word_of_nat n)"
  by (simp add: skyr_ports_def safe_port_def)

lemma safe_port_default:
  assumes "skyr_scheme S" "u_port S u = []"
  shows "safe_port S u =
    (case u_default_port S (u_scheme S u) of
       Some p \<Rightarrow> Inr p | None \<Rightarrow> Inl (Domain_error ''cannot deduce port''))"
  using assms by (simp add: skyr_scheme_def safe_port_def)

lemma protocol_https_iff:
  "skyr_scheme S \<Longrightarrow> u_protocol S u = ''https:'' \<longleftrightarrow> u_scheme S u = ''https''"
  by (simp add: skyr_scheme_def)

lemma protocol_nonempty: "skyr_scheme S \<Longrightarrow> u_protocol S u \<noteq> []"
  by (simp add: skyr_scheme_def)

lemma is_ssl_involved_iff: "skyr_scheme S \<Longrightarrow> is_ssl_involved S u \<longleftrightarrow> u_scheme S u = ''https''"
  by (simp add: is_ssl_involved_def protocol_nonempty protocol_https_iff)

lemma safe_port_no_ub: "skyr_scheme S \<Longrightarrow> safe_port S u \<noteq> Inl Undefined_behaviour"
  by (auto simp: safe_port_def protocol_nonempty Let_def split: option.splits)

end
