(* ===== verification/Url_Properties.thy ===== *)
theory Url_Properties
  imports Url
begin

text \<open>
  The properties of endpoints and of what is read off a URL, with a concrete URL type that
  satisfies the laws assumed of skyr-url.
\<close>

section \<open>A concrete URL type\<close>

text \<open>Scheme, host name, port if it is written, path.\<close>

type_synonym demo_url = "string \<times> string \<times> nat option \<times> string"

definition demo_port :: "demo_url \<Rightarrow> string" where
  "demo_port u = (case u of (s, h, Some n, p) \<Rightarrow> if n < 65536 then to_dec n else [] | _ \<Rightarrow> [])"

definition demo_skyr :: "demo_url skyr" where
  "demo_skyr = \<lparr>
     u_pathname = (\<lambda>(s, h, n, p). p), u_search = (\<lambda>u. []), u_hash = (\<lambda>u. []),
     u_port = demo_port,
     u_port16 = (\<lambda>u. if demo_port u = [] then None else Some (word_of_nat (dec_value 0 (demo_port u)))),
     u_protocol = (\<lambda>(s, h, n, p). s @ '':''), u_scheme = (\<lambda>(s, h, n, p). s),
     u_host = (\<lambda>(s, h, n, p). h), u_hostname = (\<lambda>(s, h, n, p). h),
     u_origin = (\<lambda>(s, h, n, p). s @ ''://'' @ h),
     u_default_port = (\<lambda>s. if s = ''http'' then Some 80 else if s = ''https'' then Some 443 else None)\<rparr>"

lemma demo_skyr_scheme: "skyr_scheme demo_skyr"
  by (simp add: skyr_scheme_def demo_skyr_def split_beta)


section \<open>Properties\<close>

text \<open>
  The host string of an endpoint, which is the target of a CONNECT request, identifies the
  endpoint: two endpoints have the same host string only if they are equal.
\<close>

theorem host_identifies: "host a = host b \<longleftrightarrow> basic_eq a b"
  using append_sep_inject [OF colon_not_in_to_dec colon_not_in_to_dec]
  by (cases a, cases b) (auto simp: host_def word_unat_eq_iff)



text \<open>
  A URL without a port gets the port of its scheme, and the endpoint the client makes for
  it fits the scheme: an https URL always has a secure endpoint, and no other URL has one.
\<close>

theorem endpoint_of_scheme:
  assumes "skyr_scheme S" "u_port S u = []"
  shows "(u_scheme S u = ''https'' \<longrightarrow>
       to_endpoint S True u = Inr \<lparr>ep_domain = u_hostname S u, ep_port = 443\<rparr>)
     \<and> (u_scheme S u = ''http'' \<longrightarrow>
       to_endpoint S False u = Inr \<lparr>ep_domain = u_hostname S u, ep_port = 80\<rparr>)
     \<and> (\<not> is_ssl_involved S u \<longrightarrow> (\<exists>x. to_endpoint S True u = Inl (Domain_error x)))
     \<and> to_endpoint S secure u \<noteq> Inl Undefined_behaviour"
proof -
  have d: "u_default_port S ''http'' = Some 80" "u_default_port S ''https'' = Some 443"
    using assms(1) by (simp_all add: skyr_scheme_def)
  note eqs = safe_port_default [OF assms] protocol_https_iff [OF assms(1)] is_ssl_involved_iff [OF assms(1)]
  show ?thesis using d by (auto simp: to_endpoint_def eqs split: option.splits)
qed

theorem endpoint_of_scheme_witness:
  "to_endpoint demo_skyr True (''https'', ''a.org'', None, ''/'')
     = Inr \<lparr>ep_domain = ''a.org'', ep_port = 443\<rparr>"
  using endpoint_of_scheme [OF demo_skyr_scheme, of "(''https'', ''a.org'', None, ''/'')"]
  by (simp add: demo_skyr_def demo_port_def)

end
