(* ===== verification/Regex.thy ===== *)
theory Regex
  imports Prelude
begin

text \<open>
  The part of \<open>std::regex\<close> (ECMAScript grammar, \<open>icase\<close>) that the library's one expression
  uses, as a backtracking matcher: a match is a list of captures and of what it leaves unread,
  and the alternatives come in the order the standard tries them. It is part of the C++
  standard library.
\<close>

text \<open>
  \<open>Chars p m n\<close> is the lazy \<open>[p]{m,n}?\<close>, \<open>Spaces\<close> is \<open>\s*\<close>, \<open>Word w\<close> a literal, and
  \<open>Maybe r\<close> the greedy \<open>(?:r)?\<close>.
\<close>

datatype rx =
    Chars "char \<Rightarrow> bool" nat nat
  | Spaces
  | Word string
  | Capture nat rx
  | Maybe rx
  | Then rx rx

definition is_space :: "char \<Rightarrow> bool" where
  "is_space c \<longleftrightarrow> (of_char c :: nat) = 32 \<or> 9 \<le> (of_char c :: nat) \<and> (of_char c :: nat) \<le> 13"

definition lower :: "char \<Rightarrow> char" where
  "lower c = (let n = (of_char c :: nat) in if 65 \<le> n \<and> n \<le> 90 then char_of (n + 32) else c)"

definition same_word :: "string \<Rightarrow> string \<Rightarrow> bool" where
  "same_word a b \<longleftrightarrow> map lower a = map lower b"

type_synonym rx_match = "(nat \<times> string) list \<times> string"

text \<open>The prefixes of \<open>s\<close> of the given lengths that \<open>p\<close> holds of, as matches.\<close>

definition prefixes_of :: "(char \<Rightarrow> bool) \<Rightarrow> nat list \<Rightarrow> string \<Rightarrow> rx_match list" where
  "prefixes_of p ks s =
     map (\<lambda>k. ([], drop k s)) (filter (\<lambda>k. k \<le> length s \<and> list_all p (take k s)) ks)"

fun rx_runs :: "rx \<Rightarrow> string \<Rightarrow> rx_match list" where
  "rx_runs (Chars p m n) s = prefixes_of p [m ..< Suc n] s"
| "rx_runs Spaces s = prefixes_of is_space (rev [0 ..< Suc (length s)]) s"
| "rx_runs (Word w) s =
     (if length w \<le> length s \<and> same_word (take (length w) s) w then [([], drop (length w) s)] else [])"
| "rx_runs (Capture g r) s =
     map (\<lambda>(cs, rest). (cs @ [(g, take (length s - length rest) s)], rest)) (rx_runs r s)"
| "rx_runs (Maybe r) s = rx_runs r s @ [([], s)]"
| "rx_runs (Then a b) s =
     concat (map (\<lambda>(cs, rest). map (\<lambda>(ds, rest'). (cs @ ds, rest')) (rx_runs b rest)) (rx_runs a s))"

text \<open>\<open>std::regex_match\<close>: the first match that reads the whole string.\<close>

definition regex_match :: "rx \<Rightarrow> string \<Rightarrow> (nat \<times> string) list option" where
  "regex_match r s = map_option fst (find (\<lambda>(cs, rest). rest = []) (rx_runs r s))"

text \<open>A capture group that took no part in the match converts to the empty string.\<close>

definition group :: "nat \<Rightarrow> (nat \<times> string) list \<Rightarrow> string" where
  "group g cs = (case map_of cs g of Some x \<Rightarrow> x | None \<Rightarrow> [])"

section \<open>Matches as splits of the string\<close>

lemma prefixes_of_iff:
  "(cs, rest) \<in> set (prefixes_of p ks s) \<longleftrightarrow>
     cs = [] \<and> (\<exists>x. s = x @ rest \<and> length x \<in> set ks \<and> list_all p x)"
proof -
  have "(\<exists>k. k \<in> set ks \<and> k \<le> length s \<and> list_all p (take k s) \<and> rest = drop k s) \<longleftrightarrow>
      (\<exists>x. s = x @ rest \<and> length x \<in> set ks \<and> list_all p x)"
  proof
    assume "\<exists>k. k \<in> set ks \<and> k \<le> length s \<and> list_all p (take k s) \<and> rest = drop k s"
    then obtain k where "k \<in> set ks" "k \<le> length s" "list_all p (take k s)" "rest = drop k s" by blast
    then show "\<exists>x. s = x @ rest \<and> length x \<in> set ks \<and> list_all p x"
      by (intro exI [of _ "take k s"]) simp
  next
    assume "\<exists>x. s = x @ rest \<and> length x \<in> set ks \<and> list_all p x"
    then obtain x where "s = x @ rest" "length x \<in> set ks" "list_all p x" by blast
    then show "\<exists>k. k \<in> set ks \<and> k \<le> length s \<and> list_all p (take k s) \<and> rest = drop k s"
      by (intro exI [of _ "length x"]) simp
  qed
  then show ?thesis by (auto simp: prefixes_of_def image_iff)
qed

lemma Chars_iff:
  "(cs, rest) \<in> set (rx_runs (Chars p m n) s) \<longleftrightarrow>
     cs = [] \<and> (\<exists>x. s = x @ rest \<and> m \<le> length x \<and> length x \<le> n \<and> list_all p x)"
  by (auto simp: prefixes_of_iff simp del: upt_Suc)

lemma Spaces_iff:
  "(cs, rest) \<in> set (rx_runs Spaces s) \<longleftrightarrow> cs = [] \<and> (\<exists>x. s = x @ rest \<and> list_all is_space x)"
  by (auto simp: prefixes_of_iff simp del: upt_Suc)

lemma Word_iff:
  "(cs, rest) \<in> set (rx_runs (Word w) s) \<longleftrightarrow> cs = [] \<and> (\<exists>x. s = x @ rest \<and> same_word x w)"
proof -
  have len: "same_word x w \<Longrightarrow> length x = length w" for x
    unfolding same_word_def using map_eq_imp_length_eq by blast
  have "same_word (take (length w) s) w \<and> s = take (length w) s @ rest"
    if "s = x @ rest" "same_word x w" for x
    using that by (simp flip: len [OF that(2)])
  then show ?thesis by (auto intro!: exI [of _ "take (length w) s"] dest: len)
qed

lemma rx_runs_suffix: "(cs, rest) \<in> set (rx_runs r s) \<Longrightarrow> \<exists>x. s = x @ rest"
proof (induction r arbitrary: s cs rest)
  case (Chars p m n)
  then show ?case using Chars_iff by blast
next
  case Spaces
  then show ?case using Spaces_iff by blast
next
  case (Word w)
  then show ?case using Word_iff by blast
next
  case (Then a b)
  then obtain cs1 mid cs2 where "(cs1, mid) \<in> set (rx_runs a s)" "(cs2, rest) \<in> set (rx_runs b mid)" by auto
  with Then.IH obtain x y where "s = x @ mid" "mid = y @ rest" by blast
  then show ?case by simp
qed auto

lemma Capture_iff:
  "(cs, rest) \<in> set (rx_runs (Capture g r) s) \<longleftrightarrow>
     (\<exists>ds x. s = x @ rest \<and> (ds, rest) \<in> set (rx_runs r s) \<and> cs = ds @ [(g, x)])"
proof
  assume "(cs, rest) \<in> set (rx_runs (Capture g r) s)"
  then obtain ds where ds: "(ds, rest) \<in> set (rx_runs r s)" "cs = ds @ [(g, take (length s - length rest) s)]"
    by auto
  from rx_runs_suffix [OF ds(1)] obtain x where "s = x @ rest" by blast
  with ds show "\<exists>ds x. s = x @ rest \<and> (ds, rest) \<in> set (rx_runs r s) \<and> cs = ds @ [(g, x)]" by auto
next
  assume "\<exists>ds x. s = x @ rest \<and> (ds, rest) \<in> set (rx_runs r s) \<and> cs = ds @ [(g, x)]"
  then obtain ds x where "s = x @ rest" "(ds, rest) \<in> set (rx_runs r s)" "cs = ds @ [(g, x)]" by blast
  then show "(cs, rest) \<in> set (rx_runs (Capture g r) s)" by force
qed

lemma Maybe_iff:
  "(cs, rest) \<in> set (rx_runs (Maybe r) s) \<longleftrightarrow> (cs, rest) \<in> set (rx_runs r s) \<or> cs = [] \<and> rest = s"
  by auto

lemma Then_iff:
  "(cs, rest) \<in> set (rx_runs (Then a b) s) \<longleftrightarrow>
     (\<exists>ds es mid. (ds, mid) \<in> set (rx_runs a s) \<and> (es, rest) \<in> set (rx_runs b mid) \<and> cs = ds @ es)"
  by force

lemmas rx_iffs = Chars_iff Spaces_iff Word_iff Capture_iff Maybe_iff Then_iff

lemma regex_match_SomeD: "regex_match r s = Some cs \<Longrightarrow> (cs, []) \<in> set (rx_runs r s)"
  by (auto simp: regex_match_def find_Some_iff) (metis nth_mem)

lemma regex_match_None_iff: "regex_match r s = None \<longleftrightarrow> (\<forall>cs. (cs, []) \<notin> set (rx_runs r s))"
  by (auto simp: regex_match_def find_None_iff)

text \<open>Where all complete matches agree on the captures, the order of the alternatives is irrelevant.\<close>

lemma regex_match_unique:
  assumes "\<And>cs ds. (cs, []) \<in> set (rx_runs r s) \<Longrightarrow> (ds, []) \<in> set (rx_runs r s) \<Longrightarrow> cs = ds"
  shows "regex_match r s = Some cs \<longleftrightarrow> (cs, []) \<in> set (rx_runs r s)"
proof
  assume "(cs, []) \<in> set (rx_runs r s)"
  then have "regex_match r s \<noteq> None" by (auto simp: regex_match_None_iff)
  then obtain ds where "regex_match r s = Some ds" by blast
  with assms \<open>(cs, []) \<in> set (rx_runs r s)\<close> regex_match_SomeD show "regex_match r s = Some cs" by metis
qed (rule regex_match_SomeD)

end
