(* ===== verification/Content_Type.thy ===== *)
theory Content_Type
  imports Regex
begin

text \<open>
  \<open>http/content_type.hpp\<close> and \<open>http/content_type.cpp\<close>: a media type with its character set
  and its multipart boundary, parsed by a regular expression.
\<close>

record content_type =
  ct_type :: string
  ct_charset :: string
  ct_boundary :: string

text \<open>The classes \<open>[\w!#$&\-^]\<close> and \<open>[\w!#$%^&\-~{}]\<close>.\<close>

definition is_word :: "char \<Rightarrow> bool" where
  "is_word c \<longleftrightarrow>
     (let n = (of_char c :: nat) in 48 \<le> n \<and> n \<le> 57 \<or> 65 \<le> n \<and> n \<le> 90 \<or> 97 \<le> n \<and> n \<le> 122 \<or> n = 95)"

definition type_char :: "char \<Rightarrow> bool" where
  "type_char c \<longleftrightarrow> is_word c \<or> c \<in> set ''!#$&-^''"

definition value_char :: "char \<Rightarrow> bool" where
  "value_char c \<longleftrightarrow> is_word c \<or> c \<in> set ''!#$%^&-~{}''"

definition content_type_rx :: rx where
  "content_type_rx =
     Then (Capture 1 (Then (Chars type_char 1 127) (Then (Word ''/'') (Chars type_char 1 127))))
      (Then (Maybe (Then (Word '';'') (Then Spaces (Then (Word ''charset='') (Capture 2 (Chars value_char 1 127))))))
       (Then (Maybe (Then (Word '';'') (Then Spaces (Then (Word ''boundary='') (Capture 3 (Chars value_char 1 70))))))
         Spaces))"

definition parse_content_type :: "string \<Rightarrow> content_type result" where
  "parse_content_type s =
     (case regex_match content_type_rx s of
        None \<Rightarrow> Inl (Domain_error ''malformed content type'')
      | Some cs \<Rightarrow> Inr \<lparr>ct_type = group 1 cs, ct_charset = group 2 cs, ct_boundary = group 3 cs\<rparr>)"

text \<open>The setters, and \<open>operator==\<close> with \<open>boost::iequals\<close>.\<close>

definition set_type :: "string \<Rightarrow> content_type \<Rightarrow> content_type" where
  "set_type t ct = ct\<lparr>ct_type := t\<rparr>"

definition set_charset :: "string \<Rightarrow> content_type \<Rightarrow> content_type" where
  "set_charset c ct = ct\<lparr>ct_charset := c\<rparr>"

definition set_boundary :: "string \<Rightarrow> content_type \<Rightarrow> content_type" where
  "set_boundary b ct = ct\<lparr>ct_boundary := b\<rparr>"

definition content_type_eq :: "content_type \<Rightarrow> content_type \<Rightarrow> bool" where
  "content_type_eq l r \<longleftrightarrow>
     same_word (ct_type l) (ct_type r) \<and> same_word (ct_charset l) (ct_charset r)
     \<and> ct_boundary l = ct_boundary r"

definition content_type_ne :: "content_type \<Rightarrow> content_type \<Rightarrow> bool" where
  "content_type_ne l r \<longleftrightarrow> \<not> content_type_eq l r"

text \<open>
  \<open>to_string\<close>: the two statements \<open>str + ...\<close> compute a string and drop it, so \<open>str\<close> is
  returned as it was initialised.
\<close>

definition content_type_to_string :: "content_type \<Rightarrow> string" where
  "content_type_to_string ct = (let str = ct_type ct in str)"

section \<open>The grammar\<close>

text \<open>
  What the expression says a content type looks like: \<open>type/subtype\<close>, then the character set
  and the boundary, each optional but in this order, then blanks.
\<close>

definition media_type :: "string \<Rightarrow> bool" where
  "media_type t \<longleftrightarrow> (\<exists>a b. t = a @ ''/'' @ b \<and> list_all type_char a \<and> list_all type_char b
     \<and> 1 \<le> length a \<and> length a \<le> 127 \<and> 1 \<le> length b \<and> length b \<le> 127)"

definition parameter :: "string \<Rightarrow> nat \<Rightarrow> string \<Rightarrow> string \<Rightarrow> bool" where
  "parameter key n p v \<longleftrightarrow> (\<exists>sp w. p = '';'' @ sp @ w @ v \<and> list_all is_space sp
     \<and> same_word w key \<and> list_all value_char v \<and> 1 \<le> length v \<and> length v \<le> n)"

definition optional :: "(string \<Rightarrow> string \<Rightarrow> bool) \<Rightarrow> string \<Rightarrow> string \<Rightarrow> bool" where
  "optional P p v \<longleftrightarrow> P p v \<or> p = [] \<and> v = []"

definition content_type_shape :: "string \<Rightarrow> content_type \<Rightarrow> bool" where
  "content_type_shape s ct \<longleftrightarrow> (\<exists>p q ws. s = ct_type ct @ p @ q @ ws \<and> media_type (ct_type ct)
     \<and> optional (parameter ''charset='' 127) p (ct_charset ct)
     \<and> optional (parameter ''boundary='' 70) q (ct_boundary ct) \<and> list_all is_space ws)"

section \<open>Characters\<close>

lemma of_char_lower:
  "(of_char (lower c) :: nat) =
     (if 65 \<le> (of_char c :: nat) \<and> (of_char c :: nat) \<le> 90 then of_char c + 32 else of_char c)"
  by (simp add: lower_def Let_def)

lemma lower_other:
  assumes "(of_char d :: nat) < 65"
  shows "lower c = d \<longleftrightarrow> c = d"
proof -
  have "(of_char (lower c) :: nat) = of_char d \<longleftrightarrow> (of_char c :: nat) = of_char d"
    using assms by (simp only: of_char_lower) presburger
  then show ?thesis by (simp add: of_char_eq_iff)
qed

lemma same_word_punct:
  "same_word x ''/'' \<longleftrightarrow> x = ''/''" "same_word x '';'' \<longleftrightarrow> x = '';''"
proof -
  have eqs: "lower (CHR ''/'') = CHR ''/''" "lower (CHR '';'') = CHR '';''" by (simp_all add: lower_other)
  show "same_word x ''/'' \<longleftrightarrow> x = ''/''" "same_word x '';'' \<longleftrightarrow> x = '';''"
    unfolding same_word_def list.map eqs by (auto simp: map_eq_Cons_conv lower_other)
qed

lemma class_facts [simp]:
  "\<not> type_char (CHR ''/'')" "\<not> type_char (CHR '';'')" "\<not> value_char (CHR '';'')"
  "\<not> is_space (CHR '';'')" "\<not> is_space (CHR ''/'')"
  by (simp_all add: type_char_def value_char_def is_word_def is_space_def)

lemma space_not_type: "is_space c \<Longrightarrow> \<not> type_char c"
  by (auto simp: is_space_def type_char_def is_word_def Let_def)

lemma space_not_value: "is_space c \<Longrightarrow> \<not> value_char c"
  by (auto simp: is_space_def value_char_def is_word_def Let_def)

lemma space_lower: "is_space c \<Longrightarrow> lower c = c"
  by (auto simp: is_space_def lower_def Let_def)

section \<open>The expression accepts the grammar\<close>

definition captured :: "nat \<Rightarrow> string \<Rightarrow> (nat \<times> string) list" where
  "captured g v = (if v = [] then [] else [(g, v)])"

lemma run_seq:
  "(ds, mid) \<in> set (rx_runs a s) \<Longrightarrow> (es, rest) \<in> set (rx_runs b mid) \<Longrightarrow> (ds @ es, rest) \<in> set (rx_runs (Then a b) s)"
  unfolding Then_iff by blast

lemma run_last:
  "(ds, mid) \<in> set (rx_runs a s) \<Longrightarrow> ([], rest) \<in> set (rx_runs b mid) \<Longrightarrow> (ds, rest) \<in> set (rx_runs (Then a b) s)"
  using run_seq [of ds mid a s "[]"] by simp

lemma media_type_runs:
  "(cs, rest) \<in> set (rx_runs (Capture 1 (Then (Chars type_char 1 127)
      (Then (Word ''/'') (Chars type_char 1 127)))) s)
     \<longleftrightarrow> (\<exists>t. s = t @ rest \<and> media_type t \<and> cs = [(1, t)])"
proof -
  have "(ds, rest) \<in> set (rx_runs (Then (Chars type_char 1 127) (Then (Word ''/'') (Chars type_char 1 127))) s)
      \<longleftrightarrow> ds = [] \<and> (\<exists>t. s = t @ rest \<and> media_type t)" for ds
    unfolding Then_iff Chars_iff Word_iff media_type_def same_word_punct by fastforce
  then show ?thesis unfolding Capture_iff by auto
qed

lemma parameter_runs:
  "(cs, rest) \<in> set (rx_runs (Maybe (Then (Word '';'') (Then Spaces (Then (Word key)
      (Capture g (Chars value_char 1 n)))))) s)
     \<longleftrightarrow> (\<exists>p v. s = p @ rest \<and> optional (parameter key n) p v \<and> cs = captured g v)"
proof -
  have "(cs, rest) \<in> set (rx_runs (Then (Word '';'') (Then Spaces (Then (Word key)
      (Capture g (Chars value_char 1 n))))) s)
      \<longleftrightarrow> (\<exists>p v. s = p @ rest \<and> parameter key n p v \<and> cs = [(g, v)])"
  proof
    assume "(cs, rest) \<in> set (rx_runs (Then (Word '';'') (Then Spaces (Then (Word key)
        (Capture g (Chars value_char 1 n))))) s)"
    then obtain sp w v where "s = '';'' @ sp @ w @ v @ rest" "list_all is_space sp" "same_word w key"
      "1 \<le> length v" "length v \<le> n" "list_all value_char v" "cs = [(g, v)]"
      unfolding Then_iff Capture_iff Chars_iff Word_iff Spaces_iff same_word_punct
      by (elim exE conjE) simp
    then show "\<exists>p v. s = p @ rest \<and> parameter key n p v \<and> cs = [(g, v)]"
      unfolding parameter_def by (intro exI [of _ "'';'' @ sp @ w @ v"] exI [of _ v]) auto
  next
    assume "\<exists>p v. s = p @ rest \<and> parameter key n p v \<and> cs = [(g, v)]"
    then obtain sp w v where x: "s = '';'' @ sp @ w @ v @ rest" "list_all is_space sp" "same_word w key"
      "1 \<le> length v" "length v \<le> n" "list_all value_char v" "cs = [(g, v)]"
      unfolding parameter_def by (elim exE conjE) simp
    have 4: "([] @ [(g, v)], rest) \<in> set (rx_runs (Capture g (Chars value_char 1 n)) (v @ rest))"
      unfolding Capture_iff Chars_iff using x by blast
    have 3: "([], v @ rest) \<in> set (rx_runs (Word key) (w @ v @ rest))"
      unfolding Word_iff using x by blast
    have 2: "([], w @ v @ rest) \<in> set (rx_runs Spaces (sp @ w @ v @ rest))"
      unfolding Spaces_iff using x by blast
    have 1: "([], sp @ w @ v @ rest) \<in> set (rx_runs (Word '';'') s)"
      unfolding Word_iff same_word_punct using x by blast
    from run_seq [OF 1 run_seq [OF 2 run_seq [OF 3 4]]] x(7)
    show "(cs, rest) \<in> set (rx_runs (Then (Word '';'') (Then Spaces (Then (Word key)
        (Capture g (Chars value_char 1 n))))) s)" by simp
  qed
  then have iff: "(cs, rest) \<in> set (rx_runs (Maybe (Then (Word '';'') (Then Spaces (Then (Word key)
      (Capture g (Chars value_char 1 n)))))) s)
      \<longleftrightarrow> (\<exists>p v. s = p @ rest \<and> parameter key n p v \<and> cs = [(g, v)]) \<or> cs = [] \<and> rest = s"
    unfolding Maybe_iff by simp
  have ne: "parameter key n p v \<Longrightarrow> v \<noteq> []" for p v unfolding parameter_def by (elim exE conjE) (cases v; simp)
  show ?thesis unfolding iff
  proof
    assume "(\<exists>p v. s = p @ rest \<and> parameter key n p v \<and> cs = [(g, v)]) \<or> cs = [] \<and> rest = s"
    then show "\<exists>p v. s = p @ rest \<and> optional (parameter key n) p v \<and> cs = captured g v"
    proof
      assume "\<exists>p v. s = p @ rest \<and> parameter key n p v \<and> cs = [(g, v)]"
      with ne show ?thesis unfolding optional_def captured_def by metis
    next
      assume "cs = [] \<and> rest = s"
      then show ?thesis unfolding optional_def captured_def by (intro exI [of _ "[]"]) simp
    qed
  next
    assume "\<exists>p v. s = p @ rest \<and> optional (parameter key n) p v \<and> cs = captured g v"
    then obtain p v where x: "s = p @ rest" "optional (parameter key n) p v" "cs = captured g v" by blast
    from x(2) show "(\<exists>p v. s = p @ rest \<and> parameter key n p v \<and> cs = [(g, v)]) \<or> cs = [] \<and> rest = s"
      unfolding optional_def
    proof
      assume "parameter key n p v"
      with x ne show ?thesis unfolding captured_def by auto
    next
      assume "p = [] \<and> v = []"
      with x show ?thesis unfolding captured_def by simp
    qed
  qed
qed

lemma content_type_runs:
  "(cs, []) \<in> set (rx_runs content_type_rx s) \<longleftrightarrow>
     (\<exists>ct. content_type_shape s ct
        \<and> cs = [(1, ct_type ct)] @ captured 2 (ct_charset ct) @ captured 3 (ct_boundary ct))"
proof
  assume "(cs, []) \<in> set (rx_runs content_type_rx s)"
  then obtain cs1 r1 cs2 r2 cs3 r3 t p c q b where
    x: "s = t @ r1" "media_type t" "cs1 = [(1, t)]"
      "r1 = p @ r2" "optional (parameter ''charset='' 127) p c" "cs2 = captured 2 c"
      "r2 = q @ r3" "optional (parameter ''boundary='' 70) q b" "cs3 = captured 3 b"
      "([], []) \<in> set (rx_runs Spaces r3)" "cs = cs1 @ cs2 @ cs3"
    unfolding content_type_rx_def Then_iff [of _ _ "Capture 1 _"] media_type_runs
      Then_iff [of _ _ "Maybe _"] parameter_runs Spaces_iff by (elim exE conjE) simp
  then have "content_type_shape s \<lparr>ct_type = t, ct_charset = c, ct_boundary = b\<rparr>"
    unfolding content_type_shape_def Spaces_iff by auto
  with x show "\<exists>ct. content_type_shape s ct
      \<and> cs = [(1, ct_type ct)] @ captured 2 (ct_charset ct) @ captured 3 (ct_boundary ct)"
    by (intro exI [of _ "\<lparr>ct_type = t, ct_charset = c, ct_boundary = b\<rparr>"]) simp
next
  assume "\<exists>ct. content_type_shape s ct
      \<and> cs = [(1, ct_type ct)] @ captured 2 (ct_charset ct) @ captured 3 (ct_boundary ct)"
  then obtain ct where ct: "content_type_shape s ct"
    "cs = [(1, ct_type ct)] @ captured 2 (ct_charset ct) @ captured 3 (ct_boundary ct)" by blast
  from ct(1) obtain p q ws where x: "s = ct_type ct @ p @ q @ ws" "media_type (ct_type ct)"
    "optional (parameter ''charset='' 127) p (ct_charset ct)"
    "optional (parameter ''boundary='' 70) q (ct_boundary ct)" "list_all is_space ws"
    unfolding content_type_shape_def by blast
  have 4: "([], []) \<in> set (rx_runs Spaces ws)" unfolding Spaces_iff using x(5) by simp
  have 3: "(captured 3 (ct_boundary ct), ws) \<in> set (rx_runs (Maybe (Then (Word '';'') (Then Spaces
      (Then (Word ''boundary='') (Capture 3 (Chars value_char 1 70)))))) (q @ ws))"
    unfolding parameter_runs using x(4) by blast
  have 2: "(captured 2 (ct_charset ct), q @ ws) \<in> set (rx_runs (Maybe (Then (Word '';'') (Then Spaces
      (Then (Word ''charset='') (Capture 2 (Chars value_char 1 127)))))) (p @ q @ ws))"
    unfolding parameter_runs using x(3) by blast
  have 1: "([(1, ct_type ct)], p @ q @ ws) \<in> set (rx_runs (Capture 1 (Then (Chars type_char 1 127)
      (Then (Word ''/'') (Chars type_char 1 127)))) s)"
    unfolding media_type_runs using x(1,2) by blast
  show "(cs, []) \<in> set (rx_runs content_type_rx s)"
    unfolding content_type_rx_def ct(2) by (rule run_seq [OF 1 run_seq [OF 2 run_last [OF 3 4]]])
qed

section \<open>The grammar is unambiguous\<close>

text \<open>What a string starts with, as far as it belongs to a class.\<close>

lemma takeWhile_part: "list_all P x \<Longrightarrow> r = [] \<or> \<not> P (hd r) \<Longrightarrow> takeWhile P (x @ r) = x"
  by (cases r) (auto simp: list_all_iff takeWhile_append)

lemma same_prefix:
  assumes "x @ r = y @ r'" "list_all P x" "list_all P y" "r = [] \<or> \<not> P (hd r)" "r' = [] \<or> \<not> P (hd r')"
  shows "x = y \<and> r = r'"
proof -
  have "x = y" using takeWhile_part [of P x r] takeWhile_part [of P y r'] assms by metis
  with assms(1) show ?thesis by simp
qed

definition starts :: "string \<Rightarrow> bool" where
  "starts r \<longleftrightarrow> r = [] \<or> is_space (hd r) \<or> hd r = CHR '';''"

lemma starts_type: "starts r \<Longrightarrow> r = [] \<or> \<not> type_char (hd r)"
  by (auto simp: starts_def space_not_type)

lemma starts_value: "starts r \<Longrightarrow> r = [] \<or> \<not> value_char (hd r)"
  by (auto simp: starts_def space_not_value)

lemma optional_starts: "optional (parameter key n) p v \<Longrightarrow> starts r \<Longrightarrow> starts (p @ r)"
  by (auto simp: optional_def parameter_def starts_def)

lemma spaces_start: "list_all is_space ws \<Longrightarrow> starts ws"
  by (cases ws) (auto simp: starts_def)

lemma media_type_unique:
  assumes "t @ r = t' @ r'" "media_type t" "media_type t'" "starts r" "starts r'"
  shows "t = t' \<and> r = r'"
proof -
  from assms(2,3) obtain a b a' b' where t: "t = a @ ''/'' @ b" "t' = a' @ ''/'' @ b'"
    "list_all type_char a" "list_all type_char b" "list_all type_char a'" "list_all type_char b'"
    unfolding media_type_def by blast
  have "a @ (''/'' @ b @ r) = a' @ (''/'' @ b' @ r')" using assms(1) t(1,2) by simp
  then have "a = a' \<and> ''/'' @ b @ r = ''/'' @ b' @ r'" using t(3,5) by (intro same_prefix) auto
  moreover from this have "b @ r = b' @ r'" by simp
  then have "b = b' \<and> r = r'" using t(4,6) assms(4,5) by (intro same_prefix) (auto dest: starts_type)
  ultimately show ?thesis using t(1,2) by simp
qed

text \<open>A parameter is told from another one and from the final blanks by its first letters.\<close>

lemma parameter_unique:
  assumes "p @ r = p' @ r'" "parameter key n p v" "parameter key n p' v'" "starts r" "starts r'"
    and key: "key \<noteq> []" "\<not> is_space (hd key)" "\<And>c. lower c = lower (hd key) \<Longrightarrow> \<not> is_space c"
  shows "v = v' \<and> r = r'"
proof -
  from assms(2,3) obtain sp w sp' w' where p: "p = '';'' @ sp @ w @ v" "p' = '';'' @ sp' @ w' @ v'"
    "list_all is_space sp" "list_all is_space sp'" "same_word w key" "same_word w' key"
    "list_all value_char v" "list_all value_char v'"
    unfolding parameter_def by blast
  have len: "length w = length key" "length w' = length key"
    using p(5,6) unfolding same_word_def by (metis length_map)+
  have hd: "x \<noteq> [] \<and> \<not> is_space (hd x)" if "same_word x key" for x
    using that key by (cases x; cases key) (auto simp: same_word_def)
  have "sp @ (w @ v @ r) = sp' @ (w' @ v' @ r')" using assms(1) p(1,2) by simp
  then have "sp = sp' \<and> w @ v @ r = w' @ v' @ r'"
    using p(3,4) hd [OF p(5)] hd [OF p(6)] by (intro same_prefix [where P = is_space]) auto
  then have "v @ r = v' @ r'" using len by auto
  then show ?thesis
    using p(7,8) assms(4,5) by (intro same_prefix [where P = value_char]) (auto dest: starts_value)
qed

lemma parameters_differ:
  assumes "p @ r = p' @ r'" "parameter key n p v" "parameter key' n' p' v'"
    and key: "key \<noteq> []" "key' \<noteq> []" "lower (hd key) \<noteq> lower (hd key')"
      "\<And>c. lower c = lower (hd key) \<Longrightarrow> \<not> is_space c" "\<And>c. lower c = lower (hd key') \<Longrightarrow> \<not> is_space c"
  shows False
proof -
  from assms(2,3) obtain sp w sp' w' where p: "p = '';'' @ sp @ w @ v" "p' = '';'' @ sp' @ w' @ v'"
    "list_all is_space sp" "list_all is_space sp'" "same_word w key" "same_word w' key'"
    unfolding parameter_def by blast
  have hd: "x \<noteq> [] \<and> lower (hd x) = lower (hd k)" if "same_word x k" "k \<noteq> []" for x k
    using that by (cases x; cases k) (auto simp: same_word_def)
  have "sp @ (w @ v @ r) = sp' @ (w' @ v' @ r')" using assms(1) p(1,2) by simp
  then have "w @ v @ r = w' @ v' @ r'"
    using p(3,4) hd [OF p(5) key(1)] hd [OF p(6) key(2)] key(4,5)
      same_prefix [of sp "w @ v @ r" sp' "w' @ v' @ r'" is_space] by auto
  then have "hd w = hd w'" using hd [OF p(5) key(1)] hd [OF p(6) key(2)] by (metis hd_append2)
  then show False using hd [OF p(5) key(1)] hd [OF p(6) key(2)] key(3) by simp
qed

lemma optional_unique:
  assumes "p @ r = p' @ r'" "optional (parameter key n) p v" "optional (parameter key n) p' v'"
    and st: "starts r" "starts r'"
    and key: "key \<noteq> []" "\<And>c. lower c = lower (hd key) \<Longrightarrow> \<not> is_space c"
    and other: "\<And>p v x. parameter key n p v \<Longrightarrow> r \<noteq> p @ x" "\<And>p v x. parameter key n p v \<Longrightarrow> r' \<noteq> p @ x"
  shows "v = v' \<and> r = r'"
proof -
  from assms(2,3) consider "parameter key n p v" "parameter key n p' v'"
    | "parameter key n p v" "p' = []" | "p = []" "parameter key n p' v'" | "p = []" "p' = []" "v = []" "v' = []"
    unfolding optional_def by blast
  then show ?thesis
  proof cases
    case 1
    from parameter_unique [OF assms(1) 1 st key(1) key(2) [OF refl] key(2)] show ?thesis by blast
  next
    case 2
    with other(2) [OF 2(1), of r] assms(1) show ?thesis by simp
  next
    case 3
    with other(1) [OF 3(2), of r'] assms(1) show ?thesis by simp
  qed (use assms(1) in simp)
qed

lemma parameter_head: "parameter key n p v \<Longrightarrow> p \<noteq> [] \<and> hd p = CHR '';''"
  by (auto simp: parameter_def)

lemma no_parameter_in_spaces: "list_all is_space ws \<Longrightarrow> parameter key n p v \<Longrightarrow> ws \<noteq> p @ x"
  using parameter_head [of key n p v] by (cases ws; cases p) auto

lemma key_letters:
  "lower c = lower (hd ''charset='') \<Longrightarrow> \<not> is_space c" "lower c = lower (hd ''boundary='') \<Longrightarrow> \<not> is_space c"
  "lower (hd ''charset='') \<noteq> lower (hd ''boundary='')"
  using space_lower [of c] by (auto simp: lower_def is_space_def)

lemma shape_unique:
  assumes "content_type_shape s ct" "content_type_shape s ct'"
  shows "ct = ct'"
proof -
  from assms(1) obtain p q ws where x: "s = ct_type ct @ p @ q @ ws" "media_type (ct_type ct)"
    "optional (parameter ''charset='' 127) p (ct_charset ct)"
    "optional (parameter ''boundary='' 70) q (ct_boundary ct)" "list_all is_space ws"
    unfolding content_type_shape_def by blast
  from assms(2) obtain p' q' ws' where y: "s = ct_type ct' @ p' @ q' @ ws'" "media_type (ct_type ct')"
    "optional (parameter ''charset='' 127) p' (ct_charset ct')"
    "optional (parameter ''boundary='' 70) q' (ct_boundary ct')" "list_all is_space ws'"
    unfolding content_type_shape_def by blast
  note st = spaces_start [OF x(5)] spaces_start [OF y(5)]
  note st2 = optional_starts [OF x(4) st(1)] optional_starts [OF y(4) st(2)]
  have t: "ct_type ct = ct_type ct' \<and> p @ q @ ws = p' @ q' @ ws'"
    using media_type_unique [OF _ x(2) y(2) optional_starts [OF x(3) st2(1)] optional_starts [OF y(3) st2(2)]]
      x(1) y(1) by simp
  have other: "q0 @ ws0 \<noteq> p0 @ z"
    if "optional (parameter ''boundary='' 70) q0 b" "list_all is_space ws0" "parameter ''charset='' 127 p0 c"
    for q0 ws0 p0 z b c
  proof
    assume eq: "q0 @ ws0 = p0 @ z"
    from that(1) show False unfolding optional_def
    proof
      assume "parameter ''boundary='' 70 q0 b"
      from parameters_differ [OF eq this that(3)] key_letters show False by auto
    next
      assume "q0 = [] \<and> b = []"
      with eq no_parameter_in_spaces [OF that(2,3), of z] show False by simp
    qed
  qed
  have c: "ct_charset ct = ct_charset ct' \<and> q @ ws = q' @ ws'"
    by (rule optional_unique [OF conjunct2 [OF t] x(3) y(3) st2 _ key_letters(1)])
      (use other [OF x(4,5)] other [OF y(4,5)] in simp_all)
  have b: "ct_boundary ct = ct_boundary ct' \<and> ws = ws'"
    by (rule optional_unique [OF conjunct2 [OF c] x(4) y(4) st _ key_letters(2)])
      (use no_parameter_in_spaces [OF x(5)] no_parameter_in_spaces [OF y(5)] in simp_all)
  from t c b show ?thesis by simp
qed

lemma captures_group:
  "cs = [(1, t)] @ captured 2 c @ captured 3 b \<Longrightarrow> group 1 cs = t \<and> group 2 cs = c \<and> group 3 cs = b"
  by (simp add: group_def captured_def)

lemma regex_match_content_type:
  "regex_match content_type_rx s = Some cs \<longleftrightarrow> (\<exists>ct. content_type_shape s ct
     \<and> cs = [(1, ct_type ct)] @ captured 2 (ct_charset ct) @ captured 3 (ct_boundary ct))"
proof -
  have "cs = ds" if "(cs, []) \<in> set (rx_runs content_type_rx s)" "(ds, []) \<in> set (rx_runs content_type_rx s)"
    for cs ds
    using that unfolding content_type_runs using shape_unique by blast
  then show ?thesis unfolding content_type_runs [symmetric] by (intro regex_match_unique)
qed

lemma parse_shape: "parse_content_type s = Inr ct \<longleftrightarrow> content_type_shape s ct"
proof
  assume "parse_content_type s = Inr ct"
  then obtain cs where cs: "regex_match content_type_rx s = Some cs"
    and ct: "ct = \<lparr>ct_type = group 1 cs, ct_charset = group 2 cs, ct_boundary = group 3 cs\<rparr>"
    by (auto simp: parse_content_type_def split: option.splits)
  then obtain ct' where ct': "content_type_shape s ct'"
    and "cs = [(1, ct_type ct')] @ captured 2 (ct_charset ct') @ captured 3 (ct_boundary ct')"
    unfolding regex_match_content_type by blast
  with captures_group ct have "ct = ct'" by (cases ct') simp
  with ct' show "content_type_shape s ct" by simp
next
  assume sh: "content_type_shape s ct"
  let ?cs = "[(1, ct_type ct)] @ captured 2 (ct_charset ct) @ captured 3 (ct_boundary ct)"
  have "regex_match content_type_rx s = Some ?cs" unfolding regex_match_content_type using sh by blast
  with captures_group [of ?cs] show "parse_content_type s = Inr ct" by (cases ct) (simp add: parse_content_type_def)
qed

end
