(* ===== verification/Content_Type_Properties.thy ===== *)
theory Content_Type_Properties
  imports Content_Type
begin

text \<open>
  The properties of content types: what the parser accepts, that its result can be printed and
  read back, and what the code's own printing loses.
\<close>

text \<open>What a printed content type should look like: every part that is not empty.\<close>

definition full_string :: "content_type \<Rightarrow> string" where
  "full_string ct = ct_type ct
     @ (if ct_charset ct = [] then [] else ''; charset='' @ ct_charset ct)
     @ (if ct_boundary ct = [] then [] else ''; boundary='' @ ct_boundary ct)"

definition valid_content_type :: "content_type \<Rightarrow> bool" where
  "valid_content_type ct \<longleftrightarrow> media_type (ct_type ct)
     \<and> list_all value_char (ct_charset ct) \<and> length (ct_charset ct) \<le> 127
     \<and> list_all value_char (ct_boundary ct) \<and> length (ct_boundary ct) \<le> 70"

lemma space_is_space: "is_space (CHR '' '')"
  by (simp add: is_space_def)

lemma parameter_printed:
  assumes "list_all value_char v" "length v \<le> n"
  shows "optional (parameter key n) (if v = [] then [] else ''; '' @ key @ v) v"
proof (cases "v = []")
  case False
  then have "parameter key n (''; '' @ key @ v) v"
    unfolding parameter_def using assms
    by (intro exI [of _ "'' ''"] exI [of _ key])
      (auto simp: space_is_space same_word_def Suc_leI)
  with False show ?thesis by (simp add: optional_def)
qed (simp add: optional_def)

lemma full_string_shape:
  assumes "valid_content_type ct"
  shows "content_type_shape (full_string ct) ct"
proof -
  let ?p = "if ct_charset ct = [] then [] else ''; charset='' @ ct_charset ct"
  let ?q = "if ct_boundary ct = [] then [] else ''; boundary='' @ ct_boundary ct"
  have "optional (parameter ''charset='' 127) ?p (ct_charset ct)"
    using parameter_printed [of "ct_charset ct" 127 "''charset=''"] assms
    by (cases "ct_charset ct = []") (simp_all add: valid_content_type_def)
  moreover have "optional (parameter ''boundary='' 70) ?q (ct_boundary ct)"
    using parameter_printed [of "ct_boundary ct" 70 "''boundary=''"] assms
    by (cases "ct_boundary ct = []") (simp_all add: valid_content_type_def)
  moreover have "full_string ct = ct_type ct @ ?p @ ?q @ []" by (simp add: full_string_def)
  moreover have "media_type (ct_type ct)" using assms by (simp add: valid_content_type_def)
  ultimately show ?thesis unfolding content_type_shape_def by (metis list.pred_inject(1))
qed


lemma before_element:
  assumes "a @ c # b = t @ r" "c \<notin> set t"
  shows "\<exists>m. a = t @ m \<and> m @ c # b = r"
proof -
  from assms(1) obtain us where "a = t @ us \<and> us @ c # b = r \<or> a @ us = t \<and> c # b = us @ r"
    by (auto simp: append_eq_append_conv2)
  with assms(2) show ?thesis by (cases us) auto
qed

lemma parse_error:
  "parse_content_type s = Inl (Domain_error ''malformed content type'') \<longleftrightarrow>
     \<not> (\<exists>ct. content_type_shape s ct)"
proof -
  have "parse_content_type s = Inl (Domain_error ''malformed content type'') \<longleftrightarrow>
      (\<forall>ct. parse_content_type s \<noteq> Inr ct)"
    by (auto simp: parse_content_type_def split: option.splits)
  then show ?thesis using parse_shape by simp
qed

definition html :: content_type where
  "html = \<lparr>ct_type = ''text/html'', ct_charset = ''utf-8'', ct_boundary = []\<rparr>"

lemma html_media: "media_type ''text/html''"
  unfolding media_type_def
  by (intro exI [of _ "''text''"] exI [of _ "''html''"]) (simp add: type_char_def is_word_def)

lemma html_valid: "valid_content_type html"
  using html_media by (simp add: valid_content_type_def html_def value_char_def is_word_def)

text \<open>
  C34. The regular expression reads exactly the grammar of content types, and it reads each
  string in only one way: the parser returns the parts of the string if it has the shape of a
  content type, and otherwise throws \<open>domain_error\<close>.
\<close>

theorem parse_reads_grammar:
  "(parse_content_type s = Inr ct \<longleftrightarrow> content_type_shape s ct)
   \<and> (parse_content_type s = Inl (Domain_error ''malformed content type'')
        \<longleftrightarrow> \<not> (\<exists>ct. content_type_shape s ct))"
  using parse_shape parse_error by blast


text \<open>
  The code's own \<open>to_string\<close> prints the media type alone: read back, the result is equal to
  the content type that was printed only if this had neither a character set nor a boundary.
\<close>

theorem to_string_loses_parameters:
  assumes "media_type (ct_type ct)"
  shows "\<exists>ct'. parse_content_type (content_type_to_string ct) = Inr ct'
    \<and> (content_type_eq ct ct' \<longleftrightarrow> ct_charset ct = [] \<and> ct_boundary ct = [])"
proof -
  let ?ct = "\<lparr>ct_type = ct_type ct, ct_charset = [], ct_boundary = []\<rparr>"
  have "parse_content_type (full_string ?ct) = Inr ?ct"
    using assms by (intro parse_shape [THEN iffD2] full_string_shape) (simp add: valid_content_type_def)
  then show ?thesis
    by (auto simp: full_string_def content_type_to_string_def content_type_eq_def same_word_def)
qed

theorem to_string_loses_parameters_witness:
  "\<exists>ct'. parse_content_type (content_type_to_string html) = Inr ct' \<and> \<not> content_type_eq html ct'"
  using to_string_loses_parameters [of html] html_media by (auto simp: html_def)

text \<open>
  A media type with a dot or a plus sign is rejected, although RFC 6838 allows both
  (\<open>image/svg+xml\<close>, \<open>application/vnd.api+json\<close>): if one occurs before the first semicolon,
  parsing throws.
\<close>

theorem dots_and_plus_rejected:
  assumes "c = CHR ''.'' \<or> c = CHR ''+''" "CHR '';'' \<notin> set a"
  shows "parse_content_type (a @ c # b) = Inl (Domain_error ''malformed content type'')"
proof -
  have "\<not> content_type_shape (a @ c # b) ct" for ct
  proof
    assume "content_type_shape (a @ c # b) ct"
    then obtain p q ws where x: "a @ c # b = ct_type ct @ p @ q @ ws" "media_type (ct_type ct)"
      "optional (parameter ''charset='' 127) p (ct_charset ct)"
      "optional (parameter ''boundary='' 70) q (ct_boundary ct)" "list_all is_space ws"
      unfolding content_type_shape_def by blast
    have c: "\<not> type_char c" "c \<noteq> CHR ''/''" "\<not> is_space c" "c \<noteq> CHR '';''"
      using assms(1) by (auto simp: type_char_def is_word_def is_space_def)
    have "c \<notin> set (ct_type ct)" using x(2) c(1,2) by (auto simp: media_type_def list_all_iff)
    with before_element x(1) obtain m where m: "a = ct_type ct @ m" "m @ c # b = p @ q @ ws" by metis
    show False
    proof (cases "p = [] \<and> q = []")
      case True
      with m(2) have "c \<in> set ws" by (metis append_Nil in_set_conv_decomp)
      with x(5) c(3) show False by (auto simp: list_all_iff)
    next
      case False
      then have "hd (p @ q @ ws) = CHR '';''"
        using x(3,4) parameter_head by (cases "p = []") (auto simp: optional_def)
      then have "hd (m @ c # b) = CHR '';''" unfolding m(2) .
      with c(4) have "CHR '';'' \<in> set m" by (cases m) auto
      with assms(2) m(1) show False by simp
    qed
  qed
  then show ?thesis unfolding parse_error by blast
qed

theorem dots_and_plus_rejected_witness:
  "parse_content_type ''image/svg+xml'' = Inl (Domain_error ''malformed content type'')"
  using dots_and_plus_rejected [of "CHR ''+''" "''image/svg''" "''xml''"] by simp

end
