(* ===== verification/Message.thy ===== *)
theory Message
  imports Content_Type Url Asio
begin

text \<open>
  HTTP messages: \<open>http/message.hpp\<close>, \<open>http/request.hpp\<close>, \<open>http/response.hpp\<close>,
  \<open>http/detail/request.cpp\<close>, \<open>http/authorization.cpp\<close>, and the small enumerations and
  records of \<open>core/options.hpp\<close>, \<open>core/cache_mode.cpp\<close> and \<open>core/field_arg.hpp\<close>. The
  container of header fields is Boost.Beast's, base64 too: they are parameters.
\<close>

section \<open>Header fields\<close>

datatype field =
    Host | User_agent | Cache_control | Content_type_field | Content_length | Accept
  | Authorization | Proxy_authorization | Proxy_connection | Other_field string

text \<open>
  The operations of \<open>beast::http::fields\<close> and of the message on top of it that the code uses:
  \<open>set\<close>, \<open>insert\<close>, the value \<open>find\<close> and \<open>at\<close> give (none if there is no such field),
  \<open>has_content_length\<close>, and \<open>prepare_payload\<close>, given the size of the body.
\<close>

record 'f beast =
  b_empty :: 'f
  b_set :: "field \<Rightarrow> string \<Rightarrow> 'f \<Rightarrow> 'f"
  b_insert :: "field \<Rightarrow> string \<Rightarrow> string \<Rightarrow> 'f \<Rightarrow> 'f"
  b_find :: "field \<Rightarrow> 'f \<Rightarrow> string option"
  b_has_content_length :: "'f \<Rightarrow> bool"
  b_prepare_payload :: "nat \<Rightarrow> 'f \<Rightarrow> 'f"
  b_field_string :: "field \<Rightarrow> string"
  b_string_field :: "string \<Rightarrow> field"

text \<open>
  Documented behaviour: \<open>set\<close> replaces, \<open>insert\<close> adds after the fields of the same name,
  \<open>find\<close> sees the first one, and \<open>prepare_payload\<close> sets the content length of a payload
  that is not empty and touches no field but this one and the transfer encoding.
\<close>

definition beast_laws :: "'f beast \<Rightarrow> bool" where
  "beast_laws B \<longleftrightarrow>
     (\<forall>k. b_find B k (b_empty B) = None)
     \<and> (\<forall>k l v f. b_find B k (b_set B l v f) = (if k = l then Some v else b_find B k f))
     \<and> (\<forall>k l n v f. b_find B k (b_insert B l n v f) =
          (if k = l \<and> b_find B k f = None then Some v else b_find B k f))
     \<and> (\<forall>f. b_has_content_length B f \<longleftrightarrow> b_find B Content_length f \<noteq> None)
     \<and> (\<forall>n f. 0 < n \<longrightarrow> b_find B Content_length (b_prepare_payload B n f) = Some (to_dec n))
     \<and> (\<forall>k n f. k \<noteq> Content_length \<longrightarrow> k \<noteq> Other_field ''Transfer-Encoding'' \<longrightarrow>
          b_find B k (b_prepare_payload B n f) = b_find B k f)"

section \<open>Messages\<close>

text \<open>\<open>message\<close>: the fields, and the bytes of the body's dynamic buffer.\<close>

record 'f message =
  msg_fields :: 'f
  msg_body :: string

text \<open>\<open>at\<close> throws when there is no such field.\<close>

definition field_at :: "'f beast \<Rightarrow> field \<Rightarrow> ('f, 'z) message_scheme \<Rightarrow> string result" where
  "field_at B k m = (case b_find B k (msg_fields m) of Some v \<Rightarrow> Inr v | None \<Rightarrow> Inl Out_of_range)"

text \<open>
  \<open>std::from_chars\<close> into a \<open>std::size_t\<close>: the longest run of digits; with no digit or a value
  that does not fit, the result is not written.
\<close>

definition from_chars :: "string \<Rightarrow> 64 word option" where
  "from_chars s =
     (let ds = takeWhile is_digit s; n = dec_value 0 ds in
      if ds = [] \<or> n \<ge> 2 ^ 64 then None else Some (word_of_nat n))"

text \<open>\<open>content_length\<close>: \<open>result\<close> is read even where \<open>from_chars\<close> did not write it.\<close>

definition content_length :: "'f beast \<Rightarrow> ('f, 'z) message_scheme \<Rightarrow> 64 word option result" where
  "content_length B m =
     (if \<not> b_has_content_length B (msg_fields m) then Inr None
      else bind_result (field_at B Content_length m) (\<lambda>view.
        case from_chars view of Some n \<Rightarrow> Inr (Some n) | None \<Rightarrow> Inl Undefined_behaviour))"

definition has_content_type :: "'f beast \<Rightarrow> ('f, 'z) message_scheme \<Rightarrow> bool" where
  "has_content_type B m \<longleftrightarrow> b_find B Content_type_field (msg_fields m) \<noteq> None"

definition get_content_type :: "'f beast \<Rightarrow> ('f, 'z) message_scheme \<Rightarrow> content_type option result" where
  "get_content_type B m =
     (if \<not> has_content_type B m then Inr None
      else bind_result (field_at B Content_type_field m) (\<lambda>v.
        bind_result (parse_content_type v) (\<lambda>ct. Inr (Some ct))))"

definition set_field :: "'f beast \<Rightarrow> field \<Rightarrow> string \<Rightarrow> ('f, 'z) message_scheme \<Rightarrow> ('f, 'z) message_scheme" where
  "set_field B k v m = m\<lparr>msg_fields := b_set B k v (msg_fields m)\<rparr>"

text \<open>\<open>set(content_type const&)\<close> and \<open>content_type(string_view)\<close>.\<close>

definition set_content_type :: "'f beast \<Rightarrow> content_type \<Rightarrow> ('f, 'z) message_scheme \<Rightarrow> ('f, 'z) message_scheme" where
  "set_content_type B ct = set_field B Content_type_field (content_type_to_string ct)"

definition set_content_type_string :: "'f beast \<Rightarrow> string \<Rightarrow> ('f, 'z) message_scheme \<Rightarrow> ('f, 'z) message_scheme" where
  "set_content_type_string B ct = set_field B Content_type_field ct"

definition is_content_type :: "'f beast \<Rightarrow> string \<Rightarrow> ('f, 'z) message_scheme \<Rightarrow> bool result" where
  "is_content_type B type m =
     bind_result (get_content_type B m) (\<lambda>ct.
       case ct of Some ct \<Rightarrow> Inr (ct_type ct = type) | None \<Rightarrow> Inr False)"

definition is_json :: "'f beast \<Rightarrow> ('f, 'z) message_scheme \<Rightarrow> bool result" where
  "is_json B = is_content_type B ''application/json''"

definition is_text :: "'f beast \<Rightarrow> ('f, 'z) message_scheme \<Rightarrow> bool result" where
  "is_text B = is_content_type B ''text/plain''"

definition is_content :: "'f beast \<Rightarrow> ('f, 'z) message_scheme \<Rightarrow> bool result" where
  "is_content B m =
     bind_result (is_content_type B ''application/octet-stream'' m) (\<lambda>o1.
       if o1 then Inr True
       else bind_result (is_json B m) (\<lambda>j.
         if j then Inr False else bind_result (is_text B m) (\<lambda>t. Inr (\<not> t))))"

text \<open>
  Reading the body, and the two overloads of \<open>content\<close> that write it: what is committed is
  appended to the buffer.
\<close>

definition text_of :: "('f, 'z) message_scheme \<Rightarrow> string" where
  "text_of m = msg_body m"

definition json_of :: "(string \<Rightarrow> 'j result) \<Rightarrow> ('f, 'z) message_scheme \<Rightarrow> 'j result" where
  "json_of parse m = parse (text_of m)"

definition add_content :: "'f beast \<Rightarrow> string \<Rightarrow> string \<Rightarrow> ('f, 'z) message_scheme \<Rightarrow> ('f, 'z) message_scheme" where
  "add_content B type value m =
     (let m1 = m\<lparr>msg_body := msg_body m @ value\<rparr>;
          f = b_insert B Content_type_field (b_field_string B Content_type_field) type (msg_fields m1)
      in m1\<lparr>msg_fields := b_prepare_payload B (length (msg_body m1)) f\<rparr>)"

definition content_text :: "'f beast \<Rightarrow> string \<Rightarrow> ('f, 'z) message_scheme \<Rightarrow> ('f, 'z) message_scheme" where
  "content_text B = add_content B ''text/plain''"

definition content_buffer :: "'f beast \<Rightarrow> string \<Rightarrow> ('f, 'z) message_scheme \<Rightarrow> ('f, 'z) message_scheme" where
  "content_buffer B = add_content B ''application/octet-stream''"

section \<open>Authorization\<close>

datatype authorization_method = Basic string string | Bearer string

definition authorization_to_string :: "(string \<Rightarrow> string) \<Rightarrow> authorization_method \<Rightarrow> string" where
  "authorization_to_string base64 m =
     (case m of
        Basic user password \<Rightarrow> ''Basic '' @ base64 (user @ '':'' @ password)
      | Bearer token \<Rightarrow> ''Bearer '' @ token)"

definition set_authorization ::
  "'f beast \<Rightarrow> (string \<Rightarrow> string) \<Rightarrow> authorization_method \<Rightarrow> ('f, 'z) message_scheme \<Rightarrow> ('f, 'z) message_scheme" where
  "set_authorization B base64 a = set_field B Authorization (authorization_to_string base64 a)"

section \<open>Requests and responses\<close>

definition user_agent :: string where
  "user_agent = ''fetchpp/dev''"

definition set_options :: "'f beast \<Rightarrow> string \<Rightarrow> 'f \<Rightarrow> 'f" where
  "set_options B h f =
     b_set B Cache_control ''no-cache'' (b_set B User_agent user_agent (b_set B Host h f))"

record ('f, 'u) request = "'f message" +
  req_method :: verb
  req_target :: string
  req_version :: nat
  req_uri :: 'u

definition basic_request :: "'u skyr \<Rightarrow> 'f beast \<Rightarrow> verb \<Rightarrow> 'u \<Rightarrow> ('f, 'u) request" where
  "basic_request S B v u =
     \<lparr>msg_fields = set_options B (u_host S u) (b_empty B), msg_body = [],
      req_method = v, req_target = target S u, req_version = 11, req_uri = u\<rparr>"

definition accept :: "'f beast \<Rightarrow> string \<Rightarrow> ('f, 'z) message_scheme \<Rightarrow> ('f, 'z) message_scheme" where
  "accept B ct = set_field B Accept ct"

definition accept_content_type :: "'f beast \<Rightarrow> content_type \<Rightarrow> ('f, 'z) message_scheme \<Rightarrow> ('f, 'z) message_scheme" where
  "accept_content_type B ct = set_field B Accept (content_type_to_string ct)"

record 'f response = "'f message" +
  res_status :: nat

text \<open>\<open>to_status_class\<close> is Beast's: \<open>successful\<close> tells whether it gives \<open>status_class::successful\<close>.\<close>

definition response_ok :: "(nat \<Rightarrow> bool) \<Rightarrow> ('f, 'z) response_scheme \<Rightarrow> bool" where
  "response_ok successful r = successful (res_status r)"

section \<open>Options\<close>

datatype cache_mode = Max_stale | No_cache | No_store | No_transform | Only_if_cached

fun cache_mode_to_string :: "cache_mode \<Rightarrow> string" where
  "cache_mode_to_string Max_stale = ''max_stale''"
| "cache_mode_to_string No_cache = ''no-cache''"
| "cache_mode_to_string No_store = ''no-cache''"
| "cache_mode_to_string No_transform = ''no-transform''"
| "cache_mode_to_string Only_if_cached = ''only-if-cached''"

datatype redirect_handling = Manual | Abort | Follow

datatype http_version = V10 | V11

record options =
  opt_version :: http_version
  opt_cache :: cache_mode
  opt_redirect :: redirect_handling

definition default_options :: options where
  "default_options = \<lparr>opt_version = V11, opt_cache = No_store, opt_redirect = Manual\<rparr>"

definition set_version :: "http_version \<Rightarrow> options \<Rightarrow> options" where
  "set_version hv o1 = o1\<lparr>opt_version := hv\<rparr>"

definition set_cache :: "cache_mode \<Rightarrow> options \<Rightarrow> options" where
  "set_cache c o1 = o1\<lparr>opt_cache := c\<rparr>"

definition set_redirect :: "redirect_handling \<Rightarrow> options \<Rightarrow> options" where
  "set_redirect r o1 = o1\<lparr>opt_redirect := r\<rparr>"

record field_arg =
  fa_field :: field
  fa_name :: string
  fa_value :: string

definition field_arg_of_field :: "'f beast \<Rightarrow> field \<Rightarrow> string \<Rightarrow> field_arg" where
  "field_arg_of_field B k v = \<lparr>fa_field = k, fa_name = b_field_string B k, fa_value = v\<rparr>"

definition field_arg_of_name :: "'f beast \<Rightarrow> string \<Rightarrow> string \<Rightarrow> field_arg" where
  "field_arg_of_name B n v = \<lparr>fa_field = b_string_field B n, fa_name = n, fa_value = v\<rparr>"

text \<open>
  The request that \<open>async_get\<close> and \<open>async_post\<close> build before they fetch it: the caller's
  fields are inserted, so a field that the constructor or \<open>content\<close> has set stays the first.
\<close>

definition insert_fields :: "'f beast \<Rightarrow> field_arg list \<Rightarrow> ('f, 'z) message_scheme \<Rightarrow> ('f, 'z) message_scheme" where
  "insert_fields B fs m =
     fold (\<lambda>a m. m\<lparr>msg_fields := b_insert B (fa_field a) (fa_name a) (fa_value a) (msg_fields m)\<rparr>) fs m"

definition get_request_of :: "'u skyr \<Rightarrow> 'f beast \<Rightarrow> 'u \<Rightarrow> field_arg list \<Rightarrow> ('f, 'u) request" where
  "get_request_of S B u fs = insert_fields B fs (basic_request S B Get u)"

definition post_request_of :: "'u skyr \<Rightarrow> 'f beast \<Rightarrow> 'u \<Rightarrow> string \<Rightarrow> field_arg list \<Rightarrow> ('f, 'u) request" where
  "post_request_of S B u body fs = insert_fields B fs (content_buffer B body (basic_request S B Post u))"

end
