(* ===== verification/Message_Properties.thy ===== *)
theory Message_Properties
  imports Message Content_Type_Properties Url_Properties
begin

text \<open>
  The properties of messages and requests, with header fields as an association list, which
  satisfies the laws assumed of Boost.Beast.
\<close>

section \<open>Concrete fields\<close>

type_synonym demo_fields = "(field \<times> string) list"

definition demo_beast :: "demo_fields beast" where
  "demo_beast = \<lparr>
     b_empty = [],
     b_set = (\<lambda>k v f. (k, v) # filter (\<lambda>(l, w). l \<noteq> k) f),
     b_insert = (\<lambda>k n v f. f @ [(k, v)]),
     b_find = (\<lambda>k f. map_of f k),
     b_has_content_length = (\<lambda>f. map_of f Content_length \<noteq> None),
     b_prepare_payload = (\<lambda>n f. (Content_length, to_dec n) # filter (\<lambda>(l, w). l \<noteq> Content_length) f),
     b_field_string = (\<lambda>k. []),
     b_string_field = Other_field\<rparr>"

lemma map_of_filter_key: "map_of (filter (\<lambda>(l, w). l \<noteq> k) f) j = (if j = k then None else map_of f j)"
  by (induction f) auto

lemma demo_beast_laws: "beast_laws demo_beast"
  by (simp add: beast_laws_def demo_beast_def map_of_filter_key map_add_def split: option.split)

definition demo_message :: "demo_fields message" where
  "demo_message = \<lparr>msg_fields = [], msg_body = []\<rparr>"

section \<open>Lemmas\<close>


lemma add_content_find:
  assumes "beast_laws B"
  shows "b_find B Content_type_field (msg_fields (add_content B type v m)) =
      (case b_find B Content_type_field (msg_fields m) of Some t \<Rightarrow> Some t | None \<Rightarrow> Some type)"
    and "0 < length (msg_body m) + length v \<Longrightarrow>
      b_find B Content_length (msg_fields (add_content B type v m)) = Some (to_dec (length (msg_body m) + length v))"
  using assms by (auto simp: add_content_def Let_def beast_laws_def split: option.split)

lemma text_plain_valid: "valid_content_type \<lparr>ct_type = ''text/plain'', ct_charset = [], ct_boundary = []\<rparr>"
proof -
  have "media_type ''text/plain''"
    unfolding media_type_def
    by (intro exI [of _ "''text''"] exI [of _ "''plain''"]) (simp add: type_char_def is_word_def)
  then show ?thesis by (simp add: valid_content_type_def)
qed

lemma parse_text_plain:
  "parse_content_type ''text/plain'' = Inr \<lparr>ct_type = ''text/plain'', ct_charset = [], ct_boundary = []\<rparr>"
  using full_string_shape [OF text_plain_valid] parse_shape by (simp add: full_string_def)

text \<open>The fields of a new request, and that fields inserted later leave the first of a name.\<close>

lemma basic_request_find:
  assumes "beast_laws B"
  shows "b_find B k (msg_fields (basic_request S B v u)) = (if k = Cache_control then Some ''no-cache''
      else if k = User_agent then Some user_agent else if k = Host then Some (u_host S u) else None)"
  using assms by (simp add: basic_request_def set_options_def beast_laws_def)

lemma insert_fields_keep:
  assumes "beast_laws B" "b_find B k (msg_fields m) = Some v"
  shows "b_find B k (msg_fields (insert_fields B fs m)) = Some v"
  using assms unfolding insert_fields_def by (induction fs arbitrary: m) (simp_all add: beast_laws_def)

lemma insert_fields_rest:
  "req_method (insert_fields B fs m) = req_method m" "req_target (insert_fields B fs m) = req_target m"
  "req_version (insert_fields B fs m) = req_version m" "msg_body (insert_fields B fs m) = msg_body m"
  unfolding insert_fields_def by (induction fs arbitrary: m) simp_all

section \<open>Properties\<close>



text \<open>
  A content length that does not start with a digit, or does not fit 64 bits, makes
  \<open>content_length\<close> return a variable that was never written; one that only starts with digits
  is taken for its first digits.
\<close>

theorem content_length_of_garbage:
  assumes "b_has_content_length B (msg_fields m)" "b_find B Content_length (msg_fields m) = Some v"
  shows "(content_length B m = Inl Undefined_behaviour
      \<longleftrightarrow> v = [] \<or> \<not> is_digit (hd v) \<or> 2 ^ 64 \<le> dec_value 0 (takeWhile is_digit v))
    \<and> (v = to_dec n @ rest \<and> n < 2 ^ 64 \<and> (rest = [] \<or> \<not> is_digit (hd rest))
      \<longrightarrow> content_length B m = Inr (Some (word_of_nat n)))"
proof -
  have "takeWhile is_digit (to_dec n @ rest) = to_dec n" if "rest = [] \<or> \<not> is_digit (hd rest)"
    using that to_dec_digits [of _ n] by (cases rest) (auto simp: takeWhile_append)
  moreover have "takeWhile is_digit v = [] \<longleftrightarrow> v = [] \<or> \<not> is_digit (hd v)" by (cases v) auto
  ultimately show ?thesis using assms
    by (auto simp: content_length_def field_at_def from_chars_def Let_def split: option.splits)
qed

theorem content_length_of_garbage_witness:
  "content_length demo_beast (demo_message\<lparr>msg_fields := [(Content_length, ''x'')]\<rparr>) = Inl Undefined_behaviour
   \<and> content_length demo_beast (demo_message\<lparr>msg_fields := [(Content_length, ''12x'')]\<rparr>) = Inr (Some 12)"
proof -
  have "to_dec 12 = ''12''" by code_simp
  then show ?thesis
    using content_length_of_garbage [of demo_beast "demo_message\<lparr>msg_fields := [(Content_length, ''x'')]\<rparr>" "''x''"]
      content_length_of_garbage [of demo_beast "demo_message\<lparr>msg_fields := [(Content_length, ''12x'')]\<rparr>" "''12x''" 12 "''x''"]
    by (simp add: demo_beast_def is_digit_def)
qed

text \<open>
  The content type a message is created with wins: \<open>content\<close> inserts its own content type
  behind one that is already set, so a body written as text is read as text only if no content
  type was set before.
\<close>

theorem first_content_type_wins:
  assumes "beast_laws B"
  shows "get_content_type B (content_text B v m) =
      (if has_content_type B m then get_content_type B m
       else Inr (Some \<lparr>ct_type = ''text/plain'', ct_charset = [], ct_boundary = []\<rparr>))"
  using add_content_find(1) [OF assms, of "''text/plain''" v m]
  by (auto simp: get_content_type_def has_content_type_def field_at_def content_text_def parse_text_plain
      split: option.splits)

theorem first_content_type_wins_witness:
  "get_content_type demo_beast (content_text demo_beast ''hello'' demo_message)
     = Inr (Some \<lparr>ct_type = ''text/plain'', ct_charset = [], ct_boundary = []\<rparr>)"
  using first_content_type_wins [OF demo_beast_laws, of "''hello''" demo_message]
  by (simp add: has_content_type_def demo_message_def demo_beast_def)

text \<open>
  Asking what a message contains throws whenever its content type cannot be parsed, instead
  of answering that it is neither JSON nor text; otherwise a message is of exactly one of the
  three kinds.
\<close>

theorem kinds_of_content:
  "(\<forall>e. get_content_type B m = Inl e \<longleftrightarrow> is_json B m = Inl e \<and> is_text B m = Inl e \<and> is_content B m = Inl e)
   \<and> (get_content_type B m = Inr ct \<longrightarrow>
        (\<exists>j t. is_json B m = Inr j \<and> is_text B m = Inr t \<and> is_content B m = Inr (\<not> j \<and> \<not> t) \<and> \<not> (j \<and> t)))"
proof (cases "get_content_type B m")
  case (Inl e)
  then show ?thesis by (simp add: is_json_def is_text_def is_content_def is_content_type_def)
next
  case (Inr c)
  then show ?thesis
    by (cases c) (auto simp: is_json_def is_text_def is_content_def is_content_type_def
        simp del: bind_result_Inr_iff)
qed

theorem kinds_of_content_witness:
  "is_content demo_beast demo_message = Inr True"
  using kinds_of_content [of demo_beast demo_message None]
  by (auto simp: get_content_type_def has_content_type_def demo_message_def demo_beast_def
      is_json_def is_text_def is_content_type_def)

text \<open>
  The credentials in a Basic header determine the user and the password as long as no user
  name contains a colon, and no Basic header is a Bearer header.
\<close>

theorem authorization_identifies:
  assumes "inj base64" "CHR '':'' \<notin> set user" "CHR '':'' \<notin> set user'"
  shows "(authorization_to_string base64 (Basic user p) = authorization_to_string base64 (Basic user' p')
      \<longleftrightarrow> user = user' \<and> p = p')
    \<and> authorization_to_string base64 (Basic user p) \<noteq> authorization_to_string base64 (Bearer token)"
proof -
  have "user @ CHR '':'' # p = user' @ CHR '':'' # p' \<longleftrightarrow> user = user' \<and> p = p'"
    using append_sep_inject [of "CHR '':''" "rev user" "rev user'" "rev p" "rev p'"] assms(2,3)
    by (metis append_Cons append_Nil append_assoc rev.simps(2) rev_append rev_is_rev_conv set_rev)
  with assms(1) show ?thesis by (simp add: authorization_to_string_def inj_eq)
qed

theorem authorization_identifies_witness:
  "authorization_to_string rev (Basic ''me'' ''a:b'') \<noteq> authorization_to_string rev (Basic ''me'' ''a'')"
  using authorization_identifies [of rev "''me''" "''me''" "''a:b''" "''a''"] by simp

text \<open>
  The strings of the cache modes tell all of them apart but two: \<open>no_store\<close>, the default,
  is printed as \<open>no-cache\<close>.
\<close>

theorem cache_mode_strings:
  "cache_mode_to_string a = cache_mode_to_string b \<longleftrightarrow>
     a = b \<or> {a, b} = {No_cache, No_store}"
  by (cases a; cases b) auto

text \<open>
  A request names the host of its URL, the client and its cache policy, whatever fields the
  caller of \<open>async_get\<close> adds: his fields come after these and are never the ones a reader of
  the request finds first.
\<close>

theorem request_fields:
  assumes "beast_laws B"
  shows "b_find B Host (msg_fields (get_request_of S B u fs)) = Some (u_host S u)
    \<and> b_find B User_agent (msg_fields (get_request_of S B u fs)) = Some user_agent
    \<and> b_find B Cache_control (msg_fields (get_request_of S B u fs)) = Some ''no-cache''"
  unfolding get_request_of_def by (intro conjI insert_fields_keep [OF assms]) (simp_all add: basic_request_find [OF assms])

theorem request_fields_witness:
  "b_find demo_beast Host (msg_fields (get_request_of demo_skyr demo_beast (''http'', ''a.org'', None, ''/'')
     [\<lparr>fa_field = Host, fa_name = ''Host'', fa_value = ''b.org''\<rparr>])) = Some ''a.org''"
  using request_fields [OF demo_beast_laws, of demo_skyr "(''http'', ''a.org'', None, ''/'')"]
  by (simp add: demo_skyr_def)

end
