(* ===== verification/Proxy.thy ===== *)
theory Proxy
  imports Message
begin

text \<open>
  \<open>http/proxy.hpp\<close> and \<open>http/proxy.cpp\<close>: which proxy a URL is fetched through, the proxies
  of the environment, and the parsing of a proxy URL. \<open>boost::container::flat_map\<close>, a map with
  unique keys, is a HOL map; \<open>std::getenv\<close> and \<open>skyr::parse\<close> are parameters.
\<close>

datatype proxy_scheme_t = Proxy_http | Proxy_https | Proxy_all

datatype proxy_match = By_scheme proxy_scheme_t | By_origin string

record ('u, 'f) proxy =
  px_url :: 'u
  px_fields :: 'f

type_synonym ('u, 'f) proxy_map = "proxy_match \<Rightarrow> ('u, 'f) proxy option"

text \<open>\<open>emplace\<close> does nothing if the key is there.\<close>

definition map_emplace :: "'k \<Rightarrow> 'v \<Rightarrow> ('k \<Rightarrow> 'v option) \<Rightarrow> 'k \<Rightarrow> 'v option" where
  "map_emplace k v m = (case m k of None \<Rightarrow> m(k \<mapsto> v) | Some _ \<Rightarrow> m)"

definition scheme_to_proxy_scheme :: "string \<Rightarrow> proxy_scheme_t result" where
  "scheme_to_proxy_scheme scheme =
     (if scheme = ''https'' then Inr Proxy_https
      else if scheme = ''http'' then Inr Proxy_http
      else if scheme = ''all'' then Inr Proxy_all
      else Inl (Runtime_error ''bad proxy scheme''))"

text \<open>The keys are computed before the first is looked up.\<close>

fun first_proxy :: "('u, 'f) proxy_map \<Rightarrow> proxy_match list \<Rightarrow> ('u, 'f) proxy option" where
  "first_proxy m [] = None"
| "first_proxy m (k # ks) = (case m k of Some p \<Rightarrow> Some p | None \<Rightarrow> first_proxy m ks)"

definition select_proxy :: "'u skyr \<Rightarrow> ('u, 'f) proxy_map \<Rightarrow> 'u \<Rightarrow> ('u, 'f) proxy option result" where
  "select_proxy S proxies u =
     bind_result (scheme_to_proxy_scheme (u_scheme S u)) (\<lambda>s.
       Inr (first_proxy proxies [By_origin (u_origin S u), By_scheme s]))"

section \<open>Parsing\<close>

record ('r, 'u) skyr_parser =
  sp_parse :: "string \<Rightarrow> 'r option"
  sp_has_host :: "'r \<Rightarrow> bool"
  sp_scheme :: "'r \<Rightarrow> string"
  sp_username :: "'r \<Rightarrow> string"
  sp_password :: "'r \<Rightarrow> string"
  sp_url :: "'r \<Rightarrow> 'u"

definition parse_proxy ::
  "('r, 'u) skyr_parser \<Rightarrow> 'f beast \<Rightarrow> (string \<Rightarrow> string) \<Rightarrow> string \<Rightarrow> ('u, 'f) proxy result" where
  "parse_proxy P B base64 sv =
     (case sp_parse P sv of
        None \<Rightarrow> Inl (Runtime_error ''cannot parse proxy url'')
      | Some r \<Rightarrow>
          if \<not> sp_has_host P r \<or> sp_scheme P r = [] then Inl (Runtime_error ''invalid proxy url'')
          else
            let fields =
              (if sp_username P r \<noteq> [] \<and> sp_password P r \<noteq> []
               then b_set B Proxy_authorization
                 (authorization_to_string base64 (Basic (sp_username P r) (sp_password P r))) (b_empty B)
               else b_empty B)
            in Inr \<lparr>px_url = sp_url P r, px_fields = fields\<rparr>)"

section \<open>The environment\<close>

definition safe_get_env :: "(string \<Rightarrow> string option) \<Rightarrow> string \<Rightarrow> string option \<Rightarrow> string option" where
  "safe_get_env env key def =
     (case env key of Some value \<Rightarrow> if length value > 0 then Some value else def | None \<Rightarrow> def)"

definition emplace_env ::
  "(string \<Rightarrow> ('u, 'f) proxy result) \<Rightarrow> proxy_scheme_t \<Rightarrow> string option \<Rightarrow> ('u, 'f) proxy_map \<Rightarrow> ('u, 'f) proxy_map result" where
  "emplace_env parse s v m =
     (case v of None \<Rightarrow> Inr m
      | Some value \<Rightarrow> bind_result (parse value) (\<lambda>p. Inr (map_emplace (By_scheme s) p m)))"

definition proxy_from_environment ::
  "(string \<Rightarrow> string option) \<Rightarrow> (string \<Rightarrow> ('u, 'f) proxy result) \<Rightarrow> ('u, 'f) proxy_map result" where
  "proxy_from_environment env parse =
     bind_result
       (emplace_env parse Proxy_http (safe_get_env env ''http_proxy'' (safe_get_env env ''HTTP_PROXY'' None)) (\<lambda>_. None))
       (emplace_env parse Proxy_https (safe_get_env env ''https_proxy'' (safe_get_env env ''HTTPS_PROXY'' None)))"

section \<open>The contract of a proxy table\<close>

text \<open>
  What the client relies on: the proxy it gets for a URL is one that was entered for the URL's
  origin or, if there is none, for its scheme.
\<close>

locale proxy_table =
  fixes select :: "('u, 'f) proxy_map \<Rightarrow> 'u \<Rightarrow> ('u, 'f) proxy option result"
    and origin :: "'u \<Rightarrow> string" and scheme :: "'u \<Rightarrow> proxy_scheme_t option"
  assumes no_scheme: "scheme u = None \<Longrightarrow> \<exists>e. select m u = Inl e"
    and by_origin: "scheme u = Some s \<Longrightarrow> m (By_origin (origin u)) = Some p \<Longrightarrow> select m u = Inr (Some p)"
    and by_scheme: "scheme u = Some s \<Longrightarrow> m (By_origin (origin u)) = None \<Longrightarrow> select m u = Inr (m (By_scheme s))"
begin

lemma selected: "select m u = Inr (Some p) \<Longrightarrow> \<exists>k. m k = Some p"
  using no_scheme by_origin by_scheme
  by (metis Inr_inject not_None_eq sum.distinct(1))

lemma unrelated_key:
  "k \<noteq> By_origin (origin u) \<Longrightarrow> (\<And>s. scheme u = Some s \<Longrightarrow> k \<noteq> By_scheme s) \<Longrightarrow> scheme u \<noteq> None
   \<Longrightarrow> select (m(k := x)) u = select m u"
  using by_origin by_scheme by (cases "m (By_origin (origin u))") (metis fun_upd_other not_None_eq)+

end

definition url_proxy_scheme :: "'u skyr \<Rightarrow> 'u \<Rightarrow> proxy_scheme_t option" where
  "url_proxy_scheme S u = (case scheme_to_proxy_scheme (u_scheme S u) of Inr s \<Rightarrow> Some s | Inl _ \<Rightarrow> None)"

interpretation table: proxy_table "select_proxy S" "u_origin S" "url_proxy_scheme S" for S
  by unfold_locales (auto simp: select_proxy_def url_proxy_scheme_def split: sum.splits option.splits)

end
