(* ===== verification/Proxy_Properties.thy ===== *)
theory Proxy_Properties
  imports Proxy Url_Properties Message_Properties
begin

text \<open>
  The properties of the choice of a proxy, of the proxies of the environment and of the
  credentials in a proxy URL.
\<close>

text \<open>
  The proxy of a URL is the one entered for its origin, else the one entered for its scheme;
  no other entry of the table is ever used, in particular not the one for all schemes when the
  URL has a web scheme.
\<close>

theorem proxy_precedence:
  assumes "scheme_to_proxy_scheme (u_scheme S u) = Inr s"
  shows "select_proxy S m u =
      Inr (case m (By_origin (u_origin S u)) of Some p \<Rightarrow> Some p | None \<Rightarrow> m (By_scheme s))
    \<and> (s \<noteq> Proxy_all \<longrightarrow> select_proxy S (m(By_scheme Proxy_all := x)) u = select_proxy S m u)"
proof -
  have s: "url_proxy_scheme S u = Some s" using assms by (simp add: url_proxy_scheme_def)
  have "select_proxy S m u = Inr (case m (By_origin (u_origin S u)) of Some p \<Rightarrow> Some p | None \<Rightarrow> m (By_scheme s))"
    using table.by_origin [OF s] table.by_scheme [OF s] by (cases "m (By_origin (u_origin S u))") simp_all
  moreover have "select_proxy S (m(By_scheme Proxy_all := x)) u = select_proxy S m u" if "s \<noteq> Proxy_all"
    using that s by (intro table.unrelated_key) auto
  ultimately show ?thesis by blast
qed

definition demo_proxy :: "(demo_url, unit) proxy" where
  "demo_proxy = \<lparr>px_url = (''http'', ''proxy'', Some 3128, ''/''), px_fields = ()\<rparr>"

theorem proxy_precedence_witness:
  "select_proxy demo_skyr [By_scheme Proxy_all \<mapsto> demo_proxy] (''http'', ''a.org'', None, ''/'') = Inr None"
  using proxy_precedence [of demo_skyr "(''http'', ''a.org'', None, ''/'')" Proxy_http "\<lambda>_. None" "Some demo_proxy"]
  by (simp add: scheme_to_proxy_scheme_def demo_skyr_def)

text \<open>
  A URL whose scheme is none of http, https and all has no proxy choice at all: the function
  throws before it looks at the table, even if there is a proxy for the URL's origin.
\<close>

theorem other_schemes_throw:
  "(\<exists>e. select_proxy S m u = Inl e) \<longleftrightarrow> u_scheme S u \<notin> {''http'', ''https'', ''all''}"
  by (auto simp: select_proxy_def scheme_to_proxy_scheme_def)

text \<open>What the environment says about one scheme.\<close>

definition env_value :: "(string \<Rightarrow> string option) \<Rightarrow> string \<Rightarrow> string \<Rightarrow> string option" where
  "env_value env k k2 =
     (if env k \<notin> {None, Some ''''} then env k
      else if env k2 \<notin> {None, Some ''''} then env k2 else None)"

definition env_proxy ::
  "(string \<Rightarrow> string option) \<Rightarrow> (string \<Rightarrow> ('u, 'f) proxy result) \<Rightarrow> string \<Rightarrow> string \<Rightarrow> ('u, 'f) proxy option" where
  "env_proxy env parse k k2 =
     (case env_value env k k2 of Some v \<Rightarrow> (case parse v of Inr p \<Rightarrow> Some p | Inl e \<Rightarrow> None) | None \<Rightarrow> None)"

lemma emplaced:
  assumes "emplace_env parse s (env_value env k k2) m = Inr m'" "m (By_scheme s) = None"
  shows "m' = m(By_scheme s := env_proxy env parse k k2)"
proof (cases "env_value env k k2")
  case None
  with assms show ?thesis by (auto simp: emplace_env_def env_proxy_def)
next
  case (Some v)
  with assms show ?thesis by (auto simp: emplace_env_def env_proxy_def map_emplace_def)
qed

lemma safe_get_env_value: "safe_get_env env k (safe_get_env env k2 None) = env_value env k k2"
  by (auto simp: safe_get_env_def env_value_def split: option.split)

text \<open>
  C38. The table made of the environment: at most one entry for each web scheme, parsed from the
  variable in lower case if it has a value, else from the one in upper case, and none if
  neither has one.
\<close>

theorem proxies_of_environment:
  assumes "proxy_from_environment env parse = Inr m"
  shows "m = (\<lambda>_. None)(By_scheme Proxy_http := env_proxy env parse ''http_proxy'' ''HTTP_PROXY'',
    By_scheme Proxy_https := env_proxy env parse ''https_proxy'' ''HTTPS_PROXY'')"
proof -
  from assms obtain m1 where m1: "emplace_env parse Proxy_http (env_value env ''http_proxy'' ''HTTP_PROXY'') (\<lambda>_. None) = Inr m1"
    and m: "emplace_env parse Proxy_https (env_value env ''https_proxy'' ''HTTPS_PROXY'') m1 = Inr m"
    by (auto simp: proxy_from_environment_def safe_get_env_value)
  from emplaced [OF m1] have "m1 = (\<lambda>_. None)(By_scheme Proxy_http := env_proxy env parse ''http_proxy'' ''HTTP_PROXY'')"
    by simp
  with emplaced [OF m] show ?thesis by simp
qed

definition demo_parse :: "string \<Rightarrow> (string, unit) proxy result" where
  "demo_parse v = Inr \<lparr>px_url = v, px_fields = ()\<rparr>"

definition demo_env :: "string \<Rightarrow> string option" where
  "demo_env = [''http_proxy'' \<mapsto> ''a'', ''HTTP_PROXY'' \<mapsto> ''b'', ''https_proxy'' \<mapsto> '''', ''HTTPS_PROXY'' \<mapsto> ''c'']"

theorem proxies_of_environment_witness:
  "\<exists>m. proxy_from_environment demo_env demo_parse = Inr m
    \<and> map_option px_url (m (By_scheme Proxy_http)) = Some ''a''
    \<and> map_option px_url (m (By_scheme Proxy_https)) = Some ''c''
    \<and> m (By_scheme Proxy_all) = None"
proof -
  have "\<exists>m. proxy_from_environment demo_env demo_parse = Inr m"
    by (simp add: proxy_from_environment_def safe_get_env_def emplace_env_def demo_env_def demo_parse_def)
  then obtain m where m: "proxy_from_environment demo_env demo_parse = Inr m" ..
  show ?thesis
    by (rule exI [of _ m], unfold m, unfold proxies_of_environment [OF m])
      (simp add: env_proxy_def env_value_def demo_env_def demo_parse_def)
qed

text \<open>
  The credentials of a proxy URL become the Proxy-Authorization field only if there are both
  a user name and a password; the field is then the one the authorization of that user and
  password produces.
\<close>

theorem proxy_credentials:
  assumes "parse_proxy P B base64 v = Inr p" "sp_parse P v = Some r"
  shows "px_url p = sp_url P r \<and> sp_has_host P r \<and> sp_scheme P r \<noteq> []
    \<and> px_fields p =
        (if sp_username P r = [] \<or> sp_password P r = [] then b_empty B
         else b_set B Proxy_authorization (''Basic '' @ base64 (sp_username P r @ '':'' @ sp_password P r)) (b_empty B))"
  using assms by (auto simp: parse_proxy_def authorization_to_string_def Let_def split: if_splits)

definition demo_proxy_parser :: "(string, string) skyr_parser" where
  "demo_proxy_parser = \<lparr>sp_parse = Some, sp_has_host = (\<lambda>r. r \<noteq> []), sp_scheme = (\<lambda>r. ''http''),
     sp_username = (\<lambda>r. ''me''), sp_password = (\<lambda>r. ''pw''), sp_url = (\<lambda>r. r)\<rparr>"

theorem proxy_credentials_witness:
  "map_sum id px_fields (parse_proxy demo_proxy_parser demo_beast (\<lambda>x. x) ''p.org'')
     = Inr [(Proxy_authorization, ''Basic me:pw'')]"
proof -
  have "\<exists>p. parse_proxy demo_proxy_parser demo_beast (\<lambda>x. x) ''p.org'' = Inr p"
    by (simp add: parse_proxy_def demo_proxy_parser_def)
  then obtain p where p: "parse_proxy demo_proxy_parser demo_beast (\<lambda>x. x) ''p.org'' = Inr p" ..
  have "sp_parse demo_proxy_parser ''p.org'' = Some ''p.org''" by (simp add: demo_proxy_parser_def)
  from proxy_credentials [OF p this] p show ?thesis
    by (simp add: demo_proxy_parser_def demo_beast_def)
qed

end
