(* ===== verification/Client.thy ===== *)
theory Client
  imports Session_Spec Proxy
begin

text \<open>
  \<open>client.hpp\<close>, \<open>core/client.cpp\<close> and \<open>core/detail/client.hpp\<close>: a client keeps a growing
  table of sessions, routes each fetch to one of them, and stops them one after the other.
  Everything runs on the client's strand, which is the executor the sessions' own strands
  are built on.
\<close>

section \<open>State\<close>

text \<open>Functions posted to the strand by \<open>add_proxy\<close> and \<open>set_proxies\<close>.\<close>

datatype ('u, 'f) client_job =
    Add_proxy proxy_match "('u, 'f) proxy"
  | Set_proxies "('u, 'f) proxy_map"

text \<open>
  \<open>client_stop_sessions_op\<close>: its two iterators, as positions, with the version of the deque
  they were taken from: \<open>emplace_back\<close> on a \<open>std::deque\<close> invalidates all iterators.
\<close>

record stop_sessions =
  ss_graceful :: GracefulShutdown
  ss_handler :: nat
  ss_ec :: error_code
  ss_begin :: nat
  ss_end :: nat
  ss_version :: nat

text \<open>
  \<open>cl_version\<close> counts the insertions into the deque of sessions. \<open>cl_pushes\<close> are the
  \<open>push_op\<close>s dispatched to the strand of a session and not run yet (they run at once unless
  that strand is busy), \<open>cl_stopping\<close> the stop operations under way, \<open>cl_stopped\<close> the stop
  handlers called and \<open>cl_fetched\<close> the fetches that were routed, by the number of their handler.
\<close>

record ('u, 'f) client =
  cl_max_pending :: nat
  cl_verify_peer :: bool
  cl_sessions :: "session list"
  cl_version :: nat
  cl_proxies :: "('u, 'f) proxy_map"
  cl_jobs :: "('u, 'f) client_job list"
  cl_pushes :: "(nat \<times> nat \<times> request_head) list"
  cl_stopping :: "stop_sessions list"
  cl_stopped :: "(nat \<times> error_code) list"
  cl_fetched :: "nat list"

definition new_client :: "('u, 'f) client" where
  "new_client = \<lparr>cl_max_pending = 10, cl_verify_peer = False, cl_sessions = [], cl_version = 0,
     cl_proxies = (\<lambda>_. None), cl_jobs = [], cl_pushes = [], cl_stopping = [], cl_stopped = [], cl_fetched = []\<rparr>"

section \<open>Settings\<close>

definition set_verify_peer :: "bool \<Rightarrow> ('u, 'f) client \<Rightarrow> ('u, 'f) client" where
  "set_verify_peer v cl = cl\<lparr>cl_verify_peer := v\<rparr>"

definition set_max_pending_per_session :: "nat \<Rightarrow> ('u, 'f) client \<Rightarrow> ('u, 'f) client" where
  "set_max_pending_per_session n cl = cl\<lparr>cl_max_pending := n\<rparr>"

definition session_count :: "('u, 'f) client \<Rightarrow> nat" where
  "session_count cl = length (cl_sessions cl)"

definition add_proxy :: "proxy_match \<Rightarrow> ('u, 'f) proxy \<Rightarrow> ('u, 'f) client \<Rightarrow> ('u, 'f) client" where
  "add_proxy k p cl = cl\<lparr>cl_jobs := cl_jobs cl @ [Add_proxy k p]\<rparr>"

definition set_proxies :: "('u, 'f) proxy_map \<Rightarrow> ('u, 'f) client \<Rightarrow> ('u, 'f) client" where
  "set_proxies m cl = cl\<lparr>cl_jobs := cl_jobs cl @ [Set_proxies m]\<rparr>"

fun run_client_job :: "('u, 'f) client_job \<Rightarrow> ('u, 'f) client \<Rightarrow> ('u, 'f) client" where
  "run_client_job (Add_proxy k p) cl = cl\<lparr>cl_proxies := map_emplace k p (cl_proxies cl)\<rparr>"
| "run_client_job (Set_proxies m) cl = cl\<lparr>cl_proxies := m\<rparr>"

section \<open>Sessions\<close>

text \<open>
  \<open>get_session\<close>: the first session of the same type with an equal endpoint and room in its
  queue, or a new one at the end. Whether the session is still running is not looked at.
\<close>

fun find_index :: "('a \<Rightarrow> bool) \<Rightarrow> 'a list \<Rightarrow> nat" where
  "find_index P [] = 0"
| "find_index P (x # xs) = (if P x then 0 else Suc (find_index P xs))"

definition session_fits :: "nat \<Rightarrow> endpoint \<Rightarrow> session \<Rightarrow> bool" where
  "session_fits max_pending ep s \<longleftrightarrow> endpoint_eq ep (se_endpoint s) \<and> pending_tasks s < max_pending"

definition get_session :: "endpoint \<Rightarrow> ('u, 'f) client \<Rightarrow> nat \<times> ('u, 'f) client" where
  "get_session ep cl =
     (let found = find_index (session_fits (cl_max_pending cl) ep) (cl_sessions cl) in
      if found = length (cl_sessions cl) then
        (found, cl\<lparr>cl_sessions := cl_sessions cl @ [new_session ep], cl_version := Suc (cl_version cl)\<rparr>)
      else (found, cl))"

section \<open>Fetching\<close>

text \<open>
  \<open>client_fetch_op\<close>: the endpoint, which decides the type of the session. An exception of
  \<open>select_proxy\<close> or \<open>to_endpoint\<close> leaves the operation before anything is pushed.
\<close>

definition fetch_endpoint :: "'u skyr \<Rightarrow> ('u, 'f) proxy_map \<Rightarrow> 'u \<Rightarrow> endpoint result" where
  "fetch_endpoint S proxies u =
     bind_result (select_proxy S proxies u) (\<lambda>proxy.
       case proxy of
         Some p \<Rightarrow>
           bind_result (to_endpoint S False (px_url p)) (\<lambda>a.
             bind_result (to_endpoint S True u) (\<lambda>b. Inr (Tunnel \<lparr>ep_proxy = a, ep_target = b\<rparr>)))
       | None \<Rightarrow>
           if is_ssl_involved S u then bind_result (to_endpoint S True u) (\<lambda>e. Inr (Secure e))
           else bind_result (to_endpoint S False u) (\<lambda>e. Inr (Plain e)))"

definition client_fetch :: "'u skyr \<Rightarrow> nat \<Rightarrow> request_head \<Rightarrow> 'u \<Rightarrow> ('u, 'f) client \<Rightarrow> ('u, 'f) client result" where
  "client_fetch S h rq u cl =
     bind_result (fetch_endpoint S (cl_proxies cl) u) (\<lambda>ep.
       case get_session ep cl of (n, cl') \<Rightarrow>
         Inr (cl'\<lparr>cl_pushes := cl_pushes cl' @ [(n, h, rq)], cl_fetched := cl_fetched cl' @ [h]\<rparr>))"

definition update_session :: "nat \<Rightarrow> session \<Rightarrow> ('u, 'f) client \<Rightarrow> ('u, 'f) client" where
  "update_session n s cl = cl\<lparr>cl_sessions := (cl_sessions cl)[n := s]\<rparr>"

text \<open>A dispatched \<open>push_op\<close> runs; the strand of a session keeps their order.\<close>

definition run_push :: "nat \<Rightarrow> ('u, 'f) client \<Rightarrow> ('u, 'f) client" where
  "run_push j cl =
     (case cl_pushes cl ! j of (n, h, rq) \<Rightarrow>
        update_session n (push_op h rq (cl_sessions cl ! n))
          (cl\<lparr>cl_pushes := take j (cl_pushes cl) @ drop (Suc j) (cl_pushes cl)\<rparr>))"

text \<open>
  \<open>client_fetch_op\<close> owns the response its session stores into, and is the handler of the task it
  pushes: called with an error code, it hands that and the response to the user's handler. A
  response nothing was stored into is still as it was made.
\<close>

fun stored_response :: "nat \<Rightarrow> (nat \<times> effect) list \<Rightarrow> nat option" where
  "stored_response h [] = None"
| "stored_response h ((j, e) # l) =
     (case stored_response h l of
        Some st \<Rightarrow> Some st
      | None \<Rightarrow> (case e of Response_assigned Next_layer st \<Rightarrow> if j = h then Some st else None | _ \<Rightarrow> None))"

definition fetch_handled :: "session \<Rightarrow> nat \<times> error_code \<Rightarrow> nat \<times> error_code \<times> nat option" where
  "fetch_handled s = (\<lambda>(h, ec). (h, ec, stored_response h (se_log s)))"

definition fetch_answers :: "('u, 'f) client \<Rightarrow> (nat \<times> error_code \<times> nat option) list" where
  "fetch_answers cl = concat (map (\<lambda>s.
     map (fetch_handled s) (se_done s @ map (\<lambda>h. (h, Operation_aborted)) (se_rejected s))) (cl_sessions cl))"

section \<open>Stopping\<close>

text \<open>
  The loop of \<open>client_stop_sessions_op\<close>: stop the session at \<open>begin_\<close> and wait for its
  handler, then go on with the next one; at the end call the handler, with
  \<open>operation_aborted\<close> if a session did not stop cleanly.
\<close>

definition stop_loop :: "io \<Rightarrow> error_code \<Rightarrow> stop_sessions \<Rightarrow> ('u, 'f) client \<Rightarrow> ('u, 'f) client" where
  "stop_loop i ec op cl =
     (if ss_begin op \<noteq> ss_end op then
        update_session (ss_begin op)
          (stop_op i (ss_graceful op) (ss_handler op) (cl_sessions cl ! ss_begin op))
          (cl\<lparr>cl_stopping := cl_stopping cl @ [op]\<rparr>)
      else
        cl\<lparr>cl_stopped := cl_stopped cl @ [(ss_handler op, if failed (ss_ec op) then Operation_aborted else ec)]\<rparr>)"

definition client_stop :: "io \<Rightarrow> GracefulShutdown \<Rightarrow> nat \<Rightarrow> ('u, 'f) client \<Rightarrow> ('u, 'f) client" where
  "client_stop i gr h cl =
     stop_loop i Success
       \<lparr>ss_graceful = gr, ss_handler = h, ss_ec = Success, ss_begin = 0,
        ss_end = length (cl_sessions cl), ss_version = cl_version cl\<rparr> cl"

text \<open>The \<open>j\<close>th stop operation is resumed by the handler of a session: \<open>++begin_\<close>.\<close>

definition stop_resumed :: "io \<Rightarrow> nat \<Rightarrow> error_code \<Rightarrow> ('u, 'f) client \<Rightarrow> ('u, 'f) client result" where
  "stop_resumed i j ec cl =
     (let op = cl_stopping cl ! j;
          cl' = cl\<lparr>cl_stopping := take j (cl_stopping cl) @ drop (Suc j) (cl_stopping cl)\<rparr> in
      if ss_version op \<noteq> cl_version cl then Inl Undefined_behaviour
      else Inr (stop_loop i ec
        (op\<lparr>ss_ec := (if failed ec then ec else ss_ec op), ss_begin := Suc (ss_begin op)\<rparr>) cl'))"

section \<open>Steps\<close>

text \<open>
  What a client does by itself: the functions queued on its strand, dispatched pushes, stop
  operations that a session resumes, and the steps of its sessions. And what its users make it
  do: settings, fetches and stops. The number of a handler is used once.
\<close>

inductive client_internal :: "('u, 'f) client \<Rightarrow> ('u, 'f) client \<Rightarrow> bool" where
  proxies: "cl_jobs cl = j # js \<Longrightarrow> client_internal cl (run_client_job j (cl\<lparr>cl_jobs := js\<rparr>))"
| push: "j < length (cl_pushes cl) \<Longrightarrow> fst (cl_pushes cl ! j) \<notin> fst ` set (take j (cl_pushes cl))
    \<Longrightarrow> client_internal cl (run_push j cl)"
| stopped: "j < length (cl_stopping cl)
    \<Longrightarrow> (ss_handler (cl_stopping cl ! j), ec)
          \<in> set (se_replies (cl_sessions cl ! ss_begin (cl_stopping cl ! j)))
    \<Longrightarrow> stop_resumed i j ec cl = Inr cl' \<Longrightarrow> client_internal cl cl'"
| session: "n < length (cl_sessions cl) \<Longrightarrow> internal (cl_sessions cl ! n) s'
    \<Longrightarrow> client_internal cl (update_session n s' cl)"

inductive client_user :: "'u skyr \<Rightarrow> ('u, 'f) client \<Rightarrow> ('u, 'f) client \<Rightarrow> bool" for S where
  setting: "cl' = set_verify_peer v cl \<or> cl' = set_max_pending_per_session n cl
      \<or> cl' = add_proxy k p cl \<or> cl' = set_proxies m cl \<Longrightarrow> client_user S cl cl'"
| fetch: "h \<notin> set (cl_fetched cl) \<Longrightarrow> client_fetch S h rq u cl = Inr cl' \<Longrightarrow> client_user S cl cl'"
| stop: "h \<notin> fst ` set (cl_stopped cl) \<Longrightarrow> h \<notin> ss_handler ` set (cl_stopping cl)
    \<Longrightarrow> client_user S cl (client_stop i gr h cl)"

inductive_cases client_internalE: "client_internal cl cl'"
inductive_cases client_userE: "client_user S cl cl'"

definition client_step :: "'u skyr \<Rightarrow> ('u, 'f) client \<Rightarrow> ('u, 'f) client \<Rightarrow> bool" where
  "client_step S cl cl' \<longleftrightarrow> client_internal cl cl' \<or> client_user S cl cl'"

lemma client_stepI:
  "client_internal cl cl' \<Longrightarrow> client_step S cl cl'" "client_user S cl cl' \<Longrightarrow> client_step S cl cl'"
  by (simp_all add: client_step_def)

lemma client_step_cases [consumes 1, case_names setting proxies fetch push stop stopped session]:
  assumes "client_step S cl cl'"
  obtains v n k p m where "cl' = set_verify_peer v cl \<or> cl' = set_max_pending_per_session n cl
      \<or> cl' = add_proxy k p cl \<or> cl' = set_proxies m cl"
    | j js where "cl' = run_client_job j (cl\<lparr>cl_jobs := js\<rparr>)" "cl_jobs cl = j # js"
    | h rq u where "h \<notin> set (cl_fetched cl)" "client_fetch S h rq u cl = Inr cl'"
    | j where "cl' = run_push j cl" "j < length (cl_pushes cl)"
      "fst (cl_pushes cl ! j) \<notin> fst ` set (take j (cl_pushes cl))"
    | h i gr where "cl' = client_stop i gr h cl" "h \<notin> fst ` set (cl_stopped cl)"
      "h \<notin> ss_handler ` set (cl_stopping cl)"
    | j ec i where "j < length (cl_stopping cl)"
      "(ss_handler (cl_stopping cl ! j), ec) \<in> set (se_replies (cl_sessions cl ! ss_begin (cl_stopping cl ! j)))"
      "stop_resumed i j ec cl = Inr cl'"
    | n s' where "cl' = update_session n s' cl" "n < length (cl_sessions cl)" "internal (cl_sessions cl ! n) s'"
  using assms unfolding client_step_def
  by (elim disjE client_internalE client_userE) metis+

inductive client_reachable :: "'u skyr \<Rightarrow> ('u, 'f) client \<Rightarrow> bool" for S where
  created: "client_reachable S new_client"
| internal_step: "client_reachable S cl \<Longrightarrow> client_internal cl cl' \<Longrightarrow> client_reachable S cl'"
| user_step: "client_reachable S cl \<Longrightarrow> client_user S cl cl' \<Longrightarrow> client_reachable S cl'"

end
