(* ===== verification/Client_Inv.thy ===== *)
theory Client_Inv
  imports Client Session_Pool
begin

text \<open>
  The invariant of a client: its sessions are in states a session can be in, every fetch is with exactly
  one of them or on its way to it, and the stop operations point into the table of sessions.
  A session that stopped is never started again.
\<close>

section \<open>The invariant\<close>

definition pushed :: "('u, 'f) client \<Rightarrow> nat multiset" where
  "pushed cl = mset (map (\<lambda>(n, h, rq). h) (cl_pushes cl))"

definition held :: "('u, 'f) client \<Rightarrow> nat multiset" where
  "held cl = sum_list (map requests_of (cl_sessions cl))"

definition stop_points :: "('u, 'f) client \<Rightarrow> bool" where
  "stop_points cl \<longleftrightarrow> (\<forall>op \<in> set (cl_stopping cl). ss_begin op < ss_end op \<and> ss_end op \<le> length (cl_sessions cl)
     \<and> ss_version op = ss_end op \<and> (\<forall>m \<le> ss_begin op. \<not> running (cl_sessions cl ! m)))"

definition client_inv :: "('u, 'f) client \<Rightarrow> bool" where
  "client_inv cl \<longleftrightarrow>
     (\<forall>s \<in> set (cl_sessions cl). valid_session s)
     \<and> mset (cl_fetched cl) = held cl + pushed cl \<and> distinct (cl_fetched cl)
     \<and> (\<forall>(n, h, rq) \<in> set (cl_pushes cl). n < length (cl_sessions cl))
     \<and> cl_version cl = length (cl_sessions cl) \<and> stop_points cl"

lemmas client_inv_defs = client_inv_def stop_points_def pushed_def held_def

definition keeps_stopped :: "session \<Rightarrow> session \<Rightarrow> bool" where
  "keeps_stopped s s' \<longleftrightarrow> (running s' \<longrightarrow> running s)"

lemma stop_points_update:
  assumes "stop_points cl" "keeps_stopped (cl_sessions cl ! n) s"
  shows "stop_points (update_session n s cl)"
  using assms unfolding stop_points_def update_session_def keeps_stopped_def
  by (simp add: nth_list_update) (metis list_update_beyond not_less nth_list_update_eq nth_list_update_neq)

text \<open>A step of one session that accepts nothing new.\<close>

lemma client_inv_update:
  assumes inv: "client_inv cl" and n: "n < length (cl_sessions cl)"
    and s: "valid_session s" "requests_of s = requests_of (cl_sessions cl ! n)"
      "keeps_stopped (cl_sessions cl ! n) s"
  shows "client_inv (update_session n s cl)"
proof -
  have "\<forall>t \<in> set (cl_sessions (update_session n s cl)). valid_session t"
    using inv s(1) set_update_subset_insert [of "cl_sessions cl" n s]
    by (auto simp: client_inv_def update_session_def)
  moreover have "held (update_session n s cl) = held cl"
    by (simp add: held_def update_session_def pool.table_same [OF n s(2)])
  moreover have "stop_points (update_session n s cl)"
    using inv stop_points_update [OF _ s(3)] by (simp add: client_inv_def)
  ultimately show ?thesis using inv
    by (simp add: client_inv_def pushed_def) (simp add: update_session_def)
qed

section \<open>The steps of the client\<close>

lemma client_inv_frame:
  assumes "client_inv cl" "cl_sessions cl' = cl_sessions cl" "cl_version cl' = cl_version cl"
    "cl_pushes cl' = cl_pushes cl" "cl_stopping cl' = cl_stopping cl" "cl_fetched cl' = cl_fetched cl"
  shows "client_inv cl'"
  using assms by (simp add: client_inv_defs)

lemma find_index_le: "find_index P xs \<le> length xs"
  by (induction xs) auto

lemma find_index_nth: "find_index P xs < length xs \<Longrightarrow> P (xs ! find_index P xs)"
  by (induction xs) auto

lemma find_index_first: "m < find_index P xs \<Longrightarrow> \<not> P (xs ! m)"
  by (induction xs arbitrary: m) (auto simp: less_Suc_eq_0_disj split: if_splits)

text \<open>What \<open>get_session\<close> does to the table.\<close>

lemma get_session_cases:
  assumes "get_session ep cl = (n, cl')"
  obtains (found) "n < length (cl_sessions cl)" "cl' = cl" "session_fits (cl_max_pending cl) ep (cl_sessions cl ! n)"
    | (created) "n = length (cl_sessions cl)" "\<forall>s \<in> set (cl_sessions cl). \<not> session_fits (cl_max_pending cl) ep s"
      "cl' = cl\<lparr>cl_sessions := cl_sessions cl @ [new_session ep], cl_version := Suc (cl_version cl)\<rparr>"
proof (cases "find_index (session_fits (cl_max_pending cl) ep) (cl_sessions cl) = length (cl_sessions cl)")
  case True
  have "\<forall>s \<in> set (cl_sessions cl). \<not> session_fits (cl_max_pending cl) ep s"
    unfolding all_set_conv_all_nth using True find_index_first by metis
  with True created assms show ?thesis by (simp add: get_session_def Let_def)
next
  case False
  then have n: "n = find_index (session_fits (cl_max_pending cl) ep) (cl_sessions cl)" "cl' = cl"
    using assms by (auto simp: get_session_def)
  have "n < length (cl_sessions cl)" using False find_index_le n(1) by (metis le_neq_implies_less)
  then show ?thesis using find_index_nth n by (intro found) simp_all
qed

lemma client_inv_get_session:
  assumes inv: "client_inv cl" and g: "get_session ep cl = (n, cl')"
  shows "client_inv cl' \<and> n < length (cl_sessions cl')"
  using g
proof (cases rule: get_session_cases)
  case found
  with inv show ?thesis by simp
next
  case created
  have "stop_points cl'"
    using inv by (auto simp: created(3) client_inv_def stop_points_def nth_append)
  then show ?thesis using inv by (auto simp: created client_inv_def held_def pushed_def new_session_valid)
qed

lemma client_inv_fetch:
  assumes inv: "client_inv cl" and f: "client_fetch S h rq u cl = Inr cl'" and h: "h \<notin> set (cl_fetched cl)"
  shows "client_inv cl'"
proof -
  from f obtain ep n cl1 where g: "get_session ep cl = (n, cl1)"
    and cl': "cl' = cl1\<lparr>cl_pushes := cl_pushes cl1 @ [(n, h, rq)], cl_fetched := cl_fetched cl1 @ [h]\<rparr>"
    by (auto simp: client_fetch_def split_beta) (metis prod.collapse)
  have inv1: "client_inv cl1" "n < length (cl_sessions cl1)"
    using client_inv_get_session [OF inv g] by auto
  have "cl_fetched cl1 = cl_fetched cl" using g by (cases rule: get_session_cases) simp_all
  with h have "h \<notin> set (cl_fetched cl1)" by simp
  with inv1 show ?thesis by (auto simp: cl' client_inv_defs)
qed

lemma sessions_of [simp]:
  "cl_sessions (update_session n s cl) = (cl_sessions cl)[n := s]"
  "cl_pushes (update_session n s cl) = cl_pushes cl" "cl_stopping (update_session n s cl) = cl_stopping cl"
  "cl_fetched (update_session n s cl) = cl_fetched cl" "cl_version (update_session n s cl) = cl_version cl"
  "cl_stopped (update_session n s cl) = cl_stopped cl"
  by (simp_all add: update_session_def)

lemma client_inv_push:
  assumes inv: "client_inv cl" and j: "j < length (cl_pushes cl)"
  shows "client_inv (run_push j cl)"
proof -
  obtain n h rq where p: "cl_pushes cl ! j = (n, h, rq)" by (metis prod.exhaust)
  have el: "(n, h, rq) \<in> set (cl_pushes cl)" using j p by (metis nth_mem)
  then have n: "n < length (cl_sessions cl)" using inv by (auto simp: client_inv_def)
  let ?s = "cl_sessions cl ! n" and ?cl = "run_push j cl"
  have mem: "?s \<in> set (cl_sessions cl)" using n by simp
  have "h \<notin># requests_of ?s"
    using inv el by (intro pool.table_new [OF _ _ _ mem, of "cl_fetched cl" "pushed cl"])
      (force simp: client_inv_def held_def pushed_def)+
  then have r': "valid_session (push_op h rq ?s)" using inv mem by (simp add: client_inv_def push_op_valid)
  have ss: "cl_sessions ?cl = (cl_sessions cl)[n := push_op h rq ?s]"
    and ps: "cl_pushes ?cl = take j (cl_pushes cl) @ drop (Suc j) (cl_pushes cl)"
    and rest: "cl_stopping ?cl = cl_stopping cl" "cl_fetched ?cl = cl_fetched cl" "cl_version ?cl = cl_version cl"
    by (simp_all add: run_push_def p)
  have "cl_pushes cl = take j (cl_pushes cl) @ (n, h, rq) # drop (Suc j) (cl_pushes cl)"
    using id_take_nth_drop [OF j] p by simp
  then have "map f (cl_pushes cl) = map f (take j (cl_pushes cl)) @ f (n, h, rq) # map f (drop (Suc j) (cl_pushes cl))"
    for f :: "nat \<times> nat \<times> request_head \<Rightarrow> nat"
    by (metis list.simps(9) map_append)
  then have "pushed cl = pushed ?cl + {#h#}"
    unfolding pushed_def ps map_append by (simp only: mset_append mset.simps prod.case) simp
  moreover have "held ?cl = held cl + {#h#}"
    using pool.table_push [OF n] by (simp add: held_def ss)
  ultimately have count: "held ?cl + pushed ?cl = held cl + pushed cl" by (simp add: ac_simps)
  have "\<forall>t \<in> set (cl_sessions ?cl). valid_session t"
    using inv r' set_update_subset_insert [of "cl_sessions cl" n "push_op h rq ?s"]
    by (auto simp: client_inv_def ss)
  moreover have "stop_points ?cl"
    using stop_points_update [of cl n "push_op h rq ?s"] inv ss rest
    by (simp add: client_inv_def stop_points_def keeps_stopped_def push_op_facts(1))
  moreover have "\<forall>(n, h, rq) \<in> set (cl_pushes ?cl). n < length (cl_sessions ?cl)"
    using inv by (auto simp: client_inv_def ss ps dest!: in_set_takeD in_set_dropD)
  ultimately show ?thesis using inv count rest ss by (simp add: client_inv_def)
qed

text \<open>One round of the loop that stops the sessions.\<close>

lemma client_inv_stop_loop:
  assumes inv: "client_inv cl" and op: "ss_begin op \<le> ss_end op" "ss_end op = length (cl_sessions cl)"
    "ss_version op = ss_end op" "\<forall>m < ss_begin op. \<not> running (cl_sessions cl ! m)"
  shows "client_inv (stop_loop i ec op cl)"
proof (cases "ss_begin op = ss_end op")
  case True
  with inv show ?thesis by (auto simp: stop_loop_def intro: client_inv_frame)
next
  case False
  let ?n = "ss_begin op"
  let ?s = "stop_op i (ss_graceful op) (ss_handler op) (cl_sessions cl ! ?n)"
  have n: "?n < length (cl_sessions cl)" using False op by simp
  then have "valid_session (cl_sessions cl ! ?n)" using inv by (simp add: client_inv_def)
  note keeps = pool.stop_frame [OF this, of i "ss_graceful op" "ss_handler op"] pool.stop_dead
  have "client_inv (update_session ?n ?s cl)"
    by (rule client_inv_update [OF inv n]) (use keeps in \<open>simp_all add: keeps_stopped_def\<close>)
  moreover have "\<not> running ((cl_sessions cl)[?n := ?s] ! m)" if "m \<le> ?n" for m
    using that op(4) keeps n by (cases "m = ?n") simp_all
  ultimately have "client_inv (update_session ?n ?s (cl\<lparr>cl_stopping := cl_stopping cl @ [op]\<rparr>))"
    using n False op by (auto simp: client_inv_def stop_points_def pushed_def held_def)
  then show ?thesis using False by (simp add: stop_loop_def)
qed

lemma client_inv_stop: "client_inv cl \<Longrightarrow> client_inv (client_stop i gr h cl)"
  unfolding client_stop_def by (rule client_inv_stop_loop) (simp_all add: client_inv_def)

lemma stop_resumed_point:
  assumes inv: "client_inv cl" and j: "j < length (cl_stopping cl)" and r: "stop_resumed i j ec cl = Inr cl'"
  shows "ss_version (cl_stopping cl ! j) = length (cl_sessions cl)"
    "ss_end (cl_stopping cl ! j) = length (cl_sessions cl)" "ss_begin (cl_stopping cl ! j) < length (cl_sessions cl)"
    "\<forall>m \<le> ss_begin (cl_stopping cl ! j). \<not> running (cl_sessions cl ! m)"
proof -
  have "cl_stopping cl ! j \<in> set (cl_stopping cl)" using j by simp
  then have "ss_begin (cl_stopping cl ! j) < ss_end (cl_stopping cl ! j)
      \<and> ss_version (cl_stopping cl ! j) = ss_end (cl_stopping cl ! j)
      \<and> (\<forall>m \<le> ss_begin (cl_stopping cl ! j). \<not> running (cl_sessions cl ! m))"
    using inv unfolding client_inv_def stop_points_def by blast
  moreover have "ss_version (cl_stopping cl ! j) = length (cl_sessions cl)"
    using r inv by (auto simp: stop_resumed_def client_inv_def Let_def split: if_splits)
  ultimately show "ss_version (cl_stopping cl ! j) = length (cl_sessions cl)"
    "ss_end (cl_stopping cl ! j) = length (cl_sessions cl)" "ss_begin (cl_stopping cl ! j) < length (cl_sessions cl)"
    "\<forall>m \<le> ss_begin (cl_stopping cl ! j). \<not> running (cl_sessions cl ! m)"
    by simp_all
qed

lemma client_inv_stop_resumed:
  assumes inv: "client_inv cl" and j: "j < length (cl_stopping cl)" and r: "stop_resumed i j ec cl = Inr cl'"
  shows "client_inv cl'"
proof -
  let ?cl = "cl\<lparr>cl_stopping := take j (cl_stopping cl) @ drop (Suc j) (cl_stopping cl)\<rparr>"
  note pt = stop_resumed_point [OF inv j r]
  have "client_inv ?cl"
    using inv by (auto simp: client_inv_def stop_points_def pushed_def held_def dest!: in_set_takeD in_set_dropD)
  then have "client_inv (stop_loop i ec ((cl_stopping cl ! j)\<lparr>ss_ec := e, ss_begin := Suc (ss_begin (cl_stopping cl ! j))\<rparr>) ?cl)"
    for e
    using pt by (intro client_inv_stop_loop) simp_all
  moreover have "cl' = stop_loop i ec ((cl_stopping cl ! j)\<lparr>ss_ec := (if failed ec then ec else ss_ec (cl_stopping cl ! j)),
      ss_begin := Suc (ss_begin (cl_stopping cl ! j))\<rparr>) ?cl"
    using r pt(1) inv unfolding stop_resumed_def Let_def client_inv_def by (simp split: if_splits)
  ultimately show ?thesis by blast
qed

lemma client_inv_internal:
  assumes inv: "client_inv cl" and n: "n < length (cl_sessions cl)" and i: "internal (cl_sessions cl ! n) s'"
  shows "client_inv (update_session n s' cl)"
proof -
  have "valid_session (cl_sessions cl ! n)" using inv n by (simp add: client_inv_def)
  note keeps = pool.step_frame [OF this i] pool.step_live [OF this i]
  show ?thesis by (rule client_inv_update [OF inv n]) (use keeps in \<open>simp_all add: keeps_stopped_def\<close>)
qed

lemma client_job_frame:
  "client_inv cl \<Longrightarrow> client_inv (run_client_job j (cl\<lparr>cl_jobs := js\<rparr>))"
  by (cases j) (auto intro: client_inv_frame)

lemma client_step_inv:
  assumes "client_step S cl cl'" "client_inv cl"
  shows "client_inv cl'"
  using assms(1)
proof (cases rule: client_step_cases)
  case (setting v n k p m)
  then show ?thesis
    by (elim disjE) (simp_all add: set_verify_peer_def set_max_pending_per_session_def add_proxy_def
        set_proxies_def client_inv_frame [OF assms(2)])
next
  case (proxies j js)
  then show ?thesis using client_job_frame [OF assms(2)] by simp
next
  case (fetch h rq u)
  show ?thesis by (rule client_inv_fetch [OF assms(2) fetch(2,1)])
next
  case (push j)
  then show ?thesis using client_inv_push [OF assms(2)] by simp
next
  case (stop h i gr)
  then show ?thesis using client_inv_stop [OF assms(2)] by simp
next
  case (stopped j ec i)
  then show ?thesis using client_inv_stop_resumed [OF assms(2)] by blast
next
  case (session n s')
  then show ?thesis using client_inv_internal [OF assms(2)] by simp
qed

lemma client_reachable_inv: "client_reachable S cl \<Longrightarrow> client_inv cl"
proof (induction rule: client_reachable.induct)
  case created
  show ?case by (simp add: new_client_def client_inv_defs)
next
  case (internal_step cl cl')
  show ?case by (rule client_step_inv [OF client_stepI(1) [OF internal_step(2)] internal_step(3)])
next
  case (user_step cl cl')
  show ?case by (rule client_step_inv [OF client_stepI(2) [OF user_step(2)] user_step(3)])
qed

end
