(* ===== verification/Client_History.thy ===== *)
theory Client_History
  imports Client_Inv
begin

text \<open>
  What the runs of a client keep: the answers its fetches got, and the sessions that stopped.
\<close>

section \<open>Answers\<close>

text \<open>
  \<open>client_answers\<close> are the fetches whose handler was called, by their session or because it
  rejected them. A client is quiet when nothing is on its way any more, and unbroken when no
  exception left a handler of one of its sessions.
\<close>

definition client_answers :: "('u, 'f) client \<Rightarrow> nat list" where
  "client_answers cl = concat (map (\<lambda>s. map fst (se_done s) @ se_rejected s) (cl_sessions cl))"

lemma answers_of_fetches: "map fst (fetch_answers cl) = client_answers cl"
  by (simp add: fetch_answers_def client_answers_def fetch_handled_def map_concat comp_def split_beta)

lemma stored_response_iff: "stored_response h l \<noteq> None \<longleftrightarrow> responded h l"
proof (induction l)
  case Nil
  then show ?case by (simp add: responded_def)
next
  case (Cons a l)
  obtain j e where a: "a = (j, e)" by (cases a)
  have "responded h (a # l) \<longleftrightarrow> responded h l \<or> j = h \<and> is_response e" by (auto simp: responded_def a)
  with Cons show ?case by (auto simp: a split: option.splits effect.splits stream_layer.splits)
qed

definition quiet :: "('u, 'f) client \<Rightarrow> bool" where
  "quiet cl \<longleftrightarrow> cl_pushes cl = [] \<and> (\<forall>s \<in> set (cl_sessions cl). at_rest s)"

definition unbroken :: "('u, 'f) client \<Rightarrow> bool" where
  "unbroken cl \<longleftrightarrow> (\<forall>s \<in> set (cl_sessions cl). \<not> se_threw s)"

lemma session_answers:
  assumes "reachable ep s" "\<not> se_threw s"
  shows "mset (map fst (se_done s) @ se_rejected s) \<subseteq># requests_of s"
    and "at_rest s \<Longrightarrow> mset (map fst (se_done s) @ se_rejected s) = requests_of s"
proof -
  have inv: "session_inv s" by (rule reachable_inv [OF assms(1)])
  have "map fst (se_done s) @ waiting s = se_accepted s" by (rule answered_waiting [OF inv assms(2)])
  then have "mset (map fst (se_done s)) \<subseteq># mset (se_accepted s)"
    by (metis mset_append mset_subset_eq_add_left)
  then show "mset (map fst (se_done s) @ se_rejected s) \<subseteq># requests_of s"
    by (simp add: requests_of_def)
  show "mset (map fst (se_done s) @ se_rejected s) = requests_of s" if "at_rest s"
    using at_rest_answered [OF inv assms(2) that] by (simp add: requests_of_def)
qed

text \<open>A fetch answered without an error gets a response.\<close>

lemma answer_has_response:
  assumes inv: "client_inv cl" and ok: "unbroken cl" and a: "(h, ec, r) \<in> set (fetch_answers cl)" "\<not> failed ec"
  shows "r \<noteq> None"
proof -
  from a obtain s where s: "s \<in> set (cl_sessions cl)" "(h, ec) \<in> set (se_done s)" "r = stored_response h (se_log s)"
    by (auto simp: fetch_answers_def fetch_handled_def)
  have "reachable (se_endpoint s) s" "\<not> se_threw s"
    using inv ok s(1) by (auto simp: client_inv_def unbroken_def dest: valid_reachable)
  then have "answers_ok s" using reachable_history by (auto simp: history_def)
  with s(2) a(2) have "responded h (se_log s)" by (auto simp: answers_ok_def)
  then show ?thesis unfolding s(3) stored_response_iff .
qed

lemma answers_subset:
  "(\<And>s. s \<in> set ss \<Longrightarrow> mset (f s) \<subseteq># g s) \<Longrightarrow> mset (concat (map f ss)) \<subseteq># sum_list (map g ss)"
  by (induction ss) (auto intro: subset_mset.add_mono)

lemma answers_equal:
  "(\<And>s. s \<in> set ss \<Longrightarrow> mset (f s) = g s) \<Longrightarrow> mset (concat (map f ss)) = sum_list (map g ss)"
  by (induction ss) auto

lemma unbroken_answers:
  assumes inv: "client_inv cl" and ok: "unbroken cl"
  shows "mset (client_answers cl) \<subseteq># mset (cl_fetched cl)"
    and "quiet cl \<Longrightarrow> mset (client_answers cl) = mset (cl_fetched cl)"
proof -
  have s: "reachable (se_endpoint s) s \<and> \<not> se_threw s" if "s \<in> set (cl_sessions cl)" for s
    using that ok inv by (auto simp: unbroken_def client_inv_def dest: valid_reachable)
  have "mset (client_answers cl) \<subseteq># held cl"
    unfolding client_answers_def held_def using s session_answers(1) by (intro answers_subset) blast
  also have "\<dots> \<subseteq># mset (cl_fetched cl)" using inv by (simp add: client_inv_def)
  finally show "mset (client_answers cl) \<subseteq># mset (cl_fetched cl)" .
  assume q: "quiet cl"
  have "mset (client_answers cl) = held cl"
    unfolding client_answers_def held_def using s q session_answers(2)
    by (intro answers_equal) (auto simp: quiet_def)
  then show "mset (client_answers cl) = mset (cl_fetched cl)"
    using inv q by (simp add: client_inv_def quiet_def pushed_def)
qed

lemma distinct_subset:
  assumes "distinct xs" "mset ys \<subseteq># mset xs"
  shows "distinct ys \<and> set ys \<subseteq> set xs"
proof -
  from assms(2) obtain M where "mset xs = mset ys + M" by (metis subset_mset.le_iff_add)
  moreover obtain zs where "M = mset zs" by (metis ex_mset)
  ultimately have eq: "mset xs = mset (ys @ zs)" by simp
  then have "distinct (ys @ zs)" using assms(1) mset_eq_imp_distinct_iff by blast
  moreover have "set xs = set (ys @ zs)" using eq mset_eq_setD by blast
  ultimately show ?thesis by simp
qed

lemma client_sessions_unstarted:
  "client_reachable S cl \<Longrightarrow> s \<in> set (cl_sessions cl) \<Longrightarrow> unstarted (se_endpoint s) s"
  using client_reachable_inv by (auto simp: client_inv_def valid_session_def)

lemma client_sessions_reachable:
  "client_reachable S cl \<Longrightarrow> s \<in> set (cl_sessions cl) \<Longrightarrow> reachable (se_endpoint s) s"
  by (rule unstarted_reachable [OF client_sessions_unstarted])

text \<open>A session of a client that stopped running does not run again.\<close>

definition dead :: "nat \<Rightarrow> ('u, 'f) client \<Rightarrow> bool" where
  "dead n cl \<longleftrightarrow> n < length (cl_sessions cl) \<and> \<not> running (cl_sessions cl ! n)"

definition same_session :: "nat \<Rightarrow> ('u, 'f) client \<Rightarrow> ('u, 'f) client \<Rightarrow> bool" where
  "same_session n cl cl' \<longleftrightarrow> dead n cl' \<and> se_endpoint (cl_sessions cl' ! n) = se_endpoint (cl_sessions cl ! n)
     \<and> se_accepted (cl_sessions cl' ! n) = se_accepted (cl_sessions cl ! n)"

lemma same_session_update:
  assumes "dead n cl" "m < length (cl_sessions cl)"
    and "m = n \<Longrightarrow> \<not> running s \<and> se_endpoint s = se_endpoint (cl_sessions cl ! n)
      \<and> se_accepted s = se_accepted (cl_sessions cl ! n)"
  shows "same_session n cl (update_session m s cl)"
  using assms by (cases "m = n") (simp_all add: same_session_def dead_def)

lemma same_session_frame: "dead n cl \<Longrightarrow> cl_sessions cl' = cl_sessions cl \<Longrightarrow> same_session n cl cl'"
  by (simp add: same_session_def dead_def)

lemma same_session_trans: "same_session n cl cl' \<Longrightarrow> same_session n cl' cl'' \<Longrightarrow> same_session n cl cl''"
  by (simp add: same_session_def)

lemma same_session_stop_loop:
  assumes d: "dead n cl" and inv: "client_inv cl" and b: "ss_begin op \<le> ss_end op" "ss_end op \<le> length (cl_sessions cl)"
  shows "same_session n cl (stop_loop i ec op cl)"
proof (cases "ss_begin op = ss_end op")
  case True
  with d show ?thesis by (simp add: stop_loop_def same_session_frame)
next
  case False
  let ?m = "ss_begin op"
  let ?s = "stop_op i (ss_graceful op) (ss_handler op) (cl_sessions cl ! ?m)"
  have m: "?m < length (cl_sessions cl)" using False b by simp
  then have "valid_session (cl_sessions cl ! ?m)" using inv by (simp add: client_inv_def)
  note keeps = pool.stop_frame [OF this, of i "ss_graceful op" "ss_handler op"] pool.stop_dead
  have "same_session n cl (update_session ?m ?s cl)"
    by (rule same_session_update [OF d m]) (use keeps start_stop_accept(2) in auto)
  then show ?thesis using False by (simp add: stop_loop_def same_session_def dead_def)
qed

lemma dead_step:
  assumes st: "client_step S cl cl'" and inv: "client_inv cl" and d: "dead n cl"
  shows "same_session n cl cl'"
  using st
proof (cases rule: client_step_cases)
  case (setting v m k p pm)
  with d show ?thesis
    by (elim disjE) (simp_all add: set_verify_peer_def set_max_pending_per_session_def add_proxy_def
        set_proxies_def same_session_frame)
next
  case (proxies j js)
  with d show ?thesis by (cases j) (simp_all add: same_session_frame)
next
  case (fetch h rq u)
  then obtain ep m cl1 where g: "get_session ep cl = (m, cl1)" and "cl_sessions cl' = cl_sessions cl1"
    by (auto simp: client_fetch_def split_beta) (metis prod.collapse)
  from g this(2) d show ?thesis
    by (cases rule: get_session_cases) (auto simp: same_session_def dead_def nth_append)
next
  case (push j)
  obtain m h rq where p: "cl_pushes cl ! j = (m, h, rq)" by (metis prod.exhaust)
  then have "(m, h, rq) \<in> set (cl_pushes cl)" using push by (metis nth_mem)
  then have m: "m < length (cl_sessions cl)" using inv by (auto simp: client_inv_def)
  let ?cl = "cl\<lparr>cl_pushes := take j (cl_pushes cl) @ drop (Suc j) (cl_pushes cl)\<rparr>"
  let ?s = "push_op h rq (cl_sessions cl ! m)"
  have "m = n \<Longrightarrow> \<not> running ?s \<and> se_endpoint ?s = se_endpoint (cl_sessions ?cl ! n)
      \<and> se_accepted ?s = se_accepted (cl_sessions ?cl ! n)"
    using d by (auto simp: dead_def push_op_facts)
  then have "same_session n ?cl (update_session m ?s ?cl)"
    using d m by (intro same_session_update) (simp_all add: dead_def)
  then show ?thesis using push(1) p by (simp add: run_push_def same_session_def dead_def)
next
  case (stop h i gr)
  show ?thesis unfolding stop(1) client_stop_def
    by (rule same_session_stop_loop [OF d inv]) simp_all
next
  case (stopped j ec i)
  let ?cl = "cl\<lparr>cl_stopping := take j (cl_stopping cl) @ drop (Suc j) (cl_stopping cl)\<rparr>"
  let ?op = "(cl_stopping cl ! j)\<lparr>ss_ec := (if failed ec then ec else ss_ec (cl_stopping cl ! j)),
      ss_begin := Suc (ss_begin (cl_stopping cl ! j))\<rparr>"
  note pt = stop_resumed_point [OF inv stopped(1,3)]
  have "cl' = stop_loop i ec ?op ?cl"
    using stopped(3) pt(1) inv unfolding stop_resumed_def Let_def client_inv_def by (simp split: if_splits)
  moreover have "client_inv ?cl"
    using inv by (auto simp: client_inv_def stop_points_def pushed_def held_def dest!: in_set_takeD in_set_dropD)
  ultimately have "same_session n ?cl cl'"
    using pt d by (auto simp: dead_def intro!: same_session_stop_loop)
  then show ?thesis by (simp add: same_session_def)
next
  case (session m s')
  then have "valid_session (cl_sessions cl ! m)" using inv by (simp add: client_inv_def)
  note keeps = pool.step_frame [OF this session(3)] pool.step_live [OF this session(3)] internal_requests [OF session(3)]
  show ?thesis unfolding session(1)
    by (rule same_session_update [OF d session(2)])
      (use keeps d in \<open>auto simp: dead_def requests_def\<close>)
qed

lemma dead_run:
  "(client_step S)\<^sup>*\<^sup>* cl cl' \<Longrightarrow> client_inv cl \<Longrightarrow> dead n cl \<Longrightarrow> client_inv cl' \<and> same_session n cl cl'"
proof (induction rule: rtranclp_induct)
  case base
  then show ?case by (simp add: same_session_frame)
next
  case (step cl1 cl2)
  then have "client_inv cl1" "same_session n cl cl1" by auto
  with dead_step [OF step(2)] client_step_inv [OF step(2)] same_session_trans show ?case
    by (metis same_session_def)
qed

text \<open>A run of one session is a run of the client.\<close>

lemma client_session_run:
  "internal\<^sup>*\<^sup>* s s' \<Longrightarrow> n < length (cl_sessions cl) \<Longrightarrow> cl_sessions cl ! n = s
   \<Longrightarrow> client_internal\<^sup>*\<^sup>* cl (update_session n s' cl)"
proof (induction rule: rtranclp_induct)
  case base
  then have "update_session n s cl = cl" by (auto simp: update_session_def)
  then show ?case by simp
next
  case (step u v)
  then have "client_internal (update_session n u cl) (update_session n v (update_session n u cl))"
    by (intro client_internal.session) simp_all
  moreover have "update_session n v (update_session n u cl) = update_session n v cl"
    by (simp add: update_session_def)
  ultimately show ?case using step by (metis rtranclp.rtrancl_into_rtrancl)
qed

lemma client_reachable_run:
  "client_internal\<^sup>*\<^sup>* cl cl' \<Longrightarrow> client_reachable S cl \<Longrightarrow> client_reachable S cl'"
  by (induction rule: rtranclp_induct) (auto intro: client_reachable.internal_step)

end
