(* ===== verification/Client_Run.thy ===== *)
theory Client_Run
  imports Client_History Session_Run Session_Steady Url_Properties
begin

text \<open>
  Concrete clients that the steps of the model reach: one fetch from its routing to its answer,
  a stop that finishes, and a stop that a new session gets in the way of.
\<close>

definition demo_web :: demo_url where
  "demo_web = (''https'', ''a.org'', None, ''/'')"

definition other_web :: demo_url where
  "other_web = (''https'', ''b.org'', None, ''/'')"

definition other_endpoint :: endpoint where
  "other_endpoint = Secure \<lparr>ep_domain = ''b.org'', ep_port = 443\<rparr>"

lemmas fetch_simps = client_fetch_def fetch_endpoint_def select_proxy_def scheme_to_proxy_scheme_def
  to_endpoint_def safe_port_def is_ssl_involved_def demo_skyr_def demo_port_def get_session_def session_fits_def
  endpoint_eq_iff

section \<open>One fetch\<close>

definition fetched_client :: "(demo_url, unit) client" where
  "fetched_client = new_client\<lparr>cl_sessions := [new_session demo_endpoint], cl_version := 1,
     cl_pushes := [(0, 1, demo_request)], cl_fetched := [1]\<rparr>"

definition pushed_client :: "(demo_url, unit) client" where
  "pushed_client = run_push 0 fetched_client"

definition demo_client :: "(demo_url, unit) client" where
  "demo_client = update_session 0 demo_done pushed_client"

lemma demo_fetch: "client_fetch demo_skyr 1 demo_request demo_web new_client = Inr fetched_client"
  by (simp add: fetch_simps fetched_client_def new_client_def demo_web_def demo_endpoint_def)

lemma pushed_client_eq:
  "pushed_client = new_client\<lparr>cl_sessions := [push_op 1 demo_request (new_session demo_endpoint)],
     cl_version := 1, cl_fetched := [1]\<rparr>"
  by (simp add: pushed_client_def fetched_client_def run_push_def update_session_def new_client_def)

lemma demo_client_eq:
  "demo_client = new_client\<lparr>cl_sessions := [demo_done], cl_version := 1, cl_fetched := [1]\<rparr>"
  by (simp add: demo_client_def pushed_client_eq update_session_def)

lemma fetched_client_reachable: "client_reachable demo_skyr fetched_client"
  by (rule client_reachable.user_step [OF client_reachable.created client_user.fetch [OF _ demo_fetch]])
    (simp add: new_client_def)

lemma pushed_client_reachable: "client_reachable demo_skyr pushed_client"
proof -
  have "client_internal fetched_client pushed_client"
    unfolding pushed_client_def by (rule client_internal.push) (simp_all add: fetched_client_def)
  then show ?thesis by (rule client_reachable.internal_step [OF fetched_client_reachable])
qed

lemma demo_client_run: "client_internal\<^sup>*\<^sup>* pushed_client demo_client"
  unfolding demo_client_def
  by (rule client_session_run [OF demo_internal]) (simp_all add: pushed_client_eq)

lemma fetched_client_run: "client_internal\<^sup>*\<^sup>* fetched_client demo_client"
proof -
  have "client_internal fetched_client pushed_client"
    unfolding pushed_client_def by (rule client_internal.push) (simp_all add: fetched_client_def)
  then show ?thesis using demo_client_run by (rule converse_rtranclp_into_rtranclp)
qed

lemma demo_written: "(1, Issue (Async_write Next_layer demo_request)) \<in> set (se_log demo_done)"
  by code_simp

lemma demo_client_reachable: "client_reachable demo_skyr demo_client"
  by (rule client_reachable_run [OF demo_client_run pushed_client_reachable])

text \<open>The client while its request is being written.\<close>

definition writing_events :: "event list" where
  "writing_events = [Run_job io_fine, Io_completes 0 io_fine, Io_completes 0 io_fine, Io_completes 0 io_fine]"

definition writing_session :: session where
  "writing_session = the (plays writing_events (push_op 1 demo_request (new_session demo_endpoint)))"

definition writing_client :: "(demo_url, unit) client" where
  "writing_client = update_session 0 writing_session pushed_client"

lemma writing_plays:
  "plays writing_events (push_op 1 demo_request (new_session demo_endpoint)) = Some writing_session"
  by code_simp

lemma writing_facts: "is_secure (se_endpoint writing_session)" "undisturbed writing_session"
  "map snd (se_active writing_session) = [(At_process demo_request Yield1, Async_write Next_layer demo_request)]"
  "moves_message (Async_write Next_layer demo_request)"
  by code_simp+

lemma writing_client_reachable: "client_reachable demo_skyr writing_client"
proof -
  have "internal\<^sup>*\<^sup>* (push_op 1 demo_request (new_session demo_endpoint)) writing_session"
    by (rule plays_internal [OF _ writing_plays]) (simp add: writing_events_def)
  then have "client_internal\<^sup>*\<^sup>* pushed_client writing_client"
    unfolding writing_client_def by (rule client_session_run) (simp_all add: pushed_client_eq)
  then show ?thesis by (rule client_reachable_run [OF _ pushed_client_reachable])
qed

lemma demo_client_rests: "\<not> client_internal demo_client c"
proof
  assume "client_internal demo_client c"
  then show False
    by cases (auto simp: demo_client_eq new_client_def at_rest_stuck demo_facts)
qed

section \<open>Stopping\<close>

definition stopping_client :: "(demo_url, unit) client" where
  "stopping_client = client_stop io_fine Yes 5 demo_client"

definition stopping_session :: session where
  "stopping_session = stop_op io_fine Yes 5 demo_done"

definition closed_session :: session where
  "closed_session = complete_io 0 io_fine stopping_session"

definition stopped_client :: "(demo_url, unit) client" where
  "stopped_client = demo_client\<lparr>cl_sessions := [closed_session], cl_stopped := [(5, Success)]\<rparr>"

definition grown_client :: "(demo_url, unit) client" where
  "grown_client = stopping_client\<lparr>cl_sessions := [closed_session, new_session other_endpoint],
     cl_version := 2, cl_pushes := [(1, 2, demo_request)], cl_fetched := [1, 2]\<rparr>"

lemma closed_facts: "se_replies closed_session = [(5, Success)]" "running closed_session = False"
  "se_done closed_session = [(1, Success)]" "pending_tasks closed_session = 0"
  "se_endpoint closed_session = demo_endpoint" "se_accepted closed_session = [1]"
  "se_rejected closed_session = []" "at_rest closed_session" "se_threw closed_session = False"
  by code_simp+

lemma closing_step: "internal stopping_session closed_session"
proof -
  have "0 < length (se_active stopping_session)" "io_lawful (snd (snd (se_active stopping_session ! 0))) io_fine"
    by code_simp+
  then show ?thesis unfolding closed_session_def by (rule internal.completion)
qed

lemma stopping_client_eq:
  "stopping_client = demo_client\<lparr>cl_sessions := [stopping_session],
     cl_stopping := [\<lparr>ss_graceful = Yes, ss_handler = 5, ss_ec = Success, ss_begin = 0, ss_end = 1,
       ss_version = 1\<rparr>]\<rparr>"
  by (simp add: stopping_client_def client_stop_def stop_loop_def demo_client_eq stopping_session_def
      update_session_def new_client_def)

lemma stopping_client_reachable: "client_reachable demo_skyr stopping_client"
  unfolding stopping_client_def
  by (rule client_reachable.user_step [OF demo_client_reachable client_user.stop])
    (simp_all add: demo_client_eq new_client_def)

lemma stopping_resumed:
  "stop_resumed io_fine 0 Success (update_session 0 closed_session stopping_client) = Inr stopped_client"
  by (simp add: stop_resumed_def stopping_client_eq update_session_def demo_client_eq stop_loop_def
      stopped_client_def new_client_def)

lemma stopped_client_step:
  "client_internal (update_session 0 closed_session stopping_client) stopped_client"
  by (rule client_internal.stopped [OF _ _ stopping_resumed])
    (simp_all add: stopping_client_eq update_session_def closed_facts)

lemma stopped_client_reachable: "client_reachable demo_skyr stopped_client"
proof -
  have "client_reachable demo_skyr (update_session 0 closed_session stopping_client)"
    by (rule client_reachable.internal_step [OF stopping_client_reachable client_internal.session])
      (simp_all add: stopping_client_eq closing_step)
  then show ?thesis using stopped_client_step by (rule client_reachable.internal_step)
qed

text \<open>A fetch of another host while the stop is under way.\<close>

lemma other_fetch:
  "client_fetch demo_skyr 2 demo_request other_web stopping_client
     = Inr (stopping_client\<lparr>cl_sessions := [stopping_session, new_session other_endpoint],
         cl_version := 2, cl_pushes := [(1, 2, demo_request)], cl_fetched := [1, 2]\<rparr>)"
proof -
  have "se_endpoint stopping_session = demo_endpoint" by code_simp
  then show ?thesis
    by (simp add: fetch_simps stopping_client_eq demo_client_eq new_client_def other_web_def
        other_endpoint_def demo_endpoint_def)
qed

lemma grown_client_reachable: "client_reachable demo_skyr grown_client"
proof -
  let ?c = "stopping_client\<lparr>cl_sessions := [stopping_session, new_session other_endpoint],
         cl_version := 2, cl_pushes := [(1, 2, demo_request)], cl_fetched := [1, 2]\<rparr>"
  have r: "client_reachable demo_skyr ?c"
    by (rule client_reachable.user_step [OF stopping_client_reachable client_user.fetch [OF _ other_fetch]])
      (simp add: stopping_client_eq demo_client_eq)
  have eq: "update_session 0 closed_session ?c = grown_client"
    by (simp add: update_session_def grown_client_def)
  have "client_internal ?c (update_session 0 closed_session ?c)"
    by (rule client_internal.session) (simp_all add: closing_step)
  then show ?thesis unfolding eq by (rule client_reachable.internal_step [OF r])
qed

end
