(* ===== verification/Client_Live.thy ===== *)
theory Client_Live
  imports Client_History
begin

text \<open>
  A client left alone comes to rest. Every step it takes by itself makes \<open>client_work\<close> smaller:
  a dispatched push weighs more than the task it becomes, and a stop operation weighs, for
  each session that is still to be stopped, more than the close it starts there.
\<close>

section \<open>The measure\<close>

definition stop_work :: "stop_sessions \<Rightarrow> nat" where
  "stop_work op = 4 * (ss_end op - ss_begin op)"

definition client_work :: "('u, 'f) client \<Rightarrow> nat" where
  "client_work cl = sum_list (map work (cl_sessions cl)) + 39 * length (cl_pushes cl) + length (cl_jobs cl)
     + sum_list (map stop_work (cl_stopping cl))"

lemma push_op_work: "work (push_op h rq s) \<le> work s + 38"
  by (simp add: push_op_def push_task_def work_def post_job_def Let_def)

lemma stop_op_work: "work (stop_op i gr h s) \<le> work s + 3"
proof -
  have "work (stop_op i gr h s) \<le> work (set_running False s) + (1 + waiter_work (For_stop h))"
    unfolding stop_op_def async_transport_close_def Let_def
    by (rule launch_work [OF starts_within(2)]) (rule order.trans [OF stop_closed_work], simp)
  then show ?thesis by simp
qed

lemma update_session_work:
  "n < length (cl_sessions cl) \<Longrightarrow>
   client_work (update_session n s cl) + work (cl_sessions cl ! n) = client_work cl + work s"
  using sum_list_map_update [of n "cl_sessions cl" work s]
  by (simp add: client_work_def update_session_def)

lemma stop_loop_work:
  assumes "ss_begin op \<le> ss_end op" "ss_end op \<le> length (cl_sessions cl)"
  shows "client_work (stop_loop i ec op cl) \<le> client_work cl + 4 * (ss_end op - ss_begin op)
    + (if ss_begin op = ss_end op then 0 else 3)"
proof (cases "ss_begin op = ss_end op")
  case True
  then show ?thesis by (simp add: stop_loop_def client_work_def)
next
  case False
  let ?cl = "cl\<lparr>cl_stopping := cl_stopping cl @ [op]\<rparr>" and ?n = "ss_begin op"
  let ?s = "stop_op i (ss_graceful op) (ss_handler op) (cl_sessions cl ! ?n)"
  have "client_work (update_session ?n ?s ?cl) + work (cl_sessions cl ! ?n) = client_work ?cl + work ?s"
    using update_session_work [of ?n ?cl ?s] False assms by simp
  moreover have "work ?s \<le> work (cl_sessions cl ! ?n) + 3" by (rule stop_op_work)
  moreover have "client_work ?cl = client_work cl + 4 * (ss_end op - ss_begin op)"
    by (simp add: client_work_def stop_work_def)
  ultimately show ?thesis using False by (simp add: stop_loop_def)
qed

section \<open>Every step makes it smaller\<close>

lemma run_push_work:
  assumes "client_inv cl" "j < length (cl_pushes cl)"
  shows "client_work (run_push j cl) < client_work cl"
proof -
  obtain n h rq where p: "cl_pushes cl ! j = (n, h, rq)" by (metis prod.exhaust)
  then have "(n, h, rq) \<in> set (cl_pushes cl)" using assms(2) by (metis nth_mem)
  then have n: "n < length (cl_sessions cl)" using assms(1) by (auto simp: client_inv_def)
  let ?cl = "cl\<lparr>cl_pushes := take j (cl_pushes cl) @ drop (Suc j) (cl_pushes cl)\<rparr>"
  have "client_work ?cl + 39 = client_work cl" using assms(2) by (simp add: client_work_def)
  moreover have "client_work (run_push j cl) + work (cl_sessions cl ! n)
      = client_work ?cl + work (push_op h rq (cl_sessions cl ! n))"
    using update_session_work [of n ?cl] n by (simp add: run_push_def p)
  moreover have "work (push_op h rq (cl_sessions cl ! n)) \<le> work (cl_sessions cl ! n) + 38" by (rule push_op_work)
  ultimately show ?thesis by linarith
qed

lemma stop_resumed_work:
  assumes inv: "client_inv cl" and j: "j < length (cl_stopping cl)" and r: "stop_resumed i j ec cl = Inr cl'"
  shows "client_work cl' < client_work cl"
proof -
  let ?op = "cl_stopping cl ! j"
  let ?cl = "cl\<lparr>cl_stopping := take j (cl_stopping cl) @ drop (Suc j) (cl_stopping cl)\<rparr>"
  let ?next = "?op\<lparr>ss_ec := (if failed ec then ec else ss_ec ?op), ss_begin := Suc (ss_begin ?op)\<rparr>"
  note pt = stop_resumed_point [OF inv j r]
  have cl': "cl' = stop_loop i ec ?next ?cl"
    using r pt(1) inv unfolding stop_resumed_def Let_def client_inv_def by (simp split: if_splits)
  have "client_work ?cl + stop_work ?op = client_work cl"
    using sum_list_map_remove [OF j, of stop_work] by (simp add: client_work_def)
  moreover have "client_work cl' \<le> client_work ?cl + 4 * (ss_end ?op - Suc (ss_begin ?op)) + 3"
    using stop_loop_work [of ?next ?cl i ec] pt(2,3) unfolding cl' by (simp split: if_splits)
  ultimately show ?thesis using pt(2,3) by (simp add: stop_work_def)
qed

lemma client_internal_work: "client_internal cl cl' \<Longrightarrow> client_inv cl \<Longrightarrow> client_work cl' < client_work cl"
proof (induction rule: client_internal.induct)
  case (proxies cl j js)
  then show ?case by (cases j) (simp_all add: client_work_def)
next
  case (push j cl)
  then show ?case by (intro run_push_work)
next
  case (stopped j cl ec i cl')
  then show ?case by (intro stop_resumed_work)
next
  case (session n cl s')
  then have "reachable (se_endpoint (cl_sessions cl ! n)) (cl_sessions cl ! n)"
    by (simp add: client_inv_def valid_reachable)
  then have "work s' < work (cl_sessions cl ! n)"
    using internal_work [OF session(2)] reachable_inv by (auto simp: session_inv_def)
  with update_session_work [OF session(1), of s'] show ?case by linarith
qed

lemma client_internal_inv: "client_internal cl cl' \<Longrightarrow> client_inv cl \<Longrightarrow> client_inv cl'"
  using client_step_inv client_stepI(1) by blast

lemma client_run_bounded:
  "(client_internal ^^ n) cl cl' \<Longrightarrow> client_inv cl \<Longrightarrow> client_inv cl' \<and> n + client_work cl' \<le> client_work cl"
proof (induction n arbitrary: cl')
  case 0
  then show ?case by simp
next
  case (Suc n)
  then obtain cl1 where "(client_internal ^^ n) cl cl1" "client_internal cl1 cl'" by auto
  with Suc.IH [of cl1] Suc.prems(2) client_internal_work client_internal_inv show ?case by fastforce
qed

lemma client_run_inv: "client_internal\<^sup>*\<^sup>* cl cl' \<Longrightarrow> client_inv cl \<Longrightarrow> client_inv cl'"
  by (induction rule: rtranclp_induct) (auto intro: client_internal_inv)

lemma client_comes_to_rest:
  "client_inv cl \<Longrightarrow> \<exists>cl'. client_internal\<^sup>*\<^sup>* cl cl' \<and> \<not> (\<exists>c. client_internal cl' c)"
proof (induction cl rule: measure_induct_rule [where f = client_work])
  case (less cl)
  show ?case
  proof (cases "\<exists>c. client_internal cl c")
    case True
    then obtain c where c: "client_internal cl c" by blast
    with less client_internal_work client_internal_inv obtain cl' where
      "client_internal\<^sup>*\<^sup>* c cl'" "\<not> (\<exists>c. client_internal cl' c)" by meson
    with c show ?thesis by (meson converse_rtranclp_into_rtranclp)
  qed blast
qed

section \<open>At rest\<close>

lemma stop_loop_fetched: "cl_fetched (stop_loop i ec op cl) = cl_fetched cl"
  by (simp add: stop_loop_def)

lemma client_internal_fetched: "client_internal cl cl' \<Longrightarrow> cl_fetched cl' = cl_fetched cl"
proof (induction rule: client_internal.induct)
  case (proxies cl j js)
  then show ?case by (cases j) simp_all
next
  case (stopped j cl ec i cl')
  then show ?case by (auto simp: stop_resumed_def Let_def stop_loop_fetched split: if_splits)
qed (simp_all add: run_push_def split_beta)

lemma client_run_fetched: "client_internal\<^sup>*\<^sup>* cl cl' \<Longrightarrow> cl_fetched cl' = cl_fetched cl"
  by (induction rule: rtranclp_induct) (auto dest: client_internal_fetched)

lemma stuck_quiet:
  assumes inv: "client_inv cl" and stuck: "\<not> (\<exists>c. client_internal cl c)" and ok: "unbroken cl"
  shows "quiet cl"
proof -
  have "cl_pushes cl = []"
  proof (rule ccontr)
    assume "cl_pushes cl \<noteq> []"
    then have "client_internal cl (run_push 0 cl)" by (intro client_internal.push) simp_all
    with stuck show False by blast
  qed
  moreover have "at_rest s" if s: "s \<in> set (cl_sessions cl)" for s
  proof (rule ccontr)
    assume r: "\<not> at_rest s"
    obtain n where n: "n < length (cl_sessions cl)" "cl_sessions cl ! n = s" using s by (meson in_set_conv_nth)
    have "session_inv s" using inv s reachable_inv by (auto simp: client_inv_def dest: valid_reachable)
    with progress [OF _ _ r] ok s obtain s' where "internal s s'" by (auto simp: unbroken_def)
    with n stuck client_internal.session show False by blast
  qed
  ultimately show ?thesis by (simp add: quiet_def)
qed

end
