(* ===== verification/Client_Stops.thy ===== *)
theory Client_Stops
  imports Client_Live
begin

text \<open>
  Stopping a client: every stop operation waits for a session that still owes it an answer, so
  a stop during which no session is made finishes, and leaves no session running.
\<close>

section \<open>What a stop waits for\<close>

definition stops_waited :: "('u, 'f) client \<Rightarrow> bool" where
  "stops_waited cl \<longleftrightarrow> (\<forall>op \<in> set (cl_stopping cl). ss_begin op < length (cl_sessions cl)
     \<and> awaits (ss_handler op) (cl_sessions cl ! ss_begin op))"

lemma stops_waited_frame:
  "stops_waited cl \<Longrightarrow> cl_sessions cl' = cl_sessions cl \<Longrightarrow> set (cl_stopping cl') \<subseteq> set (cl_stopping cl)
   \<Longrightarrow> stops_waited cl'"
  by (auto simp: stops_waited_def)

lemma stops_waited_update:
  assumes "stops_waited cl" "n < length (cl_sessions cl)" "\<And>h. awaits h (cl_sessions cl ! n) \<Longrightarrow> awaits h s"
  shows "stops_waited (update_session n s cl)"
  using assms by (auto simp: stops_waited_def nth_list_update)

lemma stops_waited_loop:
  assumes "stops_waited cl" "ss_begin op \<le> ss_end op" "ss_end op \<le> length (cl_sessions cl)"
  shows "stops_waited (stop_loop i ec op cl)"
proof (cases "ss_begin op = ss_end op")
  case True
  with assms(1) show ?thesis by (simp add: stop_loop_def stops_waited_def)
next
  case False
  let ?s = "stop_op i (ss_graceful op) (ss_handler op) (cl_sessions cl ! ss_begin op)"
  have n: "ss_begin op < length (cl_sessions cl)" using False assms by simp
  have "stops_waited (update_session (ss_begin op) ?s cl)"
    by (rule stops_waited_update [OF assms(1) n]) (rule pool.stop_keeps_waits)
  moreover have "awaits (ss_handler op) ?s" by (rule pool.stop_waits)
  ultimately show ?thesis using False n by (simp add: stop_loop_def stops_waited_def)
qed

lemma stops_waited_step:
  assumes st: "client_step S cl cl'" and inv: "client_inv cl" and w: "stops_waited cl"
  shows "stops_waited cl'"
  using st
proof (cases rule: client_step_cases)
  case (setting v n k p m)
  with w show ?thesis
    by (elim disjE) (simp_all add: set_verify_peer_def set_max_pending_per_session_def add_proxy_def
        set_proxies_def stops_waited_frame)
next
  case (proxies j js)
  with w show ?thesis by (cases j) (simp_all add: stops_waited_frame)
next
  case (fetch h rq u)
  then obtain ep m cl1 where g: "get_session ep cl = (m, cl1)" and cl': "cl_sessions cl' = cl_sessions cl1"
    "cl_stopping cl' = cl_stopping cl1"
    by (auto simp: client_fetch_def split_beta) (metis prod.collapse)
  from g have "stops_waited cl1"
    by (cases rule: get_session_cases) (use w in \<open>auto simp: stops_waited_def nth_append\<close>)
  with cl' show ?thesis by (simp add: stops_waited_frame)
next
  case (push j)
  obtain n h rq where p: "cl_pushes cl ! j = (n, h, rq)" by (metis prod.exhaust)
  then have "(n, h, rq) \<in> set (cl_pushes cl)" using push(2) by (metis nth_mem)
  then have n: "n < length (cl_sessions cl)" using inv by (auto simp: client_inv_def)
  have "stops_waited (update_session n (push_op h rq (cl_sessions cl ! n)) cl)"
    by (rule stops_waited_update [OF w n]) (rule pool.push_waits)
  then show ?thesis using push(1) p by (simp add: run_push_def stops_waited_frame)
next
  case (stop h i gr)
  show ?thesis unfolding stop(1) client_stop_def by (rule stops_waited_loop [OF w]) simp_all
next
  case (stopped j ec i)
  let ?cl = "cl\<lparr>cl_stopping := take j (cl_stopping cl) @ drop (Suc j) (cl_stopping cl)\<rparr>"
  note pt = stop_resumed_point [OF inv stopped(1,3)]
  have "stops_waited ?cl"
    by (rule stops_waited_frame [OF w]) (auto dest!: in_set_takeD in_set_dropD)
  with stopped(3) pt show ?thesis
    by (auto simp: stop_resumed_def Let_def split: if_splits intro!: stops_waited_loop)
next
  case (session n s')
  then have "valid_session (cl_sessions cl ! n)" using inv by (simp add: client_inv_def)
  with session show ?thesis
    by (auto intro!: stops_waited_update [OF w] intro: pool.step_waits)
qed

lemma reachable_stops_waited: "client_reachable S cl \<Longrightarrow> stops_waited cl"
proof (induction rule: client_reachable.induct)
  case created
  show ?case by (simp add: new_client_def stops_waited_def)
next
  case (internal_step cl cl')
  then show ?case using stops_waited_step client_stepI(1) client_reachable_inv by blast
next
  case (user_step cl cl')
  then show ?case using stops_waited_step client_stepI(2) client_reachable_inv by blast
qed

section \<open>A stop that no new session overtakes\<close>

definition all_stopped :: "('u, 'f) client \<Rightarrow> bool" where
  "all_stopped cl \<longleftrightarrow> (\<forall>s \<in> set (cl_sessions cl). \<not> running s)"

definition will_stop :: "nat \<Rightarrow> ('u, 'f) client \<Rightarrow> bool" where
  "will_stop h cl \<longleftrightarrow>
     (\<forall>op \<in> set (cl_stopping cl). ss_handler op = h \<longrightarrow> ss_version op = cl_version cl)
     \<and> (h \<in> ss_handler ` set (cl_stopping cl) \<or> h \<in> fst ` set (cl_stopped cl) \<and> all_stopped cl)"

lemma will_stop_frame:
  "will_stop h cl \<Longrightarrow> cl_stopping cl' = cl_stopping cl \<Longrightarrow> cl_stopped cl' = cl_stopped cl
   \<Longrightarrow> cl_version cl' = cl_version cl \<Longrightarrow> (all_stopped cl \<Longrightarrow> all_stopped cl') \<Longrightarrow> will_stop h cl'"
  by (auto simp: will_stop_def)

lemma all_stopped_update:
  "all_stopped cl \<Longrightarrow> \<not> running s \<Longrightarrow> all_stopped (update_session n s cl)"
  using set_update_subset_insert by (fastforce simp: all_stopped_def)

lemma all_stopped_loop: "all_stopped cl \<Longrightarrow> all_stopped (stop_loop i ec op cl)"
  unfolding stop_loop_def
  by (auto intro!: all_stopped_update pool.stop_dead) (simp_all add: all_stopped_def)

text \<open>When the loop ends, every session it went past has stopped.\<close>

lemma resumed_all_stopped:
  assumes inv: "client_inv cl" and j: "j < length (cl_stopping cl)" and r: "stop_resumed i j ec cl = Inr cl'"
    and last: "Suc (ss_begin (cl_stopping cl ! j)) = ss_end (cl_stopping cl ! j)"
  shows "all_stopped cl'"
proof -
  note pt = stop_resumed_point [OF inv j r]
  have "\<forall>m < length (cl_sessions cl). \<not> running (cl_sessions cl ! m)"
    using pt last by (metis less_Suc_eq_le)
  then have "all_stopped cl" unfolding all_stopped_def all_set_conv_all_nth .
  then have "all_stopped (cl\<lparr>cl_stopping := x\<rparr>)" for x by (simp add: all_stopped_def)
  with r show ?thesis by (auto simp: stop_resumed_def Let_def split: if_splits intro: all_stopped_loop)
qed

lemma will_stop_resumed:
  assumes inv: "client_inv cl" and j: "j < length (cl_stopping cl)" and r: "stop_resumed i j ec cl = Inr cl'"
    and w: "will_stop h cl"
  shows "will_stop h cl'"
proof -
  let ?op = "cl_stopping cl ! j"
  let ?cl = "cl\<lparr>cl_stopping := take j (cl_stopping cl) @ drop (Suc j) (cl_stopping cl)\<rparr>"
  let ?next = "?op\<lparr>ss_ec := (if failed ec then ec else ss_ec ?op), ss_begin := Suc (ss_begin ?op)\<rparr>"
  from r have cl': "cl' = stop_loop i ec ?next ?cl" and v: "ss_version ?op = cl_version cl"
    by (auto simp: stop_resumed_def Let_def split: if_splits)
  have set_eq: "set (cl_stopping cl) = insert ?op (set (cl_stopping ?cl))" using set_take_drop [OF j] by simp
  show ?thesis
  proof (cases "Suc (ss_begin ?op) = ss_end ?op")
    case True
    have "cl_stopping cl' = cl_stopping ?cl" "cl_version cl' = cl_version cl"
      "fst ` set (cl_stopped cl') = insert (ss_handler ?op) (fst ` set (cl_stopped cl))"
      using True by (simp_all add: cl' stop_loop_def)
    with w set_eq resumed_all_stopped [OF inv j r True] show ?thesis by (auto simp: will_stop_def)
  next
    case False
    have "set (cl_stopping cl') = insert ?next (set (cl_stopping ?cl))" "cl_version cl' = cl_version cl"
      "cl_stopped cl' = cl_stopped cl"
      using False by (simp_all add: cl' stop_loop_def)
    moreover have "all_stopped cl \<Longrightarrow> all_stopped cl'"
      unfolding cl' by (rule all_stopped_loop) (simp add: all_stopped_def)
    ultimately show ?thesis using w set_eq v by (auto simp: will_stop_def)
  qed
qed

lemma will_stop_step: "client_internal cl cl' \<Longrightarrow> client_inv cl \<Longrightarrow> will_stop h cl \<Longrightarrow> will_stop h cl'"
proof (induction rule: client_internal.induct)
  case (proxies cl j js)
  then show ?case by (cases j) (auto elim!: will_stop_frame simp: all_stopped_def)
next
  case (push j cl)
  obtain n g rq where p: "cl_pushes cl ! j = (n, g, rq)" by (metis prod.exhaust)
  then have "(n, g, rq) \<in> set (cl_pushes cl)" using push(1) by (metis nth_mem)
  then have n: "n < length (cl_sessions cl)" using push(3) by (auto simp: client_inv_def)
  have "all_stopped cl \<Longrightarrow> all_stopped (update_session n (push_op g rq (cl_sessions cl ! n)) cl)"
    using n by (intro all_stopped_update) (auto simp: push_op_facts(1) all_stopped_def)
  then show ?case using push(4) p by (auto elim!: will_stop_frame simp: run_push_def all_stopped_def)
next
  case (stopped j cl ec i cl')
  then show ?case using will_stop_resumed by blast
next
  case (session n cl s')
  then have "valid_session (cl_sessions cl ! n)" by (simp add: client_inv_def)
  from pool.step_live [OF this session(2)] session(1)
  have "all_stopped cl \<Longrightarrow> all_stopped (update_session n s' cl)"
    by (intro all_stopped_update) (auto simp: all_stopped_def)
  with session(4) show ?case by (auto elim!: will_stop_frame)
qed

text \<open>
  Users may go on setting, stopping and fetching: only a fetch that makes a new session overtakes
  a stop. Sessions are never removed, so their number tells.
\<close>

lemma client_user_count: "client_user S cl cl' \<Longrightarrow> session_count cl \<le> session_count cl'"
proof (induction rule: client_user.induct)
  case (fetch h cl rq u cl')
  then obtain ep m cl1 where g: "get_session ep cl = (m, cl1)" and cl': "cl_sessions cl' = cl_sessions cl1"
    by (auto simp: client_fetch_def split_beta) (metis prod.collapse)
  from g show ?case by (cases rule: get_session_cases) (simp_all add: cl' session_count_def)
qed (auto simp: session_count_def set_verify_peer_def set_max_pending_per_session_def add_proxy_def
    set_proxies_def client_stop_def stop_loop_def update_session_def)

lemma client_internal_count: "client_internal cl cl' \<Longrightarrow> session_count cl' = session_count cl"
proof (induction rule: client_internal.induct)
  case (proxies cl j js)
  then show ?case by (cases j) (simp_all add: session_count_def)
qed (auto simp: session_count_def run_push_def update_session_def stop_resumed_def Let_def stop_loop_def
    split_beta split: if_splits)

lemma client_step_count: "client_step S cl cl' \<Longrightarrow> session_count cl \<le> session_count cl'"
  using client_user_count client_internal_count unfolding client_step_def by fastforce

lemma will_stop_user:
  assumes "client_user S cl cl'" "session_count cl' = session_count cl" "will_stop h cl"
  shows "will_stop h cl'"
  using assms
proof (induction rule: client_user.induct)
  case (setting cl' v cl n k p m)
  then show ?case
    by (elim disjE) (auto elim!: will_stop_frame simp: set_verify_peer_def set_max_pending_per_session_def
        add_proxy_def set_proxies_def all_stopped_def)
next
  case (fetch g cl rq u cl')
  then obtain ep m cl1 where g: "get_session ep cl = (m, cl1)"
    and cl': "cl' = cl1\<lparr>cl_pushes := cl_pushes cl1 @ [(m, g, rq)], cl_fetched := cl_fetched cl1 @ [g]\<rparr>"
    by (auto simp: client_fetch_def split_beta) (metis prod.collapse)
  from g have "cl1 = cl"
    by (cases rule: get_session_cases) (use fetch(3) cl' in \<open>simp_all add: session_count_def\<close>)
  with fetch(4) show ?case by (auto elim!: will_stop_frame simp: cl' all_stopped_def)
next
  case (stop g cl i gr)
  have "all_stopped cl \<Longrightarrow> all_stopped (client_stop i gr g cl)"
    unfolding client_stop_def by (rule all_stopped_loop)
  with stop show ?case by (auto simp: will_stop_def client_stop_def stop_loop_def)
qed

lemma client_reachable_steps: "(client_step S)\<^sup>*\<^sup>* cl cl' \<Longrightarrow> client_reachable S cl \<Longrightarrow> client_reachable S cl'"
  by (induction rule: rtranclp_induct) (auto simp: client_step_def intro: client_reachable.intros)

lemma client_step_run:
  assumes "(client_step S)\<^sup>*\<^sup>* cl cl'" "client_inv cl"
  shows "client_inv cl' \<and> session_count cl \<le> session_count cl'
    \<and> (session_count cl' = session_count cl \<longrightarrow> will_stop h cl \<longrightarrow> will_stop h cl')"
  using assms(1)
proof (induction rule: rtranclp_induct)
  case (step cl1 cl2)
  have inv: "client_inv cl2" using client_step_inv [OF step(2)] step(3) by blast
  moreover have le: "session_count cl1 \<le> session_count cl2" by (rule client_step_count [OF step(2)])
  moreover have "will_stop h cl2" if eq: "session_count cl2 = session_count cl" and w: "will_stop h cl"
  proof -
    have "session_count cl1 = session_count cl" using eq le step(3) by linarith
    with w step(3) have w1: "will_stop h cl1" "session_count cl2 = session_count cl1" using eq by auto
    with step(2,3) will_stop_step will_stop_user show ?thesis unfolding client_step_def by metis
  qed
  ultimately show ?case using step(3) by fastforce
qed (simp add: assms(2))

lemma client_stop_will_stop:
  assumes "h \<notin> ss_handler ` set (cl_stopping cl)"
  shows "will_stop h (client_stop i gr h cl)"
proof -
  have "h \<noteq> ss_handler op" if "op \<in> set (cl_stopping cl)" for op using that assms by auto
  then show ?thesis
    by (auto simp: client_stop_def stop_loop_def will_stop_def all_stopped_def)
qed

text \<open>At rest, a stop that was not overtaken by a new session has called its handler.\<close>

lemma stuck_stopped:
  assumes inv: "client_inv cl" and w: "stops_waited cl" and ok: "unbroken cl"
    and stuck: "\<not> (\<exists>c. client_internal cl c)" and h: "will_stop h cl"
  shows "h \<in> fst ` set (cl_stopped cl) \<and> all_stopped cl"
proof (rule ccontr)
  assume "\<not> ?thesis"
  with h obtain op where op: "op \<in> set (cl_stopping cl)" "ss_handler op = h" "ss_version op = cl_version cl"
    by (auto simp: will_stop_def)
  then obtain j where j: "j < length (cl_stopping cl)" "cl_stopping cl ! j = op" by (meson in_set_conv_nth)
  let ?s = "cl_sessions cl ! ss_begin op"
  have s: "?s \<in> set (cl_sessions cl)" "awaits h ?s" using w op by (auto simp: stops_waited_def)
  have "at_rest ?s" "\<not> se_threw ?s"
    using stuck_quiet [OF inv stuck ok] ok s(1) by (auto simp: quiet_def unbroken_def)
  with at_rest_replied [OF s(2)] obtain ec where "(h, ec) \<in> set (se_replies ?s)" by blast
  moreover obtain cl' where "stop_resumed undefined j ec cl = Inr cl'"
    using op(3) j by (simp add: stop_resumed_def Let_def)
  ultimately have "client_internal cl cl'" using j op(2) by (intro client_internal.stopped) auto
  with stuck show False by blast
qed

end
