(* ===== verification/Client_Dialogue.thy ===== *)
theory Client_Dialogue
  imports Client_History Session_Dialogue
begin

text \<open>
  What a client sends for a fetch: the request that was fetched, unchanged, over a session
  whose endpoint is the one the fetch was routed to.
\<close>

section \<open>The shape of a step\<close>

definition session_move :: "session \<Rightarrow> session \<Rightarrow> bool" where
  "session_move s s' \<longleftrightarrow> s' = s \<or> internal s s' \<or> (\<exists>i gr h. s' = stop_op i gr h s)"

lemma session_moveI [simp, intro]:
  "session_move s s" "internal s s' \<Longrightarrow> session_move s s'" "session_move s (stop_op i gr h s)"
  by (auto simp: session_move_def)

lemma list_all2_update:
  "(\<And>x. P x x) \<Longrightarrow> (n < length xs \<Longrightarrow> P (xs ! n) y) \<Longrightarrow> list_all2 P xs (xs[n := y])"
  by (cases "n < length xs") (auto simp: nth_list_update list.rel_refl intro!: list_all2_all_nthI)

lemma stop_loop_moves:
  "list_all2 session_move (cl_sessions cl) (cl_sessions (stop_loop i ec op cl))
   \<and> cl_pushes (stop_loop i ec op cl) = cl_pushes cl \<and> cl_fetched (stop_loop i ec op cl) = cl_fetched cl"
  unfolding stop_loop_def
  by (auto simp: list.rel_refl intro!: list_all2_update)

lemma client_step_shape [consumes 1, case_names move push fetch]:
  assumes "client_step S cl cl'"
  obtains (move) "list_all2 session_move (cl_sessions cl) (cl_sessions cl')" "cl_pushes cl' = cl_pushes cl"
      "cl_fetched cl' = cl_fetched cl"
    | (push) j where "cl' = run_push j cl" "j < length (cl_pushes cl)"
    | (fetch) h rq u where "h \<notin> set (cl_fetched cl)" "client_fetch S h rq u cl = Inr cl'"
  using assms
proof (cases rule: client_step_cases)
  case (setting v n k p m)
  show ?thesis
    by (rule move; use setting in \<open>elim disjE; simp add: set_verify_peer_def set_max_pending_per_session_def
      add_proxy_def set_proxies_def list.rel_refl\<close>)
next
  case (proxies j js)
  show ?thesis by (rule move; use proxies in \<open>cases j; simp add: list.rel_refl\<close>)
next
  case (fetch h rq u)
  then show ?thesis by (rule that(3))
next
  case (push j)
  then show ?thesis by (intro that(2))
next
  case (stop h i gr)
  then obtain op where "cl' = stop_loop i Success op cl" by (simp add: client_stop_def)
  with stop_loop_moves [of cl i Success op] show ?thesis by (intro move) simp_all
next
  case (stopped j ec i)
  let ?cl = "cl\<lparr>cl_stopping := take j (cl_stopping cl) @ drop (Suc j) (cl_stopping cl)\<rparr>"
  from stopped(3) obtain op where "cl' = stop_loop i ec op ?cl"
    by (auto simp: stop_resumed_def Let_def split: if_splits)
  with stop_loop_moves [of ?cl i ec op] show ?thesis by (intro move) simp_all
next
  case (session n s')
  show ?thesis
    by (rule move; use session in \<open>simp add: list_all2_update\<close>)
qed

lemma fetch_shape:
  assumes "client_fetch S h rq u cl = Inr cl'"
  obtains ep n ss where "fetch_endpoint S (cl_proxies cl) u = Inr ep" "cl_sessions cl' = cl_sessions cl @ ss"
    "set ss \<subseteq> {new_session ep}" "n < length (cl_sessions cl')" "se_endpoint (cl_sessions cl' ! n) = ep"
    "cl_pushes cl' = cl_pushes cl @ [(n, h, rq)]" "cl_fetched cl' = cl_fetched cl @ [h]"
proof -
  from assms obtain ep n cl1 where ep: "fetch_endpoint S (cl_proxies cl) u = Inr ep"
    and g: "get_session ep cl = (n, cl1)"
    and cl': "cl' = cl1\<lparr>cl_pushes := cl_pushes cl1 @ [(n, h, rq)], cl_fetched := cl_fetched cl1 @ [h]\<rparr>"
    by (auto simp: client_fetch_def split_beta) (metis prod.collapse)
  from g show ?thesis
  proof (cases rule: get_session_cases)
    case found
    then show ?thesis by (intro that [of ep "[]" n]) (simp_all add: ep cl' session_fits_def endpoint_eq_iff)
  next
    case created
    then show ?thesis
      by (intro that [of ep "[new_session ep]" n]) (simp_all add: ep cl', simp add: new_session_def)
  qed
qed

lemma moved_valid:
  assumes "session_move s s'" "valid_session s"
  shows "valid_session s' \<and> requests_of s' = requests_of s \<and> se_endpoint s' = se_endpoint s"
  using assms pool.step_frame [of s s'] pool.stop_frame [of s] by (auto simp: session_move_def)

section \<open>The requests of a client\<close>

lemma serving_cong:
  assumes "serving R ep s" "\<forall>h \<in># requests_of s. R' h = R h"
  shows "serving R' ep s"
  using assms
proof (induction rule: serving.induct)
  case serving_created
  show ?case by (rule serving.serving_created)
next
  case (serving_internal_step s s')
  then show ?case
    using requests_of_cong [OF internal_requests [OF serving_internal_step.hyps(2)]]
    by (auto intro: serving.serving_internal_step)
next
  case (serving_push s h)
  then have "R' h = R h" "serving R' ep s" by (simp_all add: push_op_facts(2))
  with serving.serving_push [of R' ep s h] serving_push.hyps show ?case by simp
next
  case (serving_start s i h)
  have "requests_of (start_op i h s) = requests_of s"
    by (rule requests_of_cong) (simp add: start_op_def Let_def launch_requests)
  with serving_start show ?case by (auto intro: serving.serving_start)
next
  case (serving_stop s i gr h)
  have "requests_of (stop_op i gr h s) = requests_of s"
    by (rule requests_of_cong) (simp add: stop_op_def Let_def launch_requests stop_closed_requests)
  with serving_stop show ?case by (auto intro: serving.serving_stop)
qed

definition serves :: "(nat \<Rightarrow> request_head) \<Rightarrow> ('u, 'f) client \<Rightarrow> bool" where
  "serves R cl \<longleftrightarrow> (\<forall>(n, h, rq) \<in> set (cl_pushes cl). rq = R h)
     \<and> (\<forall>s \<in> set (cl_sessions cl). serving R (se_endpoint s) s)"

text \<open>A request that a session holds, or that is on its way to one, was fetched.\<close>

lemma held_fetched:
  assumes "client_inv cl" "s \<in> set (cl_sessions cl)" "h \<in># requests_of s"
  shows "h \<in> set (cl_fetched cl)"
proof -
  have "h \<in># held cl" unfolding held_def using pool.table_member [OF assms(2)] assms(3) by (meson mset_subset_eqD)
  then have "h \<in># mset (cl_fetched cl)" using assms(1) by (simp add: client_inv_def)
  then show ?thesis by simp
qed

lemma pushed_fetched:
  assumes "client_inv cl" "(n, h, rq) \<in> set (cl_pushes cl)"
  shows "h \<in> set (cl_fetched cl)"
proof -
  have "h \<in># pushed cl" using assms(2) by (force simp: pushed_def)
  then have "h \<in># mset (cl_fetched cl)" using assms(1) by (simp add: client_inv_def)
  then show ?thesis by simp
qed

lemma moved_serving:
  assumes "session_move s s'" "valid_session s" "serving R (se_endpoint s) s"
  shows "serving R (se_endpoint s') s'"
proof -
  have "serving R (se_endpoint s) s'"
    using assms(1,3) unfolding session_move_def by (blast intro: serving.intros)
  with moved_valid [OF assms(1,2)] show ?thesis by simp
qed

lemma list_all2_set: "list_all2 P xs ys \<Longrightarrow> y \<in> set ys \<Longrightarrow> \<exists>x \<in> set xs. P x y"
  by (induction rule: list_all2_induct) auto

text \<open>
  Every step keeps the requests of the earlier fetches, and a new fetch adds its own: its number
  is new, so it is nobody else's request.
\<close>

lemma fetch_serves:
  assumes f: "client_fetch S h rq u cl = Inr cl'" and new: "h \<notin> set (cl_fetched cl)"
    and inv: "client_inv cl" and R: "serves R cl"
  shows "serves (R(h := rq)) cl'"
proof -
  from f obtain ep n ss where f: "cl_sessions cl' = cl_sessions cl @ ss" "set ss \<subseteq> {new_session ep}"
      "cl_pushes cl' = cl_pushes cl @ [(n, h, rq)]"
    by (rule fetch_shape)
  let ?R = "R(h := rq)"
  have keep: "?R g = R g" if "g \<in> set (cl_fetched cl)" for g using that new by auto
  have "serving ?R (se_endpoint s) s" if "s \<in> set (cl_sessions cl')" for s
  proof (cases "s \<in> set (cl_sessions cl)")
    case True
    with R have "serving R (se_endpoint s) s" by (simp add: serves_def)
    then show ?thesis by (rule serving_cong) (use held_fetched [OF inv True] keep in blast)
  next
    case False
    with that f have "s = new_session ep" by auto
    then show ?thesis using serving_created [of ?R ep] by (simp add: new_session_def)
  qed
  moreover have "\<forall>(n, g, rq') \<in> set (cl_pushes cl). rq' = ?R g"
    using R keep pushed_fetched [OF inv] by (fastforce simp: serves_def)
  ultimately show ?thesis using f by (auto simp: serves_def)
qed

lemma step_serves:
  assumes step: "client_step S cl cl'" and inv: "client_inv cl" and R: "serves R cl"
  shows "\<exists>R'. serves R' cl' \<and> (\<forall>h \<in> set (cl_fetched cl). R' h = R h)"
  using step
proof (cases rule: client_step_shape)
  case move
  have "serving R (se_endpoint s') s'" if "s' \<in> set (cl_sessions cl')" for s'
    using list_all2_set [OF move(1) that] moved_serving R inv by (auto simp: serves_def client_inv_def)
  with R move have "serves R cl'" by (simp add: serves_def)
  then show ?thesis by blast
next
  case (push j)
  obtain n h rq where p: "cl_pushes cl ! j = (n, h, rq)" by (metis prod.exhaust)
  have el: "(n, h, rq) \<in> set (cl_pushes cl)" using push(2) p by (metis nth_mem)
  then have rq: "rq = R h" and n: "n < length (cl_sessions cl)"
    using R inv by (auto simp: serves_def client_inv_def)
  have mem: "cl_sessions cl ! n \<in> set (cl_sessions cl)" using n by simp
  have "h \<notin># requests_of (cl_sessions cl ! n)"
    using inv el by (intro pool.table_new [OF _ _ _ mem, of "cl_fetched cl" "pushed cl"])
      (force simp: client_inv_def held_def pushed_def)+
  then have "serving R (se_endpoint (cl_sessions cl ! n)) (push_op h (R h) (cl_sessions cl ! n))"
    using R mem by (intro serving.serving_push) (auto simp: serves_def requests_of_def)
  moreover have "set (cl_sessions cl') \<subseteq> insert (push_op h rq (cl_sessions cl ! n)) (set (cl_sessions cl))"
    using set_update_subset_insert by (simp add: push run_push_def p)
  ultimately have "\<forall>s \<in> set (cl_sessions cl'). serving R (se_endpoint s) s"
    using R rq by (auto simp: serves_def push_op_facts(3))
  moreover have "set (cl_pushes cl') \<subseteq> set (cl_pushes cl)"
    using set_take_subset set_drop_subset by (fastforce simp: push run_push_def p)
  ultimately have "serves R cl'" using R by (auto simp: serves_def)
  then show ?thesis by blast
next
  case (fetch h rq u)
  from fetch_serves [OF fetch(2,1) inv R] fetch(1) show ?thesis
    by (intro exI [of _ "R(h := rq)"]) auto
qed

lemma step_fetched:
  assumes "client_step S cl cl'"
  shows "set (cl_fetched cl) \<subseteq> set (cl_fetched cl')"
  using assms
proof (cases rule: client_step_shape)
  case (push j)
  then show ?thesis by (simp add: run_push_def split_beta)
next
  case (fetch h rq u)
  from fetch(2) show ?thesis by (rule fetch_shape) auto
qed auto

lemma run_fetched: "(client_step S)\<^sup>*\<^sup>* cl cl' \<Longrightarrow> set (cl_fetched cl) \<subseteq> set (cl_fetched cl')"
  by (induction rule: rtranclp_induct) (use step_fetched in blast)+

lemma internal_run_steps: "client_internal\<^sup>*\<^sup>* cl cl' \<Longrightarrow> (client_step S)\<^sup>*\<^sup>* cl cl'"
  by (erule rtranclp_mono [THEN predicate2D, rotated]) (auto intro: client_stepI)

lemma run_inv: "(client_step S)\<^sup>*\<^sup>* cl cl' \<Longrightarrow> client_inv cl \<Longrightarrow> client_inv cl'"
  by (induction rule: rtranclp_induct) (auto intro: client_step_inv)

lemma run_serves:
  assumes "(client_step S)\<^sup>*\<^sup>* cl cl'" "client_inv cl" "serves R cl"
  shows "\<exists>R'. serves R' cl' \<and> (\<forall>h \<in> set (cl_fetched cl). R' h = R h)"
  using assms
proof (induction rule: rtranclp_induct)
  case (step x y)
  have inv: "client_inv x" by (rule run_inv [OF step.hyps(1) assms(2)])
  from step obtain R' where R': "serves R' x" "\<forall>h \<in> set (cl_fetched cl). R' h = R h" by blast
  from step_serves [OF step.hyps(2) inv R'(1)] obtain R''
    where "serves R'' y" "\<forall>h \<in> set (cl_fetched x). R'' h = R' h" by blast
  moreover have "set (cl_fetched cl) \<subseteq> set (cl_fetched x)" using step.hyps(1) by (rule run_fetched)
  ultimately show ?case using R'(2) by (metis subsetD)
qed blast

lemma reachable_serves:
  assumes "client_reachable S cl"
  shows "\<exists>R. serves R cl"
  using assms
proof (induction rule: client_reachable.induct)
  case created
  show ?case by (simp add: serves_def new_client_def)
next
  case (internal_step cl cl')
  then show ?case using step_serves [OF client_stepI(1)] client_reachable_inv by blast
next
  case (user_step cl cl')
  then show ?case using step_serves [OF client_stepI(2)] client_reachable_inv by blast
qed

section \<open>Where a fetch goes\<close>

definition placed :: "nat \<Rightarrow> endpoint \<Rightarrow> ('u, 'f) client \<Rightarrow> bool" where
  "placed h ep cl \<longleftrightarrow> h \<in> set (cl_fetched cl)
     \<and> (\<forall>(n, g, rq) \<in> set (cl_pushes cl). g = h \<longrightarrow> se_endpoint (cl_sessions cl ! n) = ep)
     \<and> (\<forall>s \<in> set (cl_sessions cl). h \<in># requests_of s \<longrightarrow> se_endpoint s = ep)"

lemma fetch_placed:
  assumes f: "client_fetch S h rq u cl = Inr cl'" and new: "h \<notin> set (cl_fetched cl)" and inv: "client_inv cl"
  shows "\<exists>ep. fetch_endpoint S (cl_proxies cl) u = Inr ep \<and> placed h ep cl'"
proof -
  from f obtain ep n ss where f: "fetch_endpoint S (cl_proxies cl) u = Inr ep" "cl_sessions cl' = cl_sessions cl @ ss"
      "set ss \<subseteq> {new_session ep}" "se_endpoint (cl_sessions cl' ! n) = ep"
      "cl_pushes cl' = cl_pushes cl @ [(n, h, rq)]" "cl_fetched cl' = cl_fetched cl @ [h]"
    by (rule fetch_shape)
  have "h \<notin># requests_of s" if "s \<in> set (cl_sessions cl')" for s
    using that f(2,3) held_fetched [OF inv] new new_session_valid(2) by auto
  moreover have "(m, h, q) \<notin> set (cl_pushes cl)" for m q using pushed_fetched [OF inv] new by blast
  ultimately show ?thesis using f by (auto simp: placed_def)
qed

lemma placed_later_fetch:
  assumes p: "placed h ep cl" and inv: "client_inv cl" and f: "client_fetch S g rq u cl = Inr cl'"
    and new: "g \<notin> set (cl_fetched cl)"
  shows "placed h ep cl'"
proof -
  from f obtain ep' n ss where f: "cl_sessions cl' = cl_sessions cl @ ss" "set ss \<subseteq> {new_session ep'}"
      "cl_pushes cl' = cl_pushes cl @ [(n, g, rq)]" "cl_fetched cl' = cl_fetched cl @ [g]"
    by (rule fetch_shape)
  have "g \<noteq> h" using p new by (auto simp: placed_def)
  moreover have "m < length (cl_sessions cl)" if "(m, k, q) \<in> set (cl_pushes cl)" for m k q
    using that inv by (auto simp: client_inv_def)
  moreover have "h \<notin># requests_of s" if "s \<in> set ss" for s
    using that f(2) new_session_valid(2) by auto
  ultimately show ?thesis using p f by (fastforce simp: placed_def nth_append)
qed

lemma step_placed:
  assumes step: "client_step S cl cl'" and p: "placed h ep cl" and inv: "client_inv cl"
  shows "placed h ep cl'"
  using step
proof (cases rule: client_step_shape)
  case move
  have valid: "valid_session s" if "s \<in> set (cl_sessions cl)" for s using that inv by (simp add: client_inv_def)
  have "h \<in># requests_of s' \<longrightarrow> se_endpoint s' = ep" if s': "s' \<in> set (cl_sessions cl')" for s'
  proof -
    obtain s where s: "s \<in> set (cl_sessions cl)" "session_move s s'" using list_all2_set [OF move(1) s'] by blast
    with moved_valid [OF s(2) valid [OF s(1)]] p show ?thesis by (simp add: placed_def)
  qed
  moreover have "se_endpoint (cl_sessions cl' ! n) = se_endpoint (cl_sessions cl ! n)" if "n < length (cl_sessions cl)" for n
    using moved_valid [OF list_all2_nthD [OF move(1) that] valid] that by simp
  ultimately show ?thesis using p move(2,3) inv by (fastforce simp: placed_def client_inv_def)
next
  case (push j)
  obtain n g rq where e: "cl_pushes cl ! j = (n, g, rq)" by (metis prod.exhaust)
  let ?s = "push_op g rq (cl_sessions cl ! n)"
  have el: "(n, g, rq) \<in> set (cl_pushes cl)" using push(2) e by (metis nth_mem)
  then have n: "n < length (cl_sessions cl)" using inv by (auto simp: client_inv_def)
  have same: "se_endpoint ((cl_sessions cl)[n := ?s] ! m) = se_endpoint (cl_sessions cl ! m)" for m
    using n by (cases "m = n") (simp_all add: push_op_facts(3))
  have "h \<in># requests_of ?s \<longrightarrow> se_endpoint ?s = ep"
    using p el n nth_mem [OF n] by (auto simp: placed_def push_op_facts(2,3))
  moreover have "set (cl_sessions cl') \<subseteq> insert ?s (set (cl_sessions cl))"
    using set_update_subset_insert by (simp add: push run_push_def e)
  ultimately have "\<forall>s \<in> set (cl_sessions cl'). h \<in># requests_of s \<longrightarrow> se_endpoint s = ep"
    using p by (auto simp: placed_def)
  moreover have "set (cl_pushes cl') \<subseteq> set (cl_pushes cl)"
    using set_take_subset set_drop_subset by (fastforce simp: push run_push_def e)
  ultimately show ?thesis using p same by (auto simp: placed_def push run_push_def e)
next
  case (fetch g rq u)
  show ?thesis by (rule placed_later_fetch [OF p inv fetch(2,1)])
qed

lemma run_placed:
  "(client_step S)\<^sup>*\<^sup>* cl cl' \<Longrightarrow> placed h ep cl \<Longrightarrow> client_inv cl \<Longrightarrow> placed h ep cl'"
  by (induction rule: rtranclp_induct) (auto intro: step_placed run_inv)

text \<open>Only what a session accepted is written to its connection.\<close>

lemma unaccepted_unsent:
  assumes r: "reachable ep s" and ok: "\<not> se_threw s" and h: "h \<notin># requests_of s"
  shows "sends h (se_log s) = 0"
proof -
  have "h \<notin> set (se_accepted s)" using h by (simp add: requests_of_def)
  moreover have "map fst (se_done s) @ waiting s = se_accepted s" by (rule answered_waiting [OF reachable_inv [OF r] ok])
  ultimately have "h \<notin> fst ` set (se_done s)" "h \<notin> set (waiting s)" by (metis UnCI image_set set_append)+
  then have "allowance s h = 0"
    using not_its_turn [of s h] reachable_history [OF r] ok
    by (cases "waiting s") (auto simp: history_def answered_def)
  moreover have "sends h (se_log s) \<le> allowance s h" using reachable_history [OF r] ok by (simp add: history_def)
  ultimately show ?thesis by simp
qed

lemma written_accepted:
  assumes "reachable ep s" "\<not> se_threw s" "(h, Issue (Async_write Next_layer rq)) \<in> set (se_log s)"
  shows "h \<in># requests_of s"
proof (rule ccontr)
  assume "h \<notin># requests_of s"
  from unaccepted_unsent [OF assms(1,2) this] assms(3) show False by (force simp: sends_def filter_empty_conv)
qed

text \<open>So all sessions of a client together write what it was asked for at most twice.\<close>

lemma session_sends_bound:
  assumes "reachable ep s" "\<not> se_threw s"
  shows "sends h (se_log s) \<le> 2 * count (requests_of s) h"
proof (cases "h \<in># requests_of s")
  case True
  have "sends h (se_log s) \<le> allowance s h" using reachable_history [OF assms(1)] assms(2) by (simp add: history_def)
  also have "\<dots> \<le> 2" by (rule allowance_le)
  finally have "sends h (se_log s) \<le> 2" .
  with True show ?thesis by (metis count_greater_zero_iff mult.right_neutral mult_le_mono2 less_eq_Suc_le One_nat_def order_trans)
next
  case False
  with unaccepted_unsent [OF assms] show ?thesis by simp
qed

lemma count_sum_list: "count (sum_list (map f xs)) h = sum_list (map (\<lambda>x. count (f x) h) xs)"
  by (induction xs) simp_all

lemma client_sends_bound:
  assumes "client_inv cl" "unbroken cl"
  shows "sum_list (map (\<lambda>s. sends h (se_log s)) (cl_sessions cl)) \<le> 2 * count (mset (cl_fetched cl)) h"
proof -
  have "sum_list (map (\<lambda>s. sends h (se_log s)) (cl_sessions cl))
      \<le> sum_list (map (\<lambda>s. 2 * count (requests_of s) h) (cl_sessions cl))"
    using assms by (intro sum_list_mono session_sends_bound [OF valid_reachable])
      (auto simp: client_inv_def unbroken_def)
  also have "\<dots> = 2 * count (sum_list (map requests_of (cl_sessions cl))) h"
    by (simp add: count_sum_list sum_list_const_mult)
  also have "\<dots> \<le> 2 * count (mset (cl_fetched cl)) h"
    using assms(1) by (simp add: client_inv_def Client_Inv.held_def)
  finally show ?thesis .
qed

end
