(* ===== verification/Client_Properties.thy ===== *)
theory Client_Properties
  imports Client_Run Client_Stops Client_Dialogue
begin

text \<open>
  The properties of the client, for every state its users, its strand and its sessions can
  bring it to.
\<close>

section \<open>Answers\<close>





section \<open>Routing\<close>

text \<open>
  C18. A fetch goes to one session, which has the endpoint of its URL and room in its queue;
  a session is made for it only when every session of that endpoint is full, and no other
  session changes.
\<close>

theorem fetch_is_routed:
  assumes "client_fetch S h rq u cl = Inr cl'"
  shows "\<exists>ep n. fetch_endpoint S (cl_proxies cl) u = Inr ep \<and> cl_pushes cl' = cl_pushes cl @ [(n, h, rq)]
    \<and> n < length (cl_sessions cl') \<and> se_endpoint (cl_sessions cl' ! n) = ep
    \<and> (if \<exists>s \<in> set (cl_sessions cl). se_endpoint s = ep \<and> pending_tasks s < cl_max_pending cl
       then cl_sessions cl' = cl_sessions cl \<and> pending_tasks (cl_sessions cl ! n) < cl_max_pending cl
       else n = length (cl_sessions cl) \<and> cl_sessions cl' = cl_sessions cl @ [new_session ep])"
proof -
  from assms obtain ep n cl1 where ep: "fetch_endpoint S (cl_proxies cl) u = Inr ep"
    and g: "get_session ep cl = (n, cl1)"
    and cl': "cl' = cl1\<lparr>cl_pushes := cl_pushes cl1 @ [(n, h, rq)], cl_fetched := cl_fetched cl1 @ [h]\<rparr>"
    by (auto simp: client_fetch_def split_beta) (metis prod.collapse)
  show ?thesis
  proof (rule exI [of _ ep], rule exI [of _ n])
    from g show "fetch_endpoint S (cl_proxies cl) u = Inr ep \<and> cl_pushes cl' = cl_pushes cl @ [(n, h, rq)]
      \<and> n < length (cl_sessions cl') \<and> se_endpoint (cl_sessions cl' ! n) = ep
      \<and> (if \<exists>s \<in> set (cl_sessions cl). se_endpoint s = ep \<and> pending_tasks s < cl_max_pending cl
         then cl_sessions cl' = cl_sessions cl \<and> pending_tasks (cl_sessions cl ! n) < cl_max_pending cl
         else n = length (cl_sessions cl) \<and> cl_sessions cl' = cl_sessions cl @ [new_session ep])"
    proof (cases rule: get_session_cases)
      case found
      then show ?thesis using ep cl' nth_mem [OF found(1)] by (auto simp: session_fits_def endpoint_eq_iff)
    next
      case created
      then have "\<not> (\<exists>s \<in> set (cl_sessions cl). se_endpoint s = ep \<and> pending_tasks s < cl_max_pending cl)"
        by (auto simp: session_fits_def endpoint_eq_iff)
      with created show ?thesis using ep cl' by (simp add: new_session_def)
    qed
  qed
qed

theorem fetch_is_routed_witness:
  "\<exists>ep n. fetch_endpoint demo_skyr (cl_proxies (new_client :: (demo_url, unit) client)) demo_web = Inr ep
    \<and> cl_pushes fetched_client = [(n, 1, demo_request)] \<and> cl_sessions fetched_client = [new_session ep]"
  using fetch_is_routed [OF demo_fetch] by (simp add: new_client_def)

text \<open>
  C4. What is sent for a fetch: however the client goes on, every message written for it is the
  request that was fetched, unchanged, and is written by a session that has the endpoint the
  URL and the proxies gave at the time of the fetch.
\<close>

theorem fetch_sent_as_asked:
  assumes "client_reachable S cl" "h \<notin> set (cl_fetched cl)" "client_fetch S h rq u cl = Inr cl1"
    and "(client_step S)\<^sup>*\<^sup>* cl1 cl'" "s \<in> set (cl_sessions cl')" "\<not> se_threw s"
    and "(h, Issue (Async_write Next_layer rq')) \<in> set (se_log s)"
  shows "rq' = rq \<and> fetch_endpoint S (cl_proxies cl) u = Inr (se_endpoint s)"
proof -
  have inv: "client_inv cl" by (rule client_reachable_inv [OF assms(1)])
  have inv1: "client_inv cl1" by (rule client_inv_fetch [OF inv assms(3,2)])
  note inv' = run_inv [OF assms(4) inv1]
  obtain R where "serves R cl" using reachable_serves [OF assms(1)] by blast
  from run_serves [OF assms(4) inv1 fetch_serves [OF assms(3,2) inv this]] obtain R'
    where R': "serves R' cl'" "\<forall>g \<in> set (cl_fetched cl1). R' g = (R(h := rq)) g" by blast
  obtain ep where ep: "fetch_endpoint S (cl_proxies cl) u = Inr ep" "placed h ep cl1"
    using fetch_placed [OF assms(3,2) inv] by blast
  have pl: "placed h ep cl'" by (rule run_placed [OF assms(4) ep(2) inv1])
  have sv: "serving R' (se_endpoint s) s" using R'(1) assms(5) by (simp add: serves_def)
  then have "dialogue R' None (se_log s)" using serving_polite assms(6) by (auto simp: polite_def in_dialogue_def)
  from dialogue_writes [OF this assms(7)] have "rq' = R' h" by simp
  moreover have "R' h = rq" using R'(2) ep(2) by (simp add: placed_def)
  moreover have "h \<in># requests_of s" by (rule written_accepted [OF serving_reachable [OF sv] assms(6,7)])
  ultimately show ?thesis using pl assms(5) ep(1) by (simp add: placed_def)
qed

theorem fetch_sent_as_asked_witness:
  "fetch_endpoint demo_skyr (cl_proxies (new_client :: (demo_url, unit) client)) demo_web = Inr demo_endpoint"
proof -
  have "(client_step demo_skyr)\<^sup>*\<^sup>* fetched_client demo_client"
    using fetched_client_run by (rule internal_run_steps)
  moreover have "(1, Issue (Async_write Next_layer demo_request)) \<in> set (se_log demo_done)"
    by (rule demo_written)
  ultimately have "fetch_endpoint demo_skyr (cl_proxies (new_client :: (demo_url, unit) client)) demo_web
      = Inr (se_endpoint demo_done)"
    using fetch_sent_as_asked [OF client_reachable.created _ demo_fetch, of demo_client demo_done demo_request]
    by (simp add: demo_client_eq demo_facts new_client_def)
  then show ?thesis using reachable_endpoint [OF demo_reachable] by simp
qed

text \<open>
  C5. A client sends nothing on its own, and nothing more than twice: all its sessions together
  write the request of a fetch at most two times, whatever fails, and none that was not fetched.
\<close>

theorem client_sends_at_most_twice:
  assumes "client_reachable S cl" "unbroken cl"
  shows "sum_list (map (\<lambda>s. sends h (se_log s)) (cl_sessions cl)) \<le> (if h \<in> set (cl_fetched cl) then 2 else 0)"
proof -
  have inv: "client_inv cl" by (rule client_reachable_inv [OF assms(1)])
  then have "distinct (cl_fetched cl)" by (simp add: client_inv_def)
  then have "count (mset (cl_fetched cl)) h = (if h \<in> set (cl_fetched cl) then 1 else 0)"
    by (simp add: distinct_count_atmost_1)
  with client_sends_bound [OF inv assms(2), of h] show ?thesis by (auto split: if_splits)
qed

theorem client_sends_at_most_twice_witness: "sends 1 (se_log demo_done) \<le> 2"
proof -
  have "unbroken demo_client" by (simp add: unbroken_def demo_client_eq demo_facts)
  from client_sends_at_most_twice [OF demo_client_reachable this, of 1] show ?thesis
    by (simp add: demo_client_eq)
qed

text \<open>The host that the TLS session of an endpoint is with.\<close>

fun tls_peer :: "endpoint \<Rightarrow> base_endpoint option" where
  "tls_peer (Plain e) = None"
| "tls_peer (Secure e) = Some e"
| "tls_peer (Tunnel t) = Some (ep_target t)"

text \<open>
  C19. A URL with the scheme https is fetched over TLS from the host and port it names, whether
  or not there is a proxy: the session it is given has a secure endpoint whose peer is the
  URL's own.
\<close>

theorem https_stays_secure:
  assumes "skyr_scheme S" "u_scheme S u = ''https''" "fetch_endpoint S m u = Inr ep"
  shows "is_secure ep \<and> (\<exists>p. safe_port S u = Inr p
    \<and> tls_peer ep = Some \<lparr>ep_domain = u_hostname S u, ep_port = p\<rparr>)"
proof -
  note eqs = is_ssl_involved_iff [OF assms(1)] protocol_https_iff [OF assms(1)]
  from assms(2,3) show ?thesis
    by (auto simp: fetch_endpoint_def to_endpoint_def eqs is_secure_def split: option.splits)
qed

theorem https_stays_secure_witness: "is_secure demo_endpoint"
proof -
  have "fetch_endpoint demo_skyr (\<lambda>_. None :: (demo_url, unit) proxy option) demo_web = Inr demo_endpoint"
    by (simp add: fetch_simps demo_web_def demo_endpoint_def)
  from https_stays_secure [OF demo_skyr_scheme _ this] show ?thesis
    by (simp add: demo_skyr_def demo_web_def)
qed



text \<open>
  C37. A URL without TLS cannot be fetched through a proxy: as soon as the table has a proxy for
  it, the operation throws and its handler is never called.
\<close>

theorem proxied_http_throws:
  assumes "skyr_scheme S" "select_proxy S (cl_proxies cl) u = Inr (Some p)" "u_scheme S u \<noteq> ''https''"
  shows "\<exists>e. client_fetch S h rq u cl = Inl e"
proof -
  have "\<not> u_protocol S u = ''https:''" using assms(1,3) by (simp add: protocol_https_iff)
  then have "\<exists>e. to_endpoint S True u = Inl e"
    by (cases "safe_port S u") (auto simp: to_endpoint_def)
  then have "\<exists>e. fetch_endpoint S (cl_proxies cl) u = Inl e"
    using assms(2) by (cases "to_endpoint S False (px_url p)") (auto simp: fetch_endpoint_def)
  then show ?thesis by (auto simp: client_fetch_def)
qed

definition proxied_client :: "(demo_url, unit) client" where
  "proxied_client = run_client_job (Add_proxy (By_scheme Proxy_http)
     \<lparr>px_url = (''http'', ''proxy'', Some 3128, ''''), px_fields = ()\<rparr>) new_client"

theorem proxied_http_throws_witness:
  "\<exists>e. client_fetch demo_skyr 1 demo_request (''http'', ''a.org'', None, ''/'') proxied_client = Inl e"
  by (rule proxied_http_throws [OF demo_skyr_scheme])
    (simp_all add: proxied_client_def map_emplace_def new_client_def select_proxy_def
      scheme_to_proxy_scheme_def demo_skyr_def)

text \<open>
  The credentials of a proxy are never sent: the endpoint of a fetch does not depend on the
  header fields stored with the proxies, and the CONNECT request of a tunnel, which depends on
  that endpoint alone, has no Proxy-Authorization field.
\<close>

theorem proxy_credentials_unused:
  "fetch_endpoint S (\<lambda>k. map_option (px_fields_update g) (m k)) u = fetch_endpoint S m u
   \<and> map_of (rq_set (connect_request ep)) ''Proxy-Authorization'' = None"
proof -
  have first: "first_proxy (\<lambda>k. map_option (px_fields_update g) (m k)) ks
      = map_option (px_fields_update g) (first_proxy m ks)" for ks
    by (induction ks) (simp_all split: option.split)
  show ?thesis
    by (cases "scheme_to_proxy_scheme (u_scheme S u)")
      (simp_all add: fetch_endpoint_def select_proxy_def first connect_request_def option.case_eq_if
        option.map_sel del: first_proxy.simps)
qed



section \<open>Stopping\<close>



text \<open>
  C20. A stop of a client finishes. Whatever comes after it, further stops, settings and fetches
  included, as long as no fetch makes a new session: wherever the client then comes to rest, the
  handler of the stop has been called and no session is running.
\<close>

theorem client_stop_finishes:
  assumes "client_reachable S cl" "h \<notin> fst ` set (cl_stopped cl)" "h \<notin> ss_handler ` set (cl_stopping cl)"
    and "(client_step S)\<^sup>*\<^sup>* (client_stop i gr h cl) cl'" "session_count cl' = session_count cl"
    and "\<not> (\<exists>c. client_internal cl' c)" "unbroken cl'"
  shows "h \<in> fst ` set (cl_stopped cl') \<and> (\<forall>s \<in> set (cl_sessions cl'). \<not> running s)"
proof -
  have r: "client_reachable S (client_stop i gr h cl)"
    by (rule client_reachable.user_step [OF assms(1) client_user.stop [OF assms(2,3)]])
  have "session_count (client_stop i gr h cl) = session_count cl"
    by (simp add: session_count_def client_stop_def stop_loop_def update_session_def)
  with client_step_run [OF assms(4) client_reachable_inv [OF r], of h] assms(5) client_stop_will_stop [OF assms(3)]
  have "client_inv cl'" "will_stop h cl'" by simp_all
  moreover have "stops_waited cl'" by (rule reachable_stops_waited [OF client_reachable_steps [OF assms(4) r]])
  ultimately show ?thesis using stuck_stopped [OF _ _ assms(7,6)] by (simp add: all_stopped_def)
qed

theorem client_stop_finishes_witness: "5 \<in> fst ` set (cl_stopped stopped_client)"
proof -
  have "client_internal stopping_client (update_session 0 closed_session stopping_client)"
    by (rule client_internal.session) (simp_all add: stopping_client_eq closing_step)
  with stopped_client_step have "client_internal\<^sup>*\<^sup>* stopping_client stopped_client" by simp
  then have run: "(client_step demo_skyr)\<^sup>*\<^sup>* stopping_client stopped_client" by (rule internal_run_steps)
  have rest: "\<not> client_internal stopped_client c" for c
  proof
    assume "client_internal stopped_client c"
    then show False
      by cases (auto simp: stopped_client_def demo_client_eq new_client_def at_rest_stuck closed_facts)
  qed
  have "unbroken stopped_client" by (simp add: unbroken_def stopped_client_def closed_facts)
  with client_stop_finishes [OF demo_client_reachable _ _ run [unfolded stopping_client_def]] rest show ?thesis
    by (simp add: demo_client_eq new_client_def session_count_def stopped_client_def)
qed

text \<open>
  C22. A session of a client that was stopped stays in the table and never works again: it keeps
  its endpoint, never accepts another request, and rejects those that are pushed to it.
\<close>

theorem stopped_session_stays_dead:
  assumes "client_reachable S cl" "n < length (cl_sessions cl)" "\<not> running (cl_sessions cl ! n)"
    and "(client_step S)\<^sup>*\<^sup>* cl cl'"
  shows "n < length (cl_sessions cl')
    \<and> se_endpoint (cl_sessions cl' ! n) = se_endpoint (cl_sessions cl ! n)
    \<and> se_accepted (cl_sessions cl' ! n) = se_accepted (cl_sessions cl ! n)
    \<and> se_rejected (push_op h rq (cl_sessions cl' ! n)) = se_rejected (cl_sessions cl' ! n) @ [h]"
proof -
  have "same_session n cl cl'"
    using dead_run [OF assms(4) client_reachable_inv [OF assms(1)]] assms(2,3) by (simp add: dead_def)
  then show ?thesis by (simp add: same_session_def dead_def push_op_facts(4))
qed

theorem stopped_session_stays_dead_witness:
  "se_rejected (push_op 3 demo_request (cl_sessions stopped_client ! 0)) = [3]"
proof -
  have "0 < length (cl_sessions stopped_client) \<and> \<not> running (cl_sessions stopped_client ! 0)"
    by (simp add: stopped_client_def closed_facts)
  then show ?thesis
    using stopped_session_stays_dead [OF stopped_client_reachable _ _ rtranclp.rtrancl_refl, of 0 3 demo_request]
    by (simp add: stopped_client_def closed_facts)
qed

text \<open>
  A client cannot be used again after a stop, although nothing says so: the next fetch of the
  same host is routed to the stopped session, which answers it with \<open>operation_aborted\<close>.
\<close>

theorem fetch_after_stop_rejected:
  "\<exists>cl cl'. client_reachable demo_skyr cl \<and> cl_stopped cl = [(5, Success)] \<and> cl_stopping cl = []
    \<and> client_fetch demo_skyr 3 demo_request demo_web (cl :: (demo_url, unit) client) = Inr cl'
    \<and> session_count cl' = 1 \<and> map se_rejected (cl_sessions (run_push 0 cl')) = [[3]]"
proof -
  let ?cl = "stopped_client\<lparr>cl_pushes := [(0, 3, demo_request)], cl_fetched := [1, 3]\<rparr>"
  have "client_fetch demo_skyr 3 demo_request demo_web stopped_client = Inr ?cl"
    using closed_facts(4,5)
    by (simp add: fetch_simps stopped_client_def demo_client_eq new_client_def demo_web_def demo_endpoint_def)
  moreover have "map se_rejected (cl_sessions (run_push 0 ?cl)) = [[3]]"
    by (simp add: run_push_def update_session_def stopped_client_def push_op_def closed_facts)
  moreover have "cl_stopped stopped_client = [(5, Success)]" "cl_stopping stopped_client = []" "session_count ?cl = 1"
    by (simp_all add: stopped_client_def demo_client_eq new_client_def session_count_def)
  ultimately show ?thesis using stopped_client_reachable
    by (intro exI [of _ stopped_client] exI [of _ ?cl]) simp
qed

text \<open>
  C36. A fetch that makes a new session while a stop is under way invalidates the iterators the
  stop operation holds: resuming it is undefined.
\<close>

theorem new_session_breaks_stop:
  "\<exists>cl. client_reachable demo_skyr (cl :: (demo_url, unit) client) \<and> length (cl_stopping cl) = 1
    \<and> (5, Success) \<in> set (se_replies (cl_sessions cl ! 0))
    \<and> stop_resumed io_fine 0 Success cl = Inl Undefined_behaviour"
proof (intro exI [of _ grown_client] conjI)
  show "client_reachable demo_skyr grown_client" by (rule grown_client_reachable)
qed (simp_all add: grown_client_def stopping_client_eq stop_resumed_def closed_facts)

end
