(* ===== verification/Fetch.thy ===== *)
theory Fetch
  imports Session_Spec Url
begin

text \<open>
  \<open>fetch.hpp\<close> and \<open>core/detail/fetch.hpp\<close>: one fetch without a client. The coroutine
  \<open>simple_fetch_op\<close> connects a transport of its own and makes one exchange over it; the
  overloads of \<open>async_fetch\<close> choose the endpoint and the transport from the URL.
\<close>

section \<open>The coroutine\<close>

text \<open>\<open>base_state\<close>; its transport is the state the coroutine is run on.\<close>

record base_state =
  bs_endpoint :: endpoint
  bs_transport :: transport
  bs_request :: request_head

definition make_state :: "endpoint \<Rightarrow> transport \<Rightarrow> request_head \<Rightarrow> base_state" where
  "make_state ep tr rq = \<lparr>bs_endpoint = ep, bs_transport = tr, bs_request = rq\<rparr>"

text \<open>Where it stands: before the first yield, or in the operation it yielded for.\<close>

datatype fetch_point =
    Fetch_entry
  | Connecting op_point
  | Processing op_point

text \<open>
  After the second yield, the handler is called with the error code; after the first one, the
  exchange is started, whatever the error code of the connection is.
\<close>

definition fetch_processed :: "error_code \<Rightarrow> transport \<Rightarrow> fetch_point outcome" where
  "fetch_processed ec t = (t, [], Completed ec)"

definition fetch_connected :: "base_state \<Rightarrow> io \<Rightarrow> error_code \<Rightarrow> transport \<Rightarrow> fetch_point outcome" where
  "fetch_connected st i ec t =
     resume_outer Processing fetch_processed (async_process_one (bs_endpoint st) (bs_request st) i t)"

fun simple_fetch_op :: "base_state \<Rightarrow> fetch_point step" where
  "simple_fetch_op st Fetch_entry i t =
     resume_outer Connecting (fetch_connected st i) (async_connect (bs_endpoint st) i t)"
| "simple_fetch_op st (Connecting p) i t =
     resume_outer Connecting (fetch_connected st i) (transport_body (bs_endpoint st) p i t)"
| "simple_fetch_op st (Processing p) i t =
     resume_outer Processing fetch_processed (transport_body (bs_endpoint st) p i t)"

text \<open>\<open>net::dispatch\<close> of the operation, and the outcomes of the calls it makes.\<close>

definition fetch_run :: "base_state \<Rightarrow> io \<Rightarrow> io list \<Rightarrow> fetch_point outcome" where
  "fetch_run st i is = run (simple_fetch_op st) (simple_fetch_op st Fetch_entry i (bs_transport st)) is"

section \<open>The overloads\<close>

text \<open>
  With a TLS context, without one, and the overload that looks at the URL. The endpoint is made
  before anything is launched, so its exceptions leave \<open>async_fetch\<close> itself. The coroutine
  around the TLS overload passes the result on.
\<close>

definition ssl_async_fetch :: "'u skyr \<Rightarrow> 'u \<Rightarrow> request_head \<Rightarrow> base_state result" where
  "ssl_async_fetch S u rq = bind_result (to_endpoint S True u) (\<lambda>e. Inr (make_state (Secure e) new_transport rq))"

definition tcp_async_fetch :: "'u skyr \<Rightarrow> 'u \<Rightarrow> request_head \<Rightarrow> base_state result" where
  "tcp_async_fetch S u rq = bind_result (to_endpoint S False u) (\<lambda>e. Inr (make_state (Plain e) new_transport rq))"

definition async_fetch :: "'u skyr \<Rightarrow> 'u \<Rightarrow> request_head \<Rightarrow> base_state result" where
  "async_fetch S u rq = (if is_ssl_involved S u then ssl_async_fetch S u rq else tcp_async_fetch S u rq)"

section \<open>The coroutine finishes\<close>

fun fetch_rank :: "endpoint \<Rightarrow> fetch_point \<Rightarrow> nat" where
  "fetch_rank ep Fetch_entry = op_rank (connect_point ep) + 2"
| "fetch_rank ep (Connecting p) = op_rank p + 2"
| "fetch_rank ep (Processing p) = op_rank p"

fun fetch_good :: "endpoint \<Rightarrow> fetch_point \<Rightarrow> bool" where
  "fetch_good ep Fetch_entry = True"
| "fetch_good ep (Connecting p) = op_good ep p"
| "fetch_good ep (Processing p) = op_good ep p"

lemma process_started:
  "async_process_one ep rq i t =
     (if tr_running t then (setup_timer t, [Issue (Async_write Next_layer rq)],
        Waiting (At_process rq Yield1) (Async_write Next_layer rq))
      else (cancel_timer t, [], Completed Operation_aborted))"
  by (simp add: async_process_one_eq process_entry del: transport_op.simps)

lemma fetch_connected_eq:
  "fetch_connected st i ec t =
     (if tr_running t then (setup_timer t, [Issue (Async_write Next_layer (bs_request st))],
        Waiting (Processing (At_process (bs_request st) Yield1)) (Async_write Next_layer (bs_request st)))
      else (cancel_timer t, [], Completed Operation_aborted))"
  by (simp add: fetch_connected_def process_started fetch_processed_def)

lemma resume_outer_Waiting:
  "resume_outer w k r = (t, ef, Waiting c q) \<longleftrightarrow>
     (\<exists>c'. r = (t, ef, Waiting c' q) \<and> c = w c')
     \<or> (\<exists>u ef1 ec ef2. r = (u, ef1, Completed ec) \<and> k ec u = (t, ef2, Waiting c q) \<and> ef = ef1 @ ef2)"
  by (cases "(w, k, r)" rule: resume_outer.cases) (auto split: prod.splits)

lemma resume_outer_Inert:
  "resume_outer w k r = (t, ef, Inert) \<longleftrightarrow>
     r = (t, ef, Inert)
     \<or> (\<exists>u ef1 ec ef2. r = (u, ef1, Completed ec) \<and> k ec u = (t, ef2, Inert) \<and> ef = ef1 @ ef2)"
  by (cases "(w, k, r)" rule: resume_outer.cases) (auto split: prod.splits)

lemma resume_outer_Completed:
  "resume_outer w k r = (t, ef, Completed ec) \<longleftrightarrow>
     (\<exists>u ef1 ec' ef2. r = (u, ef1, Completed ec') \<and> k ec' u = (t, ef2, Completed ec) \<and> ef = ef1 @ ef2)"
  by (cases "(w, k, r)" rule: resume_outer.cases) (auto split: prod.splits)

interpretation fetch: composed_op "simple_fetch_op st" "fetch_rank (bs_endpoint st)" "fetch_good (bs_endpoint st)" for st
proof unfold_locales
  fix c i t t' ef c' q
  assume good: "fetch_good (bs_endpoint st) c"
  then show "0 < fetch_rank (bs_endpoint st) c" using top.rank_pos by (cases c) auto
  note entry = entry_points_good(1) [of "bs_endpoint st"]
  show "simple_fetch_op st c i t \<noteq> (t', ef, Inert)"
    using good top.step_live [OF entry] top.step_live
    by (cases c) (auto simp: resume_outer_Inert async_connect_def fetch_connected_eq fetch_processed_def)
  {
    assume step: "simple_fetch_op st c i t = (t', ef, Waiting c' q)"
    show "fetch_good (bs_endpoint st) c'"
      using good step entry top.step_good entry_points_good(3)
      by (cases c) (auto simp: resume_outer_Waiting async_connect_def fetch_connected_eq fetch_processed_def
          process_good_def split: if_splits)
    show "fetch_rank (bs_endpoint st) c' < fetch_rank (bs_endpoint st) c"
    proof (cases c)
      case Fetch_entry
      with step show ?thesis using top.step_rank [OF entry] top.rank_pos [OF entry]
        by (fastforce simp: resume_outer_Waiting async_connect_def fetch_connected_eq split: if_splits)
    next
      case (Connecting p)
      with step good show ?thesis using top.step_rank top.rank_pos
        by (fastforce simp: resume_outer_Waiting fetch_connected_eq split: if_splits)
    next
      case (Processing p)
      with step good show ?thesis using top.step_rank
        by (fastforce simp: resume_outer_Waiting fetch_processed_def)
    qed
  }
qed

section \<open>What it sends\<close>

text \<open>
  The effects so far and the resume point: nothing is sent while it connects, at most one
  request is sent at all, the one of the fetch, and a call of the handler without an error
  comes with a response.
\<close>

definition sent_once :: "request_head \<Rightarrow> effect list \<Rightarrow> bool" where
  "sent_once rq ef \<longleftrightarrow> send_count ef \<le> 1 \<and> (\<forall>e \<in> set ef. is_send e \<longrightarrow> e = Issue (Async_write Next_layer rq))"

lemma no_send_in: "send_count ef = 0 \<Longrightarrow> e \<in> set ef \<Longrightarrow> \<not> is_send e"
  by (simp add: send_count_def filter_empty_conv)

lemma sent_once_append: "sent_once rq ef \<Longrightarrow> send_count ef' = 0 \<Longrightarrow> sent_once rq (ef @ ef')"
  using no_send_in by (auto simp: sent_once_def)

lemma sent_once_none: "send_count ef = 0 \<Longrightarrow> sent_once rq ef"
  using no_send_in by (auto simp: sent_once_def)

lemma sent_once_now: "send_count ef = 0 \<Longrightarrow> sent_once rq (ef @ [Issue (Async_write Next_layer rq)])"
  using no_send_in by (auto simp: sent_once_def)

fun fetch_trace :: "request_head \<Rightarrow> effect list \<Rightarrow> fetch_point progress \<Rightarrow> bool" where
  "fetch_trace rq ef (Waiting Fetch_entry q) = False"
| "fetch_trace rq ef (Waiting (Connecting c) q) \<longleftrightarrow> \<not> is_process c \<and> send_count ef = 0"
| "fetch_trace rq ef (Waiting (Processing c) q) \<longleftrightarrow>
     (\<exists>c'. c = At_process rq c' \<and> c' \<noteq> Entry) \<and> sent_once rq ef"
| "fetch_trace rq ef (Completed ec) \<longleftrightarrow>
     sent_once rq ef \<and> (\<not> failed ec \<longrightarrow> (\<exists>e \<in> set ef. is_response e))"
| "fetch_trace rq ef _ \<longleftrightarrow> sent_once rq ef"

lemma fetch_trace_connect:
  assumes c: "\<not> is_process c" and ef: "send_count ef = 0"
    and step: "resume_outer Connecting (fetch_connected st i) (transport_body (bs_endpoint st) c i' t) = (t', ef', p)"
  shows "fetch_trace (bs_request st) (ef @ ef') p"
proof -
  obtain u ef1 p1 where b: "transport_body (bs_endpoint st) c i' t = (u, ef1, p1)" by (metis prod.exhaust)
  have "send_count ef1 = 0" using other_ops_send_nothing [OF c, of "bs_endpoint st" i' t] b by simp
  then have none: "send_count (ef @ ef1) = 0" using ef by simp
  show ?thesis
  proof (cases p1)
    case (Completed ec)
    with step b sent_once_now [OF none] sent_once_none [OF none] show ?thesis
      by (auto simp: fetch_connected_eq split: if_splits)
  qed (use step b none sent_once_none [OF none] other_ops_stay [OF c, of "bs_endpoint st" i' t] in auto)
qed

lemma fetch_trace_process:
  assumes c: "c \<noteq> Entry" and ef: "sent_once rq ef"
    and step: "resume_outer Processing fetch_processed (transport_body ep (At_process rq c) i t) = (t', ef', p)"
  shows "fetch_trace rq (ef @ ef') p"
proof -
  obtain u ef1 p1 where b: "transport_body ep (At_process rq c) i t = (u, ef1, p1)" by (metis prod.exhaust)
  have "send_count ef1 = 0" using process_sends [of ep rq c i t] c unfolding b by simp
  with ef have "sent_once rq (ef @ ef1)" by (rule sent_once_append)
  with step [unfolded b] process_stays [of ep rq c i t] process_responds [of ep rq c i t]
  show ?thesis unfolding b by (cases p1) (auto simp: fetch_processed_def bex_Un)
qed

lemma fetch_trace_step:
  "fetch_trace (bs_request st) ef (Waiting c q) \<Longrightarrow> simple_fetch_op st c i t = (t', ef', p)
   \<Longrightarrow> fetch_trace (bs_request st) (ef @ ef') p"
  by (cases c) (auto intro: fetch_trace_connect fetch_trace_process)

lemma fetch_trace_run:
  assumes "fetch_run st i is = (t', ef, p)"
  shows "fetch_trace (bs_request st) ef p"
proof -
  obtain u ef1 p1 where b: "simple_fetch_op st Fetch_entry i (bs_transport st) = (u, ef1, p1)" by (metis prod.exhaust)
  then have "fetch_trace (bs_request st) ([] @ ef1) p1"
    by (intro fetch_trace_connect [OF connect_point_not_process, where ef = "[]"]) (simp_all add: async_connect_def)
  with assms b show ?thesis
    using run_trace [of "fetch_trace (bs_request st)" "simple_fetch_op st" ef1 p1 u "is" t' ef p] fetch_trace_step
    by (simp add: fetch_run_def)
qed

section \<open>Exceptions\<close>

lemma simple_fetch_calm:
  assumes "fetch_good (bs_endpoint st) c" "calm_endpoint (bs_endpoint st)"
  shows "snd (snd (simple_fetch_op st c i t)) \<noteq> Threw ec"
proof -
  have conn: "snd (snd (fetch_connected st i x u)) \<noteq> Threw y" for x u y by (simp add: fetch_connected_eq)
  have proc: "snd (snd (fetch_processed x u)) \<noteq> Threw y" for x u y by (simp add: fetch_processed_def)
  show ?thesis
  proof (cases c)
    case Fetch_entry
    have "snd (snd (async_connect (bs_endpoint st) i t)) \<noteq> Threw y" for y
      using starts_calm(1) assms(2) by (simp add: outcome_calm_def)
    with Fetch_entry conn show ?thesis by (simp add: resume_outer_calm)
  next
    case (Connecting p)
    then have "snd (snd (transport_body (bs_endpoint st) p i t)) \<noteq> Threw y" for y
      using body_calm [of "bs_endpoint st" p i t] assms by (simp add: outcome_calm_def)
    with Connecting conn show ?thesis by (simp add: resume_outer_calm)
  next
    case (Processing p)
    then have "snd (snd (transport_body (bs_endpoint st) p i t)) \<noteq> Threw y" for y
      using body_calm [of "bs_endpoint st" p i t] assms by (simp add: outcome_calm_def)
    with Processing proc show ?thesis by (simp add: resume_outer_calm)
  qed
qed

text \<open>What holds of every step from a good point holds of a run.\<close>

lemma fetch_run_calm:
  assumes "calm_endpoint (bs_endpoint st)" "fetch_run st i is = (t', ef, p)"
  shows "p \<noteq> Threw ec"
proof -
  let ?Q = "\<lambda>(ef :: effect list) p. case p of Waiting c q \<Rightarrow> fetch_good (bs_endpoint st) c | Threw x \<Rightarrow> False | _ \<Rightarrow> True"
  have step: "?Q e p" if "fetch_good (bs_endpoint st) c" "simple_fetch_op st c j t = (u, e', p)" for c j t u e' e p
    using that simple_fetch_calm [OF that(1) assms(1), of j t] fetch.step_good [OF that(1), of j t]
    by (cases p) auto
  obtain u ef1 p1 where b: "simple_fetch_op st Fetch_entry i (bs_transport st) = (u, ef1, p1)" by (metis prod.exhaust)
  have "?Q ef p"
    using assms(2) step [OF _ b] b
    by (intro run_trace [of ?Q "simple_fetch_op st" ef1 p1 u "is" t' ef p]) (auto simp: fetch_run_def intro: step)
  then show ?thesis by (cases p) auto
qed

section \<open>From the connection to the exchange\<close>

text \<open>
  Running an operation that waits for an inner one, up to where the inner one completes.
\<close>

lemma run_through:
  assumes step: "\<And>c i t. f (w c) i t = resume_outer w (k i) (g c i t)"
    and same: "\<And>i ec t. k i ec t = h ec t"
  shows "run g r is = (t, ef, Completed ec) \<Longrightarrow>
    \<exists>ks. suffix ks is \<and> run f (resume_outer w h r) is = run f (resume_outer w h (t, ef, Completed ec)) ks"
proof (induction "is" arbitrary: r)
  case Nil
  then have "r = (t, ef, Completed ec)" by (cases r; cases "snd (snd r)") auto
  then show ?case by auto
next
  case (Cons i "is")
  obtain u ef1 p where r: "r = (u, ef1, p)" by (metis prod.exhaust)
  show ?case
  proof (cases p)
    case (Waiting c q)
    obtain u' ef' p' where g: "g c i (io_apply q i u) = (u', ef', p')" by (metis prod.exhaust)
    have h: "k i = h" for i using same by (intro ext)
    let ?R = "resume_outer w h (u', ef', p')"
    have ext: "resume_outer w h (u', ef1 @ ef', p') = (fst ?R, ef1 @ fst (snd ?R), snd (snd ?R))"
      by (cases p') (auto split: prod.split)
    have "run g (u', ef1 @ ef', p') is = (t, ef, Completed ec)" using Cons.prems r Waiting g by simp
    from Cons.IH [OF this] obtain ks where "suffix ks is"
      "run f (resume_outer w h (u', ef1 @ ef', p')) is = run f (resume_outer w h (t, ef, Completed ec)) ks" by blast
    moreover have "run f (resume_outer w h r) (i # is) = run f (resume_outer w h (u', ef1 @ ef', p')) is"
      using r Waiting g by (simp add: step h ext split_beta del: resume_outer.simps(2-4))
    ultimately show ?thesis by (intro exI [of _ ks]) (simp add: suffix_ConsI)
  next
    case (Completed x)
    with Cons.prems r have "r = (t, ef, Completed ec)" by simp
    then show ?thesis by (intro exI [of _ "i # is"]) (simp del: resume_outer.simps)
  qed (use Cons.prems r in simp_all)
qed

lemma fetch_run_through:
  assumes "run (transport_body (bs_endpoint st)) (async_connect (bs_endpoint st) i (bs_transport st)) is = (t, ef, Completed ec)"
  shows "\<exists>ks. suffix ks is \<and> fetch_run st i is =
    run (simple_fetch_op st) (resume_outer Connecting (fetch_connected st i) (t, ef, Completed ec)) ks"
proof -
  have same: "fetch_connected st j x u = fetch_connected st i x u" for j x u by (simp add: fetch_connected_eq)
  show ?thesis unfolding fetch_run_def simple_fetch_op.simps(1)
    by (rule run_through [where k = "fetch_connected st" and g = "transport_body (bs_endpoint st)"])
      (rule simple_fetch_op.simps(2) same assms)+
qed

end
