(* ===== verification/Get_Post.thy ===== *)
theory Get_Post
  imports Fetch Message_Properties
begin

text \<open>
  \<open>get.hpp\<close> and \<open>post.hpp\<close>: the two functions that build a request and fetch it. This is where
  the messages and the coroutine of a fetch meet: what the transport writes is the message,
  with the fields that Boost.Beast's serializer finds in it (\<open>fields_of\<close>).
\<close>

definition request_head_of :: "('f \<Rightarrow> (string \<times> string) list) \<Rightarrow> ('f, 'u) request \<Rightarrow> request_head" where
  "request_head_of fields_of r = \<lparr>rq_method = req_method r, rq_target = req_target r,
     rq_version = req_version r, rq_set = fields_of (msg_fields r)\<rparr>"

text \<open>
  The constructor of \<open>http::url\<close>, which is \<open>skyr::url\<close>'s, is the parameter \<open>make_url\<close>; it throws
  when it cannot parse its argument.
\<close>

definition async_get ::
  "'u skyr \<Rightarrow> 'f beast \<Rightarrow> ('f \<Rightarrow> (string \<times> string) list) \<Rightarrow> (string \<Rightarrow> 'u result)
   \<Rightarrow> string \<Rightarrow> field_arg list \<Rightarrow> base_state result" where
  "async_get S B fields_of make_url url_str fs =
     bind_result (make_url url_str) (\<lambda>u.
       async_fetch S u (request_head_of fields_of (get_request_of S B u fs)))"

definition async_post ::
  "'u skyr \<Rightarrow> 'f beast \<Rightarrow> ('f \<Rightarrow> (string \<times> string) list) \<Rightarrow> (string \<Rightarrow> 'u result)
   \<Rightarrow> string \<Rightarrow> string \<Rightarrow> field_arg list \<Rightarrow> base_state result" where
  "async_post S B fields_of make_url url_str body fs =
     bind_result (make_url url_str) (\<lambda>u.
       async_fetch S u (request_head_of fields_of (post_request_of S B u body fs)))"

lemma async_fetch_state:
  "async_fetch S u rq = Inr st \<Longrightarrow> bs_request st = rq \<and> bs_transport st = new_transport
     \<and> (\<exists>e. bs_endpoint st = (if is_ssl_involved S u then Secure e else Plain e) \<and> ep_domain e = u_hostname S u)"
  by (auto simp: async_fetch_def ssl_async_fetch_def tcp_async_fetch_def make_state_def to_endpoint_def
      split: if_splits)

lemma fetch_run_sends:
  "fetch_run st i is = (t, ef, p) \<Longrightarrow> e \<in> set ef \<Longrightarrow> is_send e
   \<Longrightarrow> e = Issue (Async_write Next_layer (bs_request st))"
  using fetch_trace_run [of st i "is" t ef p] no_send_in
  by (cases "(bs_request st, ef, p)" rule: fetch_trace.cases) (auto simp: sent_once_def)

text \<open>The fields of the request of a POST, whatever its caller adds.\<close>

lemma post_request_fields:
  assumes laws: "beast_laws B" and body: "body \<noteq> []"
  shows "b_find B Host (msg_fields (post_request_of S B u body fs)) = Some (u_host S u)"
    and "b_find B Content_length (msg_fields (post_request_of S B u body fs)) = Some (to_dec (length body))"
    and "b_find B Content_type_field (msg_fields (post_request_of S B u body fs)) = Some ''application/octet-stream''"
proof -
  let ?r = "basic_request S B Post u"
  have none: "msg_body ?r = []" by (simp add: basic_request_def)
  note find = basic_request_find [OF laws, of _ S Post u] and add = add_content_find [OF laws]
  have "b_find B Host (msg_fields (content_buffer B body ?r)) = b_find B Host (msg_fields ?r)"
    using laws by (simp add: content_buffer_def add_content_def Let_def beast_laws_def)
  moreover have "b_find B Content_length (msg_fields (content_buffer B body ?r)) = Some (to_dec (length body))"
    using add(2) [of ?r body] body none by (simp add: content_buffer_def)
  moreover have "b_find B Content_type_field (msg_fields (content_buffer B body ?r)) = Some ''application/octet-stream''"
    using add(1) [of _ body ?r] by (simp add: content_buffer_def find)
  ultimately show "b_find B Host (msg_fields (post_request_of S B u body fs)) = Some (u_host S u)"
    "b_find B Content_length (msg_fields (post_request_of S B u body fs)) = Some (to_dec (length body))"
    "b_find B Content_type_field (msg_fields (post_request_of S B u body fs)) = Some ''application/octet-stream''"
    unfolding post_request_of_def by (simp_all add: insert_fields_keep [OF laws] find)
qed

lemma post_request_rest:
  "req_method (post_request_of S B u body fs) = Post" "req_target (post_request_of S B u body fs) = target S u"
  "req_version (post_request_of S B u body fs) = 11" "msg_body (post_request_of S B u body fs) = body"
  by (simp_all add: post_request_of_def insert_fields_rest content_buffer_def add_content_def Let_def basic_request_def)

end
