(* ===== verification/Fetch_Properties.thy ===== *)
theory Fetch_Properties
  imports Get_Post Client Session_Run Url_Properties
begin

text \<open>
  The properties of a fetch without a client.
\<close>

definition demo_state :: base_state where
  "demo_state = make_state demo_endpoint new_transport demo_request"

text \<open>
  C30. A fetch over TLS always ends with a call of its handler, after at most five calls into the
  I/O layer, whatever these answer.
\<close>

theorem tls_fetch_completes:
  assumes "bs_endpoint st = Secure e" "5 \<le> length is"
  shows "\<exists>t ef ec. fetch_run st i is = (t, ef, Completed ec)"
proof -
  obtain t ef p where r: "fetch_run st i is = (t, ef, p)" by (metis prod.exhaust)
  have "finished (fetch_run st i is)"
    unfolding fetch_run_def using assms by (intro fetch.start_finishes) (simp_all add: connect_point_def)
  moreover have "p \<noteq> Threw ec" for ec using fetch_run_calm [OF _ r] assms(1) by simp
  ultimately show ?thesis using r by (cases p) auto
qed

theorem tls_fetch_completes_witness:
  "\<exists>t ef ec. fetch_run demo_state io_fine [io_fine, io_fine, io_lost, io_fine, io_fine] = (t, ef, Completed ec)"
  by (rule tls_fetch_completes) (simp_all add: demo_state_def make_state_def demo_endpoint_def)

text \<open>
  C31. The request of a fetch is written at most once, and nothing else is; a handler called without
  an error gets a response that was stored.
\<close>

theorem fetch_sends_once:
  assumes "fetch_run st i is = (t, ef, p)"
  shows "send_count ef \<le> 1 \<and> (\<forall>e \<in> set ef. is_send e \<longrightarrow> e = Issue (Async_write Next_layer (bs_request st)))
    \<and> (\<forall>ec. p = Completed ec \<and> \<not> failed ec \<longrightarrow> (\<exists>e \<in> set ef. is_response e))"
  using fetch_trace_run [OF assms] sent_once_none
  by (cases "(bs_request st, ef, p)" rule: fetch_trace.cases) (auto simp: sent_once_def)

theorem fetch_sends_once_witness:
  "send_count (fst (snd (fetch_run demo_state io_fine [io_fine, io_fine, io_fine, io_fine, io_fine]))) = 1"
proof -
  let ?r = "fetch_run demo_state io_fine [io_fine, io_fine, io_fine, io_fine, io_fine]"
  have "fst (snd ?r) \<noteq> [] \<and> send_count (fst (snd ?r)) \<noteq> 0" by code_simp
  moreover have "?r = (fst ?r, fst (snd ?r), snd (snd ?r))" by simp
  note fetch_sends_once [OF this]
  ultimately show ?thesis by simp
qed

text \<open>
  The error code of the connection is never looked at: as soon as connecting has ended, well
  or not, the request is written to the transport, and the handler is told how that went.
\<close>

theorem connection_error_ignored:
  assumes "lawful_run (transport_body (bs_endpoint st)) (async_connect (bs_endpoint st) i (bs_transport st)) is"
    and "run (transport_body (bs_endpoint st)) (async_connect (bs_endpoint st) i (bs_transport st)) is
      = (t, ef, Completed ec)"
  shows "\<exists>ks. suffix ks is \<and> fetch_run st i is = run (simple_fetch_op st)
    (setup_timer t, ef @ [Issue (Async_write Next_layer (bs_request st))],
     Waiting (Processing (At_process (bs_request st) Yield1)) (Async_write Next_layer (bs_request st))) ks"
proof -
  have "tr_running t" using transport.connect_leaves [OF assms] by simp
  then have "resume_outer Connecting (fetch_connected st i) (t, ef, Completed ec) =
      (setup_timer t, ef @ [Issue (Async_write Next_layer (bs_request st))],
       Waiting (Processing (At_process (bs_request st) Yield1)) (Async_write Next_layer (bs_request st)))"
    by (simp add: fetch_connected_eq)
  with fetch_run_through [OF assms(2)] show ?thesis by simp
qed

definition io_refused :: io where
  "io_refused = io_fine\<lparr>io_ec := Connection_refused, io_open := False\<rparr>"

theorem connection_error_ignored_witness:
  "\<exists>t ef ks. suffix ks [io_refused] \<and> fetch_run demo_state io_fine [io_refused] = run (simple_fetch_op demo_state)
    (setup_timer t, ef @ [Issue (Async_write Next_layer demo_request)],
     Waiting (Processing (At_process demo_request Yield1)) (Async_write Next_layer demo_request)) ks"
proof -
  let ?r = "run (transport_body demo_endpoint) (async_connect demo_endpoint io_fine new_transport) [io_refused]"
  have st: "bs_endpoint demo_state = demo_endpoint" "bs_transport demo_state = new_transport"
    "bs_request demo_state = demo_request"
    by (simp_all add: demo_state_def make_state_def)
  have "lawful_run (transport_body demo_endpoint) (async_connect demo_endpoint io_fine new_transport) [io_refused]"
    "snd (snd ?r) = Completed Connection_refused"
    by code_simp+
  moreover from this have "?r = (fst ?r, fst (snd ?r), Completed Connection_refused)" by (metis prod.collapse)
  ultimately show ?thesis using connection_error_ignored [of demo_state io_fine "[io_refused]"] unfolding st by blast
qed

text \<open>
  A client that has no proxy for a URL connects to the same endpoint, with the same kind of
  transport, as a fetch without a client, and the two throw the same exceptions.
\<close>

theorem fetches_agree:
  assumes "scheme_to_proxy_scheme (u_scheme S u) = Inr s" "first_proxy m [By_origin (u_origin S u), By_scheme s] = None"
  shows "fetch_endpoint S m u = bind_result (async_fetch S u rq) (\<lambda>st. Inr (bs_endpoint st))"
proof -
  have assoc: "bind_result (bind_result r f) g = bind_result r (\<lambda>x. bind_result (f x) g)" for r f g
    by (cases r) simp_all
  have "select_proxy S m u = Inr None" using assms by (simp add: select_proxy_def)
  then show ?thesis
    by (simp add: fetch_endpoint_def async_fetch_def ssl_async_fetch_def tcp_async_fetch_def assoc make_state_def)
qed

theorem fetches_agree_witness:
  "bind_result (async_fetch demo_skyr (''http'', ''a.org'', Some 81, ''/'') demo_request) (\<lambda>st. Inr (bs_endpoint st))
     = Inr (Plain \<lparr>ep_domain = ''a.org'', ep_port = 81\<rparr>)"
proof -
  let ?u = "(''http'', ''a.org'', Some 81, ''/'')"
  have "fetch_endpoint demo_skyr (\<lambda>_. None :: (demo_url, unit) proxy option) ?u
      = bind_result (async_fetch demo_skyr ?u demo_request) (\<lambda>st. Inr (bs_endpoint st))"
    by (rule fetches_agree) (simp_all add: scheme_to_proxy_scheme_def demo_skyr_def)
  moreover have "fetch_endpoint demo_skyr (\<lambda>_. None :: (demo_url, unit) proxy option) ?u
      = Inr (Plain \<lparr>ep_domain = ''a.org'', ep_port = 81\<rparr>)"
    by (simp add: fetch_endpoint_def select_proxy_def scheme_to_proxy_scheme_def demo_skyr_def demo_port_def
        is_ssl_involved_def to_endpoint_def safe_port_def)
  ultimately show ?thesis by simp
qed

section \<open>Get and post\<close>

text \<open>
  C32. What \<open>async_post\<close> writes to the connection is the request of its URL: the method, the target
  and the version, with the host of the URL and the length and type of the body in front of
  any field of the same name that the caller adds.
\<close>

theorem post_sends_request:
  assumes "beast_laws B" "body \<noteq> []" "async_post S B fields_of make_url url_str body fs = Inr st"
    and "fetch_run st i is = (t, ef, p)" "e \<in> set ef" "is_send e"
  shows "\<exists>u f. make_url url_str = Inr u
    \<and> e = Issue (Async_write Next_layer
        \<lparr>rq_method = Post, rq_target = target S u, rq_version = 11, rq_set = fields_of f\<rparr>)
    \<and> b_find B Host f = Some (u_host S u) \<and> b_find B Content_length f = Some (to_dec (length body))
    \<and> b_find B Content_type_field f = Some ''application/octet-stream''"
proof -
  from assms(3) obtain u where u: "make_url url_str = Inr u"
    and st: "async_fetch S u (request_head_of fields_of (post_request_of S B u body fs)) = Inr st"
    by (auto simp: async_post_def)
  have "e = Issue (Async_write Next_layer (request_head_of fields_of (post_request_of S B u body fs)))"
    using fetch_run_sends [OF assms(4-6)] async_fetch_state [OF st] by simp
  with u post_request_fields [OF assms(1,2), of S u fs] show ?thesis
    by (intro exI [of _ u] exI [of _ "msg_fields (post_request_of S B u body fs)"])
      (simp add: request_head_of_def post_request_rest)
qed

definition demo_fields_of :: "demo_fields \<Rightarrow> (string \<times> string) list" where
  "demo_fields_of f = map (\<lambda>(k, v). ([], v)) f"

definition demo_make_url :: "string \<Rightarrow> demo_url result" where
  "demo_make_url s = Inr (''https'', s, None, ''/'')"

definition demo_post :: "base_state result" where
  "demo_post = async_post demo_skyr demo_beast demo_fields_of demo_make_url ''a.org'' ''hello''
     [\<lparr>fa_field = Content_length, fa_name = ''Content-Length'', fa_value = ''7''\<rparr>]"

theorem post_sends_request_witness:
  "\<exists>e f. is_send e \<and> e \<in> set (fst (snd (fetch_run (projr demo_post) io_fine [io_fine, io_fine, io_fine])))
    \<and> e = Issue (Async_write Next_layer
        \<lparr>rq_method = Post, rq_target = ''/'', rq_version = 11, rq_set = demo_fields_of f\<rparr>)
    \<and> b_find demo_beast Content_length f = Some (to_dec (length ''hello''))"
proof -
  let ?r = "fetch_run (projr demo_post) io_fine [io_fine, io_fine, io_fine]"
  have "send_count (fst (snd ?r)) \<noteq> 0" by code_simp
  then obtain e where e: "e \<in> set (fst (snd ?r))" "is_send e"
    unfolding send_count_def by (auto simp: filter_empty_conv)
  have r: "?r = (fst ?r, fst (snd ?r), snd (snd ?r))" by simp
  obtain x where "demo_post = Inr x"
    by (simp add: demo_post_def async_post_def demo_make_url_def async_fetch_def ssl_async_fetch_def
        is_ssl_involved_def to_endpoint_def safe_port_def demo_skyr_def demo_port_def)
  then have "demo_post = Inr (projr demo_post)" by (metis sum.sel(2))
  from post_sends_request [OF demo_beast_laws _ this [unfolded demo_post_def] r [unfolded demo_post_def] e [unfolded demo_post_def]] e show ?thesis
    by (intro exI [of _ e]) (auto simp: demo_make_url_def target_def demo_skyr_def)
qed

end
