(* ===== verification/Client_Play.thy ===== *)
theory Client_Play
  imports Client_Run
begin

text \<open>
  An executable form of the client's steps, as \<open>Session_Run\<close> has it for one session: an event
  names the step and carries what the environment or the user contributes. It is the step
  relation of \<open>Client\<close>, neither more nor less, and whole scenarios are evaluated with it.
\<close>

datatype ('u, 'f) client_event =
    Run_client_job
  | Run_push nat
  | Resume_stop nat io error_code
  | In_session nat event
  | Set_verify_peer bool
  | Set_max_pending nat
  | Add_a_proxy proxy_match "('u, 'f) proxy"
  | Set_all_proxies "('u, 'f) proxy_map"
  | Fetch nat request_head 'u
  | Stop_all nat io GracefulShutdown

fun from_client_user :: "('u, 'f) client_event \<Rightarrow> bool" where
  "from_client_user Run_client_job = False"
| "from_client_user (Run_push j) = False"
| "from_client_user (Resume_stop j i ec) = False"
| "from_client_user (In_session n e) = False"
| "from_client_user _ = True"

text \<open>The step of a session is one of its own; its users are the client's operations.\<close>

fun client_play :: "'u skyr \<Rightarrow> ('u, 'f) client_event \<Rightarrow> ('u, 'f) client \<Rightarrow> ('u, 'f) client option" where
  "client_play S Run_client_job cl =
     (case cl_jobs cl of [] \<Rightarrow> None | j # js \<Rightarrow> Some (run_client_job j (cl\<lparr>cl_jobs := js\<rparr>)))"
| "client_play S (Run_push j) cl =
     (if j < length (cl_pushes cl) \<and> fst (cl_pushes cl ! j) \<notin> fst ` set (take j (cl_pushes cl))
      then Some (run_push j cl) else None)"
| "client_play S (Resume_stop j i ec) cl =
     (if j < length (cl_stopping cl) \<and> (ss_handler (cl_stopping cl ! j), ec)
           \<in> set (se_replies (cl_sessions cl ! ss_begin (cl_stopping cl ! j)))
      then (case stop_resumed i j ec cl of Inr cl' \<Rightarrow> Some cl' | Inl _ \<Rightarrow> None) else None)"
| "client_play S (In_session n e) cl =
     (if n < length (cl_sessions cl) \<and> \<not> from_user e
      then map_option (\<lambda>s'. update_session n s' cl) (play e (cl_sessions cl ! n)) else None)"
| "client_play S (Set_verify_peer v) cl = Some (set_verify_peer v cl)"
| "client_play S (Set_max_pending n) cl = Some (set_max_pending_per_session n cl)"
| "client_play S (Add_a_proxy k p) cl = Some (add_proxy k p cl)"
| "client_play S (Set_all_proxies m) cl = Some (set_proxies m cl)"
| "client_play S (Fetch h rq u) cl =
     (if h \<in> set (cl_fetched cl) then None
      else case client_fetch S h rq u cl of Inr cl' \<Rightarrow> Some cl' | Inl _ \<Rightarrow> None)"
| "client_play S (Stop_all h i gr) cl =
     (if h \<in> fst ` set (cl_stopped cl) \<or> h \<in> ss_handler ` set (cl_stopping cl) then None
      else Some (client_stop i gr h cl))"

fun client_plays ::
  "'u skyr \<Rightarrow> ('u, 'f) client_event list \<Rightarrow> ('u, 'f) client \<Rightarrow> ('u, 'f) client option" where
  "client_plays S [] cl = Some cl"
| "client_plays S (e # es) cl = (case client_play S e cl of Some cl' \<Rightarrow> client_plays S es cl' | None \<Rightarrow> None)"

section \<open>The executable steps are the steps of the client\<close>

lemma client_play_internal:
  "client_play S e cl = Some cl' \<Longrightarrow> \<not> from_client_user e \<Longrightarrow> client_internal cl cl'"
  by (cases e) (auto intro: client_internal.intros play_internal split: list.splits if_splits sum.splits)

lemma client_play_user: "client_play S e cl = Some cl' \<Longrightarrow> from_client_user e \<Longrightarrow> client_user S cl cl'"
  by (cases e) (auto intro: client_user.intros split: if_splits sum.splits)

lemma client_internal_play: "client_internal cl cl' \<Longrightarrow> \<exists>e. \<not> from_client_user e \<and> client_play S e cl = Some cl'"
proof (induction rule: client_internal.induct)
  case (proxies cl j js)
  then show ?case by (intro exI [of _ Run_client_job]) simp
next
  case (push j cl)
  then show ?case by (intro exI [of _ "Run_push j"]) simp
next
  case (stopped j cl ec i cl')
  then show ?case by (intro exI [of _ "Resume_stop j i ec"]) simp
next
  case (session n cl s')
  with internal_play obtain e where "\<not> from_user e" "play e (cl_sessions cl ! n) = Some s'" by blast
  with session show ?case by (intro exI [of _ "In_session n e"]) simp
qed

lemma client_user_play: "client_user S cl cl' \<Longrightarrow> \<exists>e. from_client_user e \<and> client_play S e cl = Some cl'"
proof (induction rule: client_user.induct)
  case (setting cl' v cl n k p m)
  then consider "client_play S (Set_verify_peer v) cl = Some cl'" | "client_play S (Set_max_pending n) cl = Some cl'"
    | "client_play S (Add_a_proxy k p) cl = Some cl'" | "client_play S (Set_all_proxies m) cl = Some cl'"
    by fastforce
  then show ?case by cases (metis from_client_user.simps)+
next
  case (fetch h cl rq u cl')
  then show ?case by (intro exI [of _ "Fetch h rq u"]) simp
next
  case (stop h cl i gr)
  then show ?case by (intro exI [of _ "Stop_all h i gr"]) simp
qed

theorem client_play_equals_steps:
  "(client_internal cl cl' \<longleftrightarrow> (\<exists>e. \<not> from_client_user e \<and> client_play S e cl = Some cl'))
    \<and> (client_user S cl cl' \<longleftrightarrow> (\<exists>e. from_client_user e \<and> client_play S e cl = Some cl'))"
  using client_play_internal client_internal_play client_play_user client_user_play by metis

lemma client_plays_reachable:
  "client_reachable S cl \<Longrightarrow> client_plays S es cl = Some cl' \<Longrightarrow> client_reachable S cl'"
proof (induction es arbitrary: cl)
  case (Cons e es)
  from Cons.prems(2) obtain c where c: "client_play S e cl = Some c" "client_plays S es c = Some cl'"
    by (auto split: option.splits)
  have "client_reachable S c"
    using Cons.prems(1) client_play_internal [OF c(1)] client_play_user [OF c(1)]
    by (cases "from_client_user e") (auto intro: client_reachable.intros)
  with Cons.IH c(2) show ?case by blast
qed simp

section \<open>Sessions in turn\<close>

text \<open>
  The steps of the sessions do not look at the rest of the client, so a run of theirs, however
  they are interleaved, is one of the list of sessions.
\<close>

fun sessions_play :: "(nat \<times> event) list \<Rightarrow> session list \<Rightarrow> session list option" where
  "sessions_play [] ss = Some ss"
| "sessions_play ((n, e) # es) ss =
     (if n < length ss \<and> \<not> from_user e
      then case play e (ss ! n) of Some s' \<Rightarrow> sessions_play es (ss[n := s']) | None \<Rightarrow> None else None)"

lemma client_plays_sessions:
  "client_plays S (map (\<lambda>(n, e). In_session n e) es) cl
     = map_option (\<lambda>ss. cl\<lparr>cl_sessions := ss\<rparr>) (sessions_play es (cl_sessions cl))"
proof (induction es arbitrary: cl)
  case (Cons e es)
  then show ?case by (cases e) (auto simp: update_session_def split: option.split)
qed simp

lemma client_plays_append:
  "client_plays S (es @ es') cl = (case client_plays S es cl of Some cl' \<Rightarrow> client_plays S es' cl' | None \<Rightarrow> None)"
  by (induction es arbitrary: cl) (auto split: option.split)

section \<open>A scenario\<close>

text \<open>
  Two hosts, one of them behind a proxy. The first host is asked for two things, which share a
  session and a connection; the second is asked for one, through a tunnel whose proxy answers
  the CONNECT request first. The sessions take their steps in turn.
\<close>

definition tunnelled_web :: demo_url where
  "tunnelled_web = (''https'', ''b.org'', None, ''/'')"

definition demo_tunnel :: endpoint where
  "demo_tunnel = Tunnel \<lparr>ep_proxy = \<lparr>ep_domain = ''proxy'', ep_port = 3128\<rparr>,
     ep_target = \<lparr>ep_domain = ''b.org'', ep_port = 443\<rparr>\<rparr>"

definition demo_proxy :: "(demo_url, unit) proxy" where
  "demo_proxy = \<lparr>px_url = (''http'', ''proxy'', Some 3128, ''''), px_fields = ()\<rparr>"

definition asked :: "(demo_url, unit) client_event list" where
  "asked = [Add_a_proxy (By_origin ''https://b.org'') demo_proxy, Run_client_job,
     Fetch 1 demo_request demo_web, Run_push 0, Fetch 2 demo_request tunnelled_web, Run_push 0,
     Fetch 3 demo_request demo_web, Run_push 0]"

definition asked_sessions :: "session list" where
  "asked_sessions = [push_op 3 demo_request (push_op 1 demo_request (new_session demo_endpoint)),
     push_op 2 demo_request (new_session demo_tunnel)]"

definition in_turn :: "(nat \<times> event) list" where
  "in_turn = [(0, Run_job io_fine), (1, Run_job io_fine)]
     @ concat (replicate 5 [(0, Io_completes 0 io_fine), (1, Io_completes 0 io_fine)])
     @ [(0, Run_job io_fine), (1, Io_completes 0 io_fine), (0, Io_completes 0 io_fine),
        (1, Io_completes 0 io_fine), (0, Io_completes 0 (io_fine\<lparr>io_status := 404\<rparr>)),
        (0, Run_job io_fine), (1, Run_job io_fine)]"

lemma pushed_facts: "se_endpoint (push_op h rq s) = se_endpoint s" "running (push_op h rq s) = running s"
  "pending_tasks (push_op h rq s) = (if running s then Suc (pending_tasks s) else pending_tasks s)"
  by (simp_all add: push_op_def running_def pending_tasks_def push_task_def post_job_def Let_def)

lemma new_session_facts: "se_endpoint (new_session ep) = ep" "running (new_session ep)"
  "pending_tasks (new_session ep) = 0"
  by (simp_all add: new_session_def running_def pending_tasks_def)

lemma asked_plays:
  "client_plays demo_skyr asked new_client
     = Some (new_client\<lparr>cl_sessions := asked_sessions, cl_version := 2,
         cl_proxies := map_emplace (By_origin ''https://b.org'') demo_proxy (\<lambda>_. None), cl_fetched := [1, 2, 3]\<rparr>)"
  by (simp add: asked_def fetch_simps new_client_def demo_web_def tunnelled_web_def demo_proxy_def
      add_proxy_def map_emplace_def run_push_def update_session_def asked_sessions_def demo_endpoint_def
      demo_tunnel_def pushed_facts new_session_facts)

lemma in_turn_plays:
  "map_option (map (\<lambda>s. (map (fetch_handled s) (se_done s), se_rejected s, se_endpoint s, at_rest s)))
     (sessions_play in_turn asked_sessions)
   = Some [([(1, Success, Some 200), (3, Success, Some 404)], [], demo_endpoint, True),
       ([(2, Success, Some 200)], [], demo_tunnel, True)]"
  by code_simp

text \<open>Every fetch has its own answer, and both sessions are at rest.\<close>

lemma two_hosts:
  obtains cl where
    "client_plays demo_skyr (asked @ map (\<lambda>(n, e). In_session n e) in_turn) new_client = Some cl"
    "fetch_answers cl = [(1, Success, Some 200), (3, Success, Some 404), (2, Success, Some 200)]"
    "map se_endpoint (cl_sessions cl) = [demo_endpoint, demo_tunnel]"
    "\<forall>s \<in> set (cl_sessions cl). at_rest s"
proof -
  from in_turn_plays obtain ss where ss: "sessions_play in_turn asked_sessions = Some ss"
      and eq: "map (\<lambda>s. (map (fetch_handled s) (se_done s), se_rejected s, se_endpoint s, at_rest s)) ss
        = [([(1, Success, Some 200), (3, Success, Some 404)], [], demo_endpoint, True),
           ([(2, Success, Some 200)], [], demo_tunnel, True)]" by auto
  show ?thesis
    by (rule that [OF trans [OF client_plays_append]], unfold asked_plays)
      (use eq in \<open>auto simp: client_plays_sessions ss fetch_answers_def\<close>)
qed

end
