(* ===== verification/Test_Suite.thy ===== *)
theory Test_Suite
  imports Client_Play Content_Type_Properties
begin

text \<open>
  The repository's own tests, replayed on the model: what \<open>tests/test_session.cpp\<close>,
  \<open>tests/test_request.cpp\<close>, \<open>tests/test_url.cpp\<close> and \<open>tests/test_proxy_match.cpp\<close> require of the
  program, the model does. The part of the network and of the server is played by the events.
\<close>

section \<open>Sessions\<close>

definition local_server :: endpoint where
  "local_server = Plain \<lparr>ep_domain = ''127.0.0.1'', ep_port = 8080\<rparr>"

definition secure_server :: endpoint where
  "secure_server = Secure \<lparr>ep_domain = ''httpbin.org'', ep_port = 443\<rparr>"

definition ends_with :: "error_code \<Rightarrow> io" where
  "ends_with ec = io_fine\<lparr>io_ec := ec\<rparr>"

definition connection_reset :: error_code where
  "connection_reset = Other_error 104"

definition beast_timeout :: error_code where
  "beast_timeout = Other_error 1"

text \<open>Scripts: some calls end well, a task is answered and the next one begins, a close ends.\<close>

definition fine :: "nat \<Rightarrow> event list" where
  "fine n = replicate n (Io_completes 0 io_fine)"

definition answered :: "nat \<Rightarrow> event list" where
  "answered n = concat (replicate n (fine 2 @ [Run_job io_fine]))"

definition pushed_up_to :: "nat \<Rightarrow> event list" where
  "pushed_up_to n = map (\<lambda>h. Push h demo_request) [1..<Suc n]"

text \<open>The server reads the request and closes: the response fails, the session closes its side.\<close>

definition interrupted :: "error_code \<Rightarrow> event list" where
  "interrupted ec = [Io_completes 0 io_fine, Io_completes 0 (ends_with ec), Io_completes 0 io_fine, Run_job io_fine]"

definition result :: "endpoint \<Rightarrow> event list \<Rightarrow> ((nat \<times> error_code) list \<times> (nat \<times> error_code) list \<times> bool \<times> bool) option" where
  "result ep es = map_option (\<lambda>s. (se_done s, se_replies s, has_tasks s, running s)) (plays es (new_session ep))"

text \<open>"session executes multiples request"\<close>

lemma session_executes_multiple_requests:
  "result local_server (pushed_up_to 10 @ Run_job io_fine # fine 2 @ answered 10)
     = Some (map (\<lambda>h. (h, Success)) [1..<11], [], False, True)"
  by code_simp

text \<open>"session is running while pushing multiple requests", after an explicit start\<close>

lemma session_running_while_pushing:
  "result local_server (Start io_fine 20 # fine 2 @ pushed_up_to 6 @ Run_job io_fine # answered 6 @ Stop io_fine Yes 21 # fine 1)
     = Some (map (\<lambda>h. (h, Success)) [1..<7], [(20, Success), (21, Success)], False, False)"
  by code_simp

text \<open>"session is interrupted once while pushing multiple requests"\<close>

lemma session_interrupted_once:
  "result local_server (pushed_up_to 6 @ Run_job io_fine # fine 2 @ answered 1 @ interrupted connection_reset
       @ fine 2 @ answered 5 @ Stop io_fine Yes 21 # fine 1)
     = Some (map (\<lambda>h. (h, Success)) [1..<7], [(21, Success)], False, False)"
  by code_simp

text \<open>"session is interrupted twice on the same request while pushing multiple requests"\<close>

lemma session_interrupted_twice_same:
  "result local_server (pushed_up_to 5 @ Run_job io_fine # fine 2 @ answered 1 @ interrupted connection_reset
       @ fine 2 @ interrupted connection_reset)
     = Some ([(1, Success), (2, connection_reset), (3, Operation_aborted), (4, Operation_aborted),
         (5, Operation_aborted)], [], False, False)"
  by code_simp

text \<open>"session is interrupted twice on a different request while pushing multiple requests"\<close>

lemma session_interrupted_twice_different:
  "result local_server (pushed_up_to 5 @ Run_job io_fine # fine 2 @ answered 1 @ interrupted connection_reset
       @ fine 2 @ answered 1 @ interrupted connection_reset @ fine 2 @ answered 3)
     = Some (map (\<lambda>h. (h, Success)) [1..<6], [], False, True)"
  by code_simp

text \<open>"session is stopped while running multiple requests", and stopped again\<close>

lemma session_stopped_while_running:
  "result local_server (Start io_fine 20 # fine 2 @ pushed_up_to 6 @ Run_job io_fine # answered 3 @ fine 1
       @ [Stop io_fine Yes 21, Io_completes 0 (ends_with Operation_aborted), Run_job io_fine] @ fine 1
       @ Stop io_fine Yes 22 # fine 1)
     = Some ([(1, Success), (2, Success), (3, Success), (4, Operation_aborted), (5, Operation_aborted),
         (6, Operation_aborted)], [(20, Success), (21, Success), (22, Success)], False, False)"
  by code_simp

text \<open>"session fails to auto connect on bad domain", "sessions abort when connection times out"\<close>

lemma session_fails_to_connect:
  "result secure_server (pushed_up_to 1 @ Run_job io_fine # fine 1 @ [Io_completes 0 (ends_with Connection_refused), Run_job io_fine])
     = Some ([(1, Connection_refused)], [], False, False)"
  "result secure_server (pushed_up_to 1 @ Run_job io_fine # fine 1 @ [Io_completes 0 (ends_with beast_timeout), Run_job io_fine])
     = Some ([(1, beast_timeout)], [], False, False)"
  by code_simp+

text \<open>"session aborts a request that takes too much time": the deadline passes in both rounds\<close>

lemma session_aborts_slow_request:
  "result local_server (pushed_up_to 1 @ Run_job io_fine # fine 2 @ interrupted beast_timeout @ fine 2 @ interrupted beast_timeout)
     = Some ([(1, beast_timeout)], [], False, False)"
  by code_simp

text \<open>"session closes while connecting": the stop comes while the first request is connecting\<close>

lemma session_closes_while_connecting:
  "result secure_server (pushed_up_to 9 @ Run_job io_fine # fine 1 @ Stop io_fine Yes 21
       # [Io_completes 0 (ends_with Operation_aborted), Run_job io_fine] @ fine 1)
     = Some (map (\<lambda>h. (h, Operation_aborted)) [1..<10], [(21, Success)], False, False)"
  by code_simp

section \<open>Content types\<close>

text \<open>
  Evaluating the regular expression is slow, so these rest on its grammar: how a string is split
  gives what is read, and a string that ends with a semicolon cannot be split.
\<close>

lemma json_media: "media_type ''application/json''"
  unfolding media_type_def
  by (intro exI [of _ "''application''"] exI [of _ "''json''"]) (simp add: type_char_def is_word_def)

lemma parameter_read:
  "list_all is_space sp \<Longrightarrow> list_all value_char v \<Longrightarrow> v \<noteq> [] \<Longrightarrow> length v \<le> n
   \<Longrightarrow> optional (parameter key n) (CHR '';'' # sp @ key @ v) v"
  unfolding parameter_def optional_def
  by (intro disjI1 exI [of _ sp] exI [of _ key]) (auto simp: same_word_def Suc_leI)

lemma content_type_read:
  "media_type ty \<Longrightarrow> optional (parameter ''charset='' 127) p c \<Longrightarrow> optional (parameter ''boundary='' 70) q b
   \<Longrightarrow> parse_content_type (ty @ p @ q) = Inr \<lparr>ct_type = ty, ct_charset = c, ct_boundary = b\<rparr>"
  unfolding parse_shape content_type_shape_def by (intro exI [of _ p] exI [of _ q] exI [of _ "[]"]) simp

lemma parameter_end: "optional (parameter key n) p v \<Longrightarrow> p = [] \<or> value_char (last p)"
proof -
  have "value_char (last p)" if "parameter key n p v"
  proof -
    from that obtain sp w where x: "p = CHR '';'' # sp @ w @ v" "list_all value_char v" "1 \<le> length v"
      unfolding parameter_def by auto
    then have "v \<noteq> []" by auto
    with x show ?thesis by (simp add: list_all_iff)
  qed
  then show "optional (parameter key n) p v \<Longrightarrow> p = [] \<or> value_char (last p)"
    unfolding optional_def by blast
qed

lemma trailing_semicolon: "parse_content_type (s @ '';'') = Inl (Domain_error ''malformed content type'')"
proof -
  have "\<not> content_type_shape (s @ '';'') ct" for ct
  proof
    assume "content_type_shape (s @ '';'') ct"
    then obtain p q ws where x: "s @ '';'' = ct_type ct @ p @ q @ ws" "media_type (ct_type ct)"
      "optional (parameter ''charset='' 127) p (ct_charset ct)"
      "optional (parameter ''boundary='' 70) q (ct_boundary ct)" "list_all is_space ws"
      unfolding content_type_shape_def by blast
    have no: "\<not> is_space (CHR '';'')" "\<not> value_char (CHR '';'')" "\<not> type_char (CHR '';'')"
      by (simp_all add: is_space_def value_char_def type_char_def is_word_def)
    have p: "p = [] \<or> value_char (last p)" and q: "q = [] \<or> value_char (last q)"
      using x(3,4) by (blast dest: parameter_end)+
    have ty: "ct_type ct \<noteq> [] \<and> type_char (last (ct_type ct))"
      using x(2) unfolding media_type_def by (auto simp: list_all_iff)
    have "last (ct_type ct @ p @ q @ ws) = CHR '';''" unfolding x(1) [symmetric] by simp
    moreover have "ws = [] \<or> is_space (last ws)" using x(5) by (cases ws rule: rev_cases) auto
    ultimately show False using no p q ty by (auto simp: last_append split: if_splits)
  qed
  then show ?thesis unfolding parse_error by blast
qed

text \<open>"parsing content_type"\<close>

lemma parsing_content_type:
  "parse_content_type ''application/json; charset=UTF8''
     = Inr \<lparr>ct_type = ''application/json'', ct_charset = ''UTF8'', ct_boundary = []\<rparr>"
  "parse_content_type ''application/json; boundary=--paf--''
     = Inr \<lparr>ct_type = ''application/json'', ct_charset = [], ct_boundary = ''--paf--''\<rparr>"
  "parse_content_type ''application/json; charset=ascii; boundary=--paf--''
     = Inr \<lparr>ct_type = ''application/json'', ct_charset = ''ascii'', ct_boundary = ''--paf--''\<rparr>"
  "parse_content_type ''application/json; charset=ascii; boundary=--paf--;''
     = Inl (Domain_error ''malformed content type'')"
  "parse_content_type ''application/json;          charset=ascii; boundary=--paf--''
     = Inr \<lparr>ct_type = ''application/json'', ct_charset = ''ascii'', ct_boundary = ''--paf--''\<rparr>"
proof -
  have utf8: "optional (parameter ''charset='' 127) ''; charset=UTF8'' ''UTF8''"
    and ascii: "optional (parameter ''charset='' 127) ''; charset=ascii'' ''ascii''"
    and paf: "optional (parameter ''boundary='' 70) ''; boundary=--paf--'' ''--paf--''"
    and far: "optional (parameter ''charset='' 127) '';          charset=ascii'' ''ascii''"
    using parameter_read [of "'' ''" "''UTF8''" 127 "''charset=''"]
      parameter_read [of "'' ''" "''ascii''" 127 "''charset=''"]
      parameter_read [of "'' ''" "''--paf--''" 70 "''boundary=''"]
      parameter_read [of "''          ''" "''ascii''" 127 "''charset=''"]
    by (simp_all add: is_space_def value_char_def is_word_def)
  have none: "optional P [] []" for P by (simp add: optional_def)
  show "parse_content_type ''application/json; charset=UTF8''
     = Inr \<lparr>ct_type = ''application/json'', ct_charset = ''UTF8'', ct_boundary = []\<rparr>"
    using content_type_read [OF json_media utf8 none] by simp
  show "parse_content_type ''application/json; boundary=--paf--''
     = Inr \<lparr>ct_type = ''application/json'', ct_charset = [], ct_boundary = ''--paf--''\<rparr>"
    using content_type_read [OF json_media none paf] by simp
  show "parse_content_type ''application/json; charset=ascii; boundary=--paf--''
     = Inr \<lparr>ct_type = ''application/json'', ct_charset = ''ascii'', ct_boundary = ''--paf--''\<rparr>"
    using content_type_read [OF json_media ascii paf] by simp
  show "parse_content_type ''application/json; charset=ascii; boundary=--paf--;''
     = Inl (Domain_error ''malformed content type'')"
    using trailing_semicolon [of "''application/json; charset=ascii; boundary=--paf--''"] by simp
  show "parse_content_type ''application/json;          charset=ascii; boundary=--paf--''
     = Inr \<lparr>ct_type = ''application/json'', ct_charset = ''ascii'', ct_boundary = ''--paf--''\<rparr>"
    using content_type_read [OF json_media far paf] by simp
qed

section \<open>URLs and proxies\<close>

text \<open>"parse url with port", "select proxy", "proxy_from_env"\<close>

lemma ports_of_urls:
  "safe_port demo_skyr (''https'', ''example.com'', None, '''') = Inr 443"
  "safe_port demo_skyr (''https'', ''example.com'', Some 82, '''') = Inr 82"
  by (simp_all add: safe_port_def demo_skyr_def demo_port_def)

definition proxy_at :: "string \<Rightarrow> nat \<Rightarrow> (demo_url, unit) proxy" where
  "proxy_at h n = \<lparr>px_url = (''http'', h, Some n, ''''), px_fields = ()\<rparr>"

definition test_proxies :: "(demo_url, unit) proxy_map" where
  "test_proxies = map_emplace (By_origin ''https://dev-api.farway.com'') (proxy_at ''thirdproxy'' 3128)
     (map_emplace (By_scheme Proxy_http) (proxy_at ''secondproxy'' 3128)
       (map_emplace (By_scheme Proxy_https) (proxy_at ''firstproxy'' 3128) (\<lambda>_. None)))"

lemma selecting_proxies:
  "select_proxy demo_skyr test_proxies (''https'', ''anywhere.com'', None, '''') = Inr (Some (proxy_at ''firstproxy'' 3128))"
  "select_proxy demo_skyr test_proxies (''http'', ''anywhere.com'', None, '''') = Inr (Some (proxy_at ''secondproxy'' 3128))"
  "select_proxy demo_skyr test_proxies (''https'', ''dev-api.farway.com'', None, '''') = Inr (Some (proxy_at ''thirdproxy'' 3128))"
  "select_proxy demo_skyr test_proxies (''https'', ''dev-api.farway.com'', None, ''/get_somewhere_else'')
     = Inr (Some (proxy_at ''thirdproxy'' 3128))"
  "select_proxy demo_skyr test_proxies (''http'', ''dev-api.farway.com'', None, '''') = Inr (Some (proxy_at ''secondproxy'' 3128))"
  by (simp_all add: select_proxy_def scheme_to_proxy_scheme_def test_proxies_def map_emplace_def demo_skyr_def)

definition test_environment :: "(string \<times> string) list \<Rightarrow> (demo_url, unit) proxy_map result" where
  "test_environment vars = proxy_from_environment (map_of vars) (\<lambda>v. Inr \<lparr>px_url = (v, '''', None, ''''), px_fields = ()\<rparr>)"

definition urls_of :: "(demo_url, unit) proxy_map result \<Rightarrow> demo_url option list" where
  "urls_of r = (case r of Inl _ \<Rightarrow> []
     | Inr m \<Rightarrow> map (\<lambda>s. map_option px_url (m (By_scheme s))) [Proxy_http, Proxy_https, Proxy_all])"

lemma proxies_from_env:
  "urls_of (test_environment [(''HTTP_PROXY'', ''http://localhost:3128''), (''HTTPS_PROXY'', ''http://localhost:3129'')])
     = [Some (''http://localhost:3128'', '''', None, ''''), Some (''http://localhost:3129'', '''', None, ''''), None]"
  "urls_of (test_environment [(''HTTP_PROXY'', ''http://localhost:3128''), (''HTTPS_PROXY'', ''http://localhost:3129''),
       (''http_proxy'', ''http://faraway:3128''), (''https_proxy'', ''http://faraway:3129'')])
     = [Some (''http://faraway:3128'', '''', None, ''''), Some (''http://faraway:3129'', '''', None, ''''), None]"
  by (simp_all add: urls_of_def test_environment_def proxy_from_environment_def safe_get_env_def emplace_env_def
      map_emplace_def)

end
