(* ===== verification/Spec2Isabelle.thy ===== *)
theory Spec2Isabelle
  imports Session_Properties Transport_Properties Url_Properties Content_Type_Properties
    Message_Properties Proxy_Properties Client_Properties Fetch_Properties Executor
    Client_Play Test_Suite
begin

text \<open>
  fetchpp: a C++17 asynchronous HTTP client on Boost.Asio and Boost.Beast. File names are
  relative to \<open>src/libs/fetchpp/include/fetchpp\<close> (headers) and \<open>src/libs/fetchpp/src\<close>.

  \<^bold>\<open>The program.\<close> A \<open>client\<close> routes each request to one of its \<open>session\<close>s, by the endpoint that
  the URL and the table of proxies give. A session owns one transport (TCP, TLS, or TLS
  through an HTTP proxy) and a queue of tasks; it connects when it must, makes one exchange
  at a time, retries a failed exchange once over a new connection, and can be stopped. Every
  operation is a stackless coroutine that is resumed by the completion of the call it waits
  for. \<open>async_fetch\<close> makes one exchange without a client. Around that there are messages,
  content types, URLs, proxies and options.

  \<^bold>\<open>What is a parameter.\<close> Boost.Asio and Boost.Beast are not in the repository: a call into them is
  an \<open>io_call\<close>, its outcome an \<open>io\<close> record the environment chooses freely within \<open>io_lawful\<close>. The
  container of header fields is the record \<open>'f beast\<close> with the laws \<open>beast_laws\<close>; \<open>skyr::url\<close> and
  \<open>skyr::parse\<close> are \<open>'u skyr\<close> (laws \<open>skyr_scheme\<close>, \<open>skyr_ports\<close>) and \<open>skyr_parser\<close>; base64, the JSON
  parser and \<open>getenv\<close> are functions. Each law is shown to be satisfiable by a concrete
  instance (\<open>demo_skyr\<close>, \<open>demo_beast\<close>) that the witnesses use. A socket counts as open from the
  moment a connection attempt opened it (\<open>io_opened\<close>), before the attempt has succeeded;
  \<open>tr_secured\<close> records that a handshake has succeeded since.

  \<^bold>\<open>The theories\<close>, each with what it models:

  \<^item> \<open>Prelude\<close>: exceptions as a sum type, decimal numerals of \<open>std::to_string\<close> and
    \<open>std::from_chars\<close>.
  \<^item> \<open>Endpoint\<close>, \<open>Url\<close>: \<open>core/endpoint\<close>, \<open>http/url\<close>, \<open>core/detail/endpoint.hpp\<close>. The locale
    \<open>session_key\<close> is what the client's table needs of the equality of endpoints.
  \<^item> \<open>Asio\<close>: error codes, calls and outcomes, the members of a transport, the form of a coroutine
    (\<open>step\<close>) and its runs. The locales \<open>composed_op\<close> (it finishes within its rank) and
    \<open>contract_op\<close> (and it ends in its postcondition) are interpreted on every coroutine below.
  \<^item> \<open>Transport\<close>, \<open>Process_One\<close>, \<open>Tunnel\<close>: \<open>core/basic_transport.hpp\<close>, \<open>core/tcp_transport.hpp\<close>,
    \<open>core/ssl_transport.hpp\<close>, \<open>core/detail/close_ssl.hpp\<close>, \<open>core/process_one.hpp\<close>,
    \<open>core/tunnel_transport.hpp\<close>, which repeats the members of the basic transport. A resume point of a C++ coroutine is a constructor; an operation
    that waits for an inner one is at the inner one's resume point (\<open>nested\<close>, \<open>tconn\<close>).
  \<^item> \<open>Async_Transport\<close>: the transport template argument of a session. The locale \<open>async_transport\<close>
    is its contract, interpreted on the three transports.
  \<^item> \<open>Session_Base\<close>, \<open>Session\<close>: \<open>core/detail/session_base.hpp\<close>, \<open>core/session_base.cpp\<close>,
    \<open>core/session.hpp\<close>. A session is a record with its queue, its strand (\<open>se_jobs\<close>), the
    operations under way (\<open>se_active\<close>) and logs of answers and calls. \<open>internal\<close> are the steps it
    takes by itself, in any order the environment chooses, \<open>user\<close> those of its user.
  \<^item> \<open>Session_Order\<close>, \<open>Session_Live\<close>, \<open>Session_History\<close>, \<open>Session_Spec\<close>: its invariants. Exactly one
    driver moves a nonempty queue; \<open>work\<close> decreases with every internal step; a request is
    sent once per round; and the abstract queue the session refines.
  \<^item> \<open>Session_Steady\<close>: a session that nobody starts explicitly (\<open>unstarted\<close>, as a client uses it)
    and that is \<open>undisturbed\<close>: it runs, and no request was answered with \<open>operation_aborted\<close>, the
    outcome of a call that a stop has cancelled. It has one operation on its transport at a time, and a deadline with it.
  \<^item> \<open>Session_Dialogue\<close>: a session whose requests are known (\<open>serving\<close>): its log is a dialogue in
    which what is written for a task is its request, and a response follows the request it answers.
  \<^item> \<open>Session_Stops\<close>, \<open>Session_Pool\<close>: the handlers of starts and stops, each owed once (\<open>owed\<close>); and the locale
    \<open>session_pool\<close>, what the client relies on of its sessions.
  \<^item> \<open>Session_Run\<close>: the steps as an executable function, and concrete runs.
  \<^item> \<open>Regex\<close>, \<open>Content_Type\<close>: \<open>http/content_type\<close>. The part of \<open>std::regex\<close> that its one expression
    needs is a backtracking matcher; \<open>content_type_shape\<close> is the grammar it accepts.
  \<^item> \<open>Message\<close>: \<open>http/message.hpp\<close>, \<open>http/request.hpp\<close>, \<open>http/response.hpp\<close>,
    \<open>http/detail/request.cpp\<close>, \<open>http/authorization\<close>, \<open>core/options.hpp\<close>, \<open>core/cache_mode\<close>,
    \<open>core/field_arg.hpp\<close>.
  \<^item> \<open>Proxy\<close>: \<open>http/proxy\<close>. The locale \<open>proxy_table\<close> is what the client relies on.
  \<^item> \<open>Client\<close>: \<open>client.hpp\<close>, \<open>core/detail/client.hpp\<close>, \<open>core/client.cpp\<close>: the operations of a
    client, the steps it takes by itself (\<open>client_internal\<close>), which interleave those of all its
    sessions, and those of its users (\<open>client_user\<close>). \<open>Client_Inv\<close>, \<open>Client_History\<close>,
    \<open>Client_Live\<close>, \<open>Client_Stops\<close>: every fetch is with exactly one session or on its way to it; a
    stopped session stays so; \<open>client_work\<close> decreases; every stop operation waits for a session
    that owes it an answer. \<open>Client_Dialogue\<close>: what is written for a fetch is its request, by a
    session of its endpoint. \<open>Client_Run\<close>: concrete clients.
    \<open>Client_Play\<close>: the steps as an executable function, and two hosts fetched from in turn.
    \<open>Test_Suite\<close>: what the tests of the repository require, replayed on the model.
  \<^item> \<open>Executor\<close>: the executors and strands of a client and its sessions, \<open>net/make_post.hpp\<close> and
    \<open>net/make_dispatch.hpp\<close>. Under strands that behave as documented (\<open>scheduled\<close>) the functions of
    a client run one at a time, which is why its steps are atomic in the other theories.
  \<^item> \<open>Fetch\<close>: \<open>fetch.hpp\<close>, \<open>core/detail/fetch.hpp\<close>, a coroutine over the same transports.
  \<^item> \<open>Get_Post\<close>: \<open>get.hpp\<close>, \<open>post.hpp\<close>: the messages meet the transports.
  \<^item> The theories named \<open>.._Properties\<close> hold the properties, each with a number.

  \<^bold>\<open>What the properties show.\<close> For every reachable state, whatever the environment answers and in
  whatever order: a session answers what it accepted once, in order, and all of it when it
  comes to rest, which it does within \<open>work\<close> steps; it sends a request at most twice and never
  before its turn, stores a response only for the request it answers, and has a deadline while it
  waits; stopping it aborts what is left, and every start and stop calls its handler once. A client
  answers each fetch once, with a response or an error, routes it by its endpoint, writes for it
  what was asked, and that at most twice, keeps an https URL on TLS and writes nothing there before
  the handshake, and comes to rest; a stop that no new session overtakes ends with no session
  running; its functions never run at the same time. The transports reconnect from a clean state
  and finish within a fixed number of calls.
  Parsing a content type is equivalent to its grammar and inverse to printing it in full.
  Several properties state what the code does where this is not what it means to do, such as
  a push during an explicit start, or a fetch during a stop; lemmas next to them show others,
  such as a retry on a new connection, a stop that misses a connection attempt, or credentials
  that nothing sends.

  \<^bold>\<open>Bounds and fuel.\<close> Ports are 16-bit words, content lengths and body limits 64-bit words, read
  with \<open>unat\<close>. The only loop that is not structural, \<open>cancel_all_tasks\<close>, is a \<open>while\<close> whose end is
  one of the properties of the session. No definition needs fuel: \<open>run\<close> and \<open>plays\<close> are recursive on the list
  of outcomes.

  \<^bold>\<open>Not modelled.\<close> The scheduler of Boost.Asio beyond what is documented of strands, real time (a
  timer may end at any moment), memory and object lifetime (except the iterators of the client's stop), the TLS context, forwarding of \<open>async_read_some\<close> and
  \<open>async_write_some\<close> to the stream, the bytes of a response body, the helpers for types in
  \<open>core/detail\<close>, and the code of the tests (\<open>Test_Suite\<close> holds
  what they require of sessions, content types, URLs and proxies). The error of \<open>socket().cancel\<close> in \<open>core/detail/cancel_socket.hpp\<close>
  is ignored, as in a build without assertions. Constructors, accessors and \<open>operator=\<close> that only
  set or read members are the records' own constructors and selectors.
\<close>

end
